(* ===== verification/Prelude.thy ===== *)
theory Prelude
  imports Main "HOL-Library.Word" "HOL-Library.Monad_Syntax"
begin

text \<open>
  Shared ground of the development: names for the machine integers of the C code, address
  ranges on 64-bit addresses (with wrap-around), little-endian words over a byte function,
  and the collections of simplification rules the component theories extend.
\<close>

unbundle bit_operations_syntax

section \<open>Machine integers\<close>

type_synonym u8 = "8 word"
type_synonym u16 = "16 word"
type_synonym u32 = "32 word"
type_synonym u64 = "64 word"

text \<open>
  \<open>mem_simps\<close> collects how loads see stores; \<open>frame_simps\<close> collects which fields an
  operation leaves alone.
\<close>

named_theorems mem_simps
named_theorems frame_simps

section \<open>Option-monad rules\<close>

lemma bind_SomeI: "f = Some x \<Longrightarrow> g x = y \<Longrightarrow> f \<bind> g = y"
  by simp

lemma bind_SomeE:
  assumes "f \<bind> g = Some y"
  obtains x where "f = Some x" and "g x = Some y"
  using assms by (cases f) auto

section \<open>Conversions between widths\<close>

lemma unat_ucast_up [simp]:
  fixes w :: "'a::len word"
  assumes "LENGTH('a) \<le> LENGTH('b::len)"
  shows "unat (ucast w :: 'b word) = unat w"
proof -
  have "unat w < 2 ^ LENGTH('a)" by (rule unsigned_less)
  also have "\<dots> \<le> 2 ^ LENGTH('b)" using assms by simp
  finally have "unat w < 2 ^ LENGTH('b)" .
  then show ?thesis by (simp add: unsigned_ucast_eq take_bit_nat_eq_self)
qed

lemma ucast_ucast_up [simp]:
  fixes w :: "'a::len word"
  assumes "LENGTH('a) \<le> LENGTH('b::len)"
  shows "(ucast (ucast w :: 'b word) :: 'a word) = w"
  using assms by (intro bit_word_eqI) (simp add: bit_simps)

section \<open>Signed readings of 32-bit words\<close>

lemma uint_unat32: "unat w = n \<Longrightarrow> uint (w :: u32) = int n"
  by auto

lemma sint32_unat:
  fixes w :: u32
  shows "sint w = (if unat w < 2 ^ 31 then int (unat w) else int (unat w) - 2 ^ 32)"
proof -
  obtain n where n: "unat w = n" by blast
  have mod: "int n = sint w mod 2 ^ 32"
    using uint_sint [of w] by (simp add: take_bit_eq_mod uint_unat32 [OF n])
  have bounds: "- (2 ^ 31) \<le> sint w" "sint w < 2 ^ 31"
    using sint_ge [of w] sint_lt [of w] by simp_all
  show ?thesis
  proof (cases "0 \<le> sint w")
    case True
    then have "int n = sint w" using mod bounds by simp
    then show ?thesis using bounds n by simp
  next
    case False
    have "(sint w + 2 ^ 32) mod 2 ^ 32 = sint w + 2 ^ 32"
      by (rule mod_pos_pos_trivial) (use False bounds in simp_all)
    then have "int n = sint w + 2 ^ 32" using mod by simp
    then show ?thesis using False bounds n by simp
  qed
qed

lemma sless_0_unat:
  fixes w :: u32
  shows "w <s 0 \<longleftrightarrow> 2 ^ 31 \<le> unat w"
  using sint32_unat [of w] unsigned_less [of w] by (auto simp: word_sless_alt)

lemma scast_nonneg:
  fixes w :: u32
  assumes "unat w < 2 ^ 31"
  shows "(scast w :: u64) = ucast w"
proof -
  have "sint w = uint w" using assms sint32_unat [of w] by simp
  then show ?thesis by (simp only: scast_eq ucast_eq)
qed

lemma unat_minus_word:
  fixes w :: "'w::len word"
  assumes "w \<noteq> 0"
  shows "unat (- w) = 2 ^ LENGTH('w) - unat w"
  using unat_sub_if_size [of 0 w] assms by (simp add: word_size unat_gt_0)

section \<open>Address ranges\<close>

text \<open>
  \<open>within a p n\<close>: the address \<open>a\<close> is one of the \<open>n\<close> bytes that start at \<open>p\<close>. The
  subtraction wraps, so the definition is right for ranges that cross the top as well.
\<close>

definition within :: "u64 \<Rightarrow> u64 \<Rightarrow> nat \<Rightarrow> bool" where
  "within a p n \<longleftrightarrow> unat (a - p) < n"

lemma unat_of_nat64: "i < 2 ^ 64 \<Longrightarrow> unat (of_nat i :: u64) = i"
  by (rule of_nat_inverse [OF refl]) simp

lemma unat_u64_less [simp]: "unat (x :: u64) < 18446744073709551616"
  using unsigned_less [of x] by simp

lemma unat_Suc_less:
  fixes i :: "'w::len word"
  assumes "i < m"
  shows "unat (i + 1) = Suc (unat i)"
proof -
  have "unat i + unat (1 :: 'w word) \<le> unat m"
    using assms by (simp add: word_less_nat_alt)
  also have "unat m < 2 ^ LENGTH('w)" by (rule unsigned_less)
  finally show ?thesis using unat_add_lem [of i 1] by simp
qed

lemma within_0 [simp]: "\<not> within a p 0"
  by (simp add: within_def)

lemma within_self [simp]: "within p p n \<longleftrightarrow> 0 < n"
  by (simp add: within_def)

lemma within_offset [simp]:
  "i < 2 ^ 64 \<Longrightarrow> within (p + of_nat i) p n \<longleftrightarrow> i < n"
  by (simp add: within_def unat_of_nat64)

lemma withinE:
  assumes "within a p n"
  obtains i where "i < n" and "a = p + of_nat i" and "i < 2 ^ 64"
proof
  show "unat (a - p) < n" using assms by (simp add: within_def)
  show "a = p + of_nat (unat (a - p))" by simp
  show "unat (a - p) < 2 ^ 64" by simp
qed

lemma within_mono: "within a p n \<Longrightarrow> n \<le> k \<Longrightarrow> within a p k"
  by (simp add: within_def)

lemma unat_diff_Suc:
  fixes a p :: u64
  assumes "a \<noteq> p"
  shows "unat (a - p) = Suc (unat (a - (p + 1)))"
proof -
  have "a - p \<noteq> 0" using assms by simp
  then have "unat (a - p - 1) = unat (a - p) - 1" by (rule unat_minus_one)
  moreover have "0 < unat (a - p)" using \<open>a - p \<noteq> 0\<close> by (simp add: unat_gt_0)
  ultimately show ?thesis by (simp add: diff_diff_eq)
qed

lemma within_Suc: "within a p (Suc n) \<longleftrightarrow> a = p \<or> within a (p + 1) n"
proof (cases "a = p")
  case False
  then show ?thesis by (simp add: within_def unat_diff_Suc)
qed simp

lemma not_within_Suc:
  assumes "Suc n \<le> 2 ^ 64"
  shows "\<not> within p (p + 1) n"
  using assms by (simp add: within_def unsigned_minus_1_eq_mask mask_eq_exp_minus_1)

lemma within_offset_iff:
  assumes "off + k \<le> 2 ^ 64"
  shows "within x (p + of_nat off) k \<longleftrightarrow> off \<le> unat (x - p) \<and> unat (x - p) < off + k"
proof (cases "k = 0")
  case False
  with assms have off: "unat (of_nat off :: u64) = off" by (intro unat_of_nat64) simp
  have eq: "x - (p + of_nat off) = x - p - of_nat off" by simp
  show ?thesis
  proof (cases "off \<le> unat (x - p)")
    case True
    then have "unat (x - p - of_nat off) = unat (x - p) - off"
      using off by (subst unat_sub) (simp_all add: word_le_nat_alt)
    then show ?thesis using True unfolding within_def eq by linarith
  next
    case False
    then have "unat (x - p - of_nat off) = 2 ^ 64 + unat (x - p) - off"
      using off unat_sub_if' [of "x - p" "of_nat off"] by simp
    then show ?thesis using False assms unfolding within_def eq by linarith
  qed
qed simp

lemma within_add:
  assumes "a + b \<le> 2 ^ 64"
  shows "within x p (a + b) \<longleftrightarrow> within x p a \<or> within x (p + of_nat a) b"
proof (cases "a = 2 ^ 64")
  case True
  then show ?thesis using assms by (simp add: within_def)
next
  case False
  with assms have a: "unat (of_nat a :: u64) = a" by (intro unat_of_nat64) simp
  have "unat (x - (p + of_nat a)) =
      (if a \<le> unat (x - p) then unat (x - p) - a else unat (x - p) + 2 ^ 64 - a)"
    using unat_sub_if_size [of "x - p" "of_nat a"] a by (simp add: diff_diff_eq word_size)
  then show ?thesis using assms by (auto simp: within_def)
qed

lemma within_part: "i + k \<le> n \<Longrightarrow> n \<le> 2 ^ 64 \<Longrightarrow> within x (p + of_nat i) k \<Longrightarrow> within x p n"
  by (erule withinE) (simp add: add.assoc flip: of_nat_add)

section \<open>Little-endian words over a byte function\<close>

text \<open>
  \<open>ldw n m a\<close> reads the \<open>n\<close> bytes at \<open>a\<close> as a little-endian word and \<open>stw n m a v\<close>
  writes the low \<open>n\<close> bytes of \<open>v\<close> there: a load or store of a C integer of \<open>n\<close> bytes.
\<close>

fun ldw :: "nat \<Rightarrow> (u64 \<Rightarrow> u8) \<Rightarrow> u64 \<Rightarrow> 'w::len word" where
  "ldw 0 m a = 0"
| "ldw (Suc n) m a = ucast (m a) OR push_bit 8 (ldw n m (a + 1))"

fun stw :: "nat \<Rightarrow> (u64 \<Rightarrow> u8) \<Rightarrow> u64 \<Rightarrow> 'w::len word \<Rightarrow> (u64 \<Rightarrow> u8)" where
  "stw 0 m a v = m"
| "stw (Suc n) m a v = stw n (m(a := ucast v)) (a + 1) (drop_bit 8 v)"

lemma ldw_cong:
  assumes "\<And>b. within b a n \<Longrightarrow> m b = m' b"
  shows "ldw n m a = ldw n m' a"
  using assms
proof (induction n arbitrary: a)
  case (Suc n)
  then show ?case by (simp add: within_Suc)
qed simp

lemma ldw_shift:
  "(\<And>i. i < n \<Longrightarrow> m (a + of_nat i) = m' (b + of_nat i)) \<Longrightarrow> ldw n m a = ldw n m' b"
proof (induction n arbitrary: a b)
  case (Suc n)
  have "m (a + 1 + of_nat i) = m' (b + 1 + of_nat i)" if "i < n" for i
    using Suc.prems [of "Suc i"] that by (simp add: ac_simps)
  then show ?case using Suc.IH [of "a + 1" "b + 1"] Suc.prems [of 0] by simp
qed simp

lemma bit_ldw:
  "bit (ldw n m a :: 'w::len word) k \<longleftrightarrow>
     k < LENGTH('w) \<and> k < 8 * n \<and> bit (m (a + of_nat (k div 8))) (k mod 8)"
proof (induction n arbitrary: a k)
  case (Suc n)
  show ?case
  proof (cases "k < 8")
    case True
    then show ?thesis
      by (auto simp: bit_simps)
  next
    case False
    then obtain j where k: "k = j + 8" by (metis add.commute le_Suc_ex not_less)
    have "\<not> bit (m a) (j + 8)"
      using bit_imp_le_length [of "m a" "j + 8"] by auto
    then show ?thesis
      using Suc.IH [of "a + 1" j]
      by (auto simp: k bit_simps div_add_self2 add.assoc)
  qed
qed simp

lemma stw_eq:
  "n \<le> 2 ^ 64 \<Longrightarrow> stw n m a v =
     (\<lambda>b. if within b a n then ucast (drop_bit (8 * unat (b - a)) v) else m b)"
proof (induction n arbitrary: m a v)
  case (Suc n)
  have IH: "stw n (m(a := ucast v)) (a + 1) (drop_bit 8 v) =
     (\<lambda>b. if within b (a + 1) n then ucast (drop_bit (8 * unat (b - (a + 1))) (drop_bit 8 v))
          else (m(a := ucast v)) b)"
    using Suc.prems by (intro Suc.IH) simp
  show ?case
  proof (rule ext)
    fix b
    show "stw (Suc n) m a v b =
      (if within b a (Suc n) then ucast (drop_bit (8 * unat (b - a)) v) else m b)"
    proof (cases "b = a")
      case True
      then show ?thesis using IH not_within_Suc [OF Suc.prems, of a] by simp
    next
      case False
      then show ?thesis
        by (simp add: IH within_Suc unat_diff_Suc add.commute [of "8 * unat (b - (a + 1))" 8])
    qed
  qed
qed simp

lemma ldw_stw_same:
  fixes v :: "'w::len word"
  assumes "n \<le> 2 ^ 64" and "LENGTH('w) \<le> 8 * n"
  shows "ldw n (stw n m a v) a = v"
proof (rule bit_word_eqI)
  fix k assume k: "k < LENGTH('w)"
  then have "k div 8 < n" using assms by linarith
  moreover have "k div 8 < 2 ^ 64" using \<open>k div 8 < n\<close> assms(1) by linarith
  ultimately show "bit (ldw n (stw n m a v) a :: 'w word) k = bit v k"
    using k assms by (simp add: bit_ldw stw_eq unat_of_nat64 bit_simps)
qed

lemma stw_outside:
  "n \<le> 2 ^ 64 \<Longrightarrow> \<not> within b a n \<Longrightarrow> stw n m a v b = m b"
  by (simp add: stw_eq)

lemma ldw_stw_other:
  assumes "n \<le> 2 ^ 64" and "\<And>c. within c b k \<Longrightarrow> \<not> within c a n"
  shows "ldw k (stw n m a v) b = ldw k m b"
  using assms by (intro ldw_cong) (simp add: stw_outside)

lemma byte_ldw:
  assumes "i < n" and "8 * n \<le> LENGTH('w::len)"
  shows "ucast (drop_bit (8 * i) (ldw n m a :: 'w word)) = m (a + of_nat i)"
proof (rule bit_word_eqI)
  fix k assume "k < LENGTH(8)"
  then have "k < 8" by simp
  then have "(8 * i + k) div 8 = i" "(8 * i + k) mod 8 = k" "8 * i + k < 8 * n"
    using assms(1) by auto
  with assms(2) \<open>k < 8\<close>
  show "bit (ucast (drop_bit (8 * i) (ldw n m a :: 'w word)) :: u8) k = bit (m (a + of_nat i)) k"
    by (simp add: bit_simps bit_ldw)
qed

text \<open>The bytes of a range as a list, and NUL-terminated strings.\<close>

primrec bytes :: "(u64 \<Rightarrow> u8) \<Rightarrow> u64 \<Rightarrow> nat \<Rightarrow> u8 list" where
  "bytes m p 0 = []"
| "bytes m p (Suc n) = m p # bytes m (p + 1) n"

primrec cstring :: "(u64 \<Rightarrow> u8) \<Rightarrow> u64 \<Rightarrow> u8 list \<Rightarrow> bool" where
  "cstring m p [] \<longleftrightarrow> m p = 0"
| "cstring m p (x # xs) \<longleftrightarrow> m p = x \<and> x \<noteq> 0 \<and> cstring m (p + 1) xs"

lemma length_bytes [simp]: "length (bytes m p n) = n"
  by (induction n arbitrary: p) auto

lemma nth_bytes: "i < n \<Longrightarrow> bytes m p n ! i = m (p + of_nat i)"
  by (induction n arbitrary: p i) (auto simp: nth_Cons ac_simps split: nat.splits)

lemma bytes_eq_iff:
  "bytes m p n = bytes m' q n \<longleftrightarrow> (\<forall>i<n. m (p + of_nat i) = m' (q + of_nat i))"
  by (auto simp: list_eq_iff_nth_eq nth_bytes)

lemma cstring_iff:
  "cstring m p xs \<longleftrightarrow> bytes m p (length xs) = xs \<and> 0 \<notin> set xs \<and> m (p + of_nat (length xs)) = 0"
  by (induction xs arbitrary: p) (auto simp: ac_simps)

end
