(* ===== verification/Machine.thy ===== *)
theory Machine
  imports Prelude
begin

text \<open>
  The machine the C code runs on: byte-addressed memory, the CR3 register, the offset of the
  boot loader's direct map, the log of port writes, and what the devices answer to port reads
  (\<open>outb\<close> and \<open>inb\<close> of arch/x86_64/io.h): \<open>inputs st p n\<close> is the answer to the read number
  \<open>n\<close> of port \<open>p\<close>, and \<open>in_pos st p\<close> counts the reads made so far.

  Memory is indexed by kernel addresses. An address in the upper half (0xFFFF800000000000 and
  above) names its own cell; an address in the lower half is translated by the four-level page
  tables that CR3 points to, read through the direct map, and then names the cell at
  \<open>hhdm_offset\<close> plus its physical address. An access that is not translated is a page fault:
  \<open>isr14_handler\<close> never returns, so the C code that made it does not either, and its model
  is \<open>None\<close>.

  Every component extends the record with the static variables of its C file.
\<close>

unbundle bit_operations_syntax

record machine =
  mem :: "u64 \<Rightarrow> u8"
  cr3 :: u64
  hhdm_offset :: u64
  outlog :: "(u16 \<times> u8) list"
  inputs :: "u16 \<Rightarrow> nat \<Rightarrow> u8"
  in_pos :: "u16 \<Rightarrow> nat"

section \<open>Address translation\<close>

definition khalf :: "u64 \<Rightarrow> bool" where
  "khalf a \<longleftrightarrow> 0xFFFF800000000000 \<le> a"

abbreviation entry_mask :: u64 where
  "entry_mask \<equiv> 0x000FFFFFFFFFF000"

abbreviation present :: "u64 \<Rightarrow> bool" where
  "present e \<equiv> bit e 0"

definition entry_addr :: "u64 \<Rightarrow> u64 \<Rightarrow> nat \<Rightarrow> u64" where
  "entry_addr h t i = t + h + 8 * of_nat i"

definition entry_at :: "(u64 \<Rightarrow> u8) \<Rightarrow> u64 \<Rightarrow> u64 \<Rightarrow> nat \<Rightarrow> u64" where
  "entry_at m h t i = ldw 8 m (entry_addr h t i)"

text \<open>
  \<open>tbl m h r p\<close> follows the indices of \<open>p\<close>, the last one first, from the table at physical
  address \<open>r\<close>; each step needs the present bit and masks the frame out of the entry.
\<close>

fun tbl :: "(u64 \<Rightarrow> u8) \<Rightarrow> u64 \<Rightarrow> u64 \<Rightarrow> nat list \<Rightarrow> u64 option" where
  "tbl m h r [] = Some r"
| "tbl m h r (i # p) =
     (case tbl m h r p of
        None \<Rightarrow> None
      | Some t \<Rightarrow>
          (let e = entry_at m h t i in if present e then Some (e AND entry_mask) else None))"

definition page_index :: "nat \<Rightarrow> u64 \<Rightarrow> nat" where
  "page_index sh va = unat (drop_bit sh va AND 0x1FF)"

definition va_path :: "u64 \<Rightarrow> nat list" where
  "va_path va = [page_index 12 va, page_index 21 va, page_index 30 va, page_index 39 va]"

definition walk :: "'a machine_scheme \<Rightarrow> u64 \<Rightarrow> u64 option" where
  "walk st va =
     map_option (\<lambda>f. f + (va AND 0xFFF))
       (tbl (mem st) (hhdm_offset st) (cr3 st AND entry_mask) (va_path va))"

definition resolve :: "'a machine_scheme \<Rightarrow> u64 \<Rightarrow> u64 option" where
  "resolve st a =
     (if khalf a then Some a
      else if a < 0x800000000000 then map_option (\<lambda>p. p + hhdm_offset st) (walk st a)
      else None)"

section \<open>Loads and stores\<close>

definition ld8 :: "'a machine_scheme \<Rightarrow> u64 \<Rightarrow> u8 option" where
  "ld8 st a = map_option (mem st) (resolve st a)"

definition st8 :: "'a machine_scheme \<Rightarrow> u64 \<Rightarrow> u8 \<Rightarrow> 'a machine_scheme option" where
  "st8 st a v = map_option (\<lambda>p. st\<lparr>mem := (mem st)(p := v)\<rparr>) (resolve st a)"

fun ldn :: "nat \<Rightarrow> 'a machine_scheme \<Rightarrow> u64 \<Rightarrow> 'w::len word option" where
  "ldn 0 st a = Some 0"
| "ldn (Suc n) st a =
     do {
       b \<leftarrow> ld8 st a;
       w \<leftarrow> ldn n st (a + 1);
       Some (ucast b OR push_bit 8 w)
     }"

fun stn :: "nat \<Rightarrow> 'a machine_scheme \<Rightarrow> u64 \<Rightarrow> 'w::len word \<Rightarrow> 'a machine_scheme option" where
  "stn 0 st a v = Some st"
| "stn (Suc n) st a v =
     do {
       st \<leftarrow> st8 st a (ucast v);
       stn n st (a + 1) (drop_bit 8 v)
     }"

definition ld32 :: "'a machine_scheme \<Rightarrow> u64 \<Rightarrow> u32 option" where
  "ld32 st a = ldn 4 st a"

definition ld64 :: "'a machine_scheme \<Rightarrow> u64 \<Rightarrow> u64 option" where
  "ld64 st a = ldn 8 st a"

definition st32 :: "'a machine_scheme \<Rightarrow> u64 \<Rightarrow> u32 \<Rightarrow> 'a machine_scheme option" where
  "st32 st a v = stn 4 st a v"

definition st64 :: "'a machine_scheme \<Rightarrow> u64 \<Rightarrow> u64 \<Rightarrow> 'a machine_scheme option" where
  "st64 st a v = stn 8 st a v"

text \<open>Port input and output, kernel/include/arch/x86_64/io.h.\<close>

definition outb :: "u16 \<Rightarrow> u8 \<Rightarrow> 'a machine_scheme \<Rightarrow> 'a machine_scheme" where
  "outb port val st = st\<lparr>outlog := outlog st @ [(port, val)]\<rparr>"

definition inb :: "u16 \<Rightarrow> 'a machine_scheme \<Rightarrow> u8 \<times> 'a machine_scheme" where
  "inb port st =
     (inputs st port (in_pos st port),
      st\<lparr>in_pos := (in_pos st)(port := Suc (in_pos st port))\<rparr>)"

definition io_wait :: "'a machine_scheme \<Rightarrow> 'a machine_scheme" where
  "io_wait st = outb 0x80 0 st"

section \<open>Ranges in the kernel half\<close>

text \<open>\<open>kregion p n\<close>: the \<open>n\<close> bytes from \<open>p\<close> lie in the upper half and do not wrap.\<close>

definition kregion :: "u64 \<Rightarrow> nat \<Rightarrow> bool" where
  "kregion p n \<longleftrightarrow> n = 0 \<or> khalf p \<and> unat p + n \<le> 2 ^ 64"

lemma kregion_mono: "kregion p n \<Longrightarrow> k \<le> n \<Longrightarrow> kregion p k"
  by (auto simp: kregion_def)

lemma khalf_unat: "khalf a \<longleftrightarrow> 0xFFFF800000000000 \<le> unat a"
  by (simp add: khalf_def word_le_nat_alt)

lemma kregion_unat_add:
  assumes "kregion p n" and "i < n"
  shows "unat (p + of_nat i) = unat p + i"
proof -
  have "i < 2 ^ 64" using assms by (auto simp: kregion_def)
  then have "unat (of_nat i :: u64) = i" by (rule unat_of_nat64)
  with assms show ?thesis by (simp add: kregion_def unat_word_ariths)
qed

lemma kregion_offset:
  assumes "kregion p n" and "i \<le> n"
  shows "kregion (p + of_nat i) (n - i)"
proof (cases "i = n")
  case False
  with assms have "i < n" by simp
  with kregion_unat_add [OF assms(1) this] assms show ?thesis
    by (auto simp: kregion_def khalf_unat)
qed (simp add: kregion_def)

lemma kregion_within: "kregion p n \<Longrightarrow> within a p n \<Longrightarrow> khalf a"
  by (erule withinE, drule kregion_offset [OF _ less_imp_le], assumption) (simp add: kregion_def)

lemma kregion_khalf [simp]: "kregion p (Suc n) \<Longrightarrow> khalf p"
  by (simp add: kregion_def)

lemma kregion_Suc: "kregion p (Suc n) \<Longrightarrow> kregion (p + 1) n"
  using kregion_offset [of p "Suc n" 1] by simp

lemma ld8_kernel: "khalf a \<Longrightarrow> ld8 st a = Some (mem st a)"
  by (simp add: ld8_def resolve_def)

lemma st8_kernel: "khalf a \<Longrightarrow> st8 st a v = Some (st\<lparr>mem := (mem st)(a := v)\<rparr>)"
  by (simp add: st8_def resolve_def)

lemma ldn_kernel: "kregion a n \<Longrightarrow> ldn n st a = Some (ldw n (mem st) a)"
proof (induction n arbitrary: a)
  case (Suc n)
  then show ?case by (simp add: ld8_kernel kregion_Suc)
qed simp

lemma stn_kernel: "kregion a n \<Longrightarrow> stn n st a v = Some (st\<lparr>mem := stw n (mem st) a v\<rparr>)"
proof (induction n arbitrary: a v st)
  case (Suc n)
  then show ?case by (simp add: st8_kernel kregion_Suc)
qed simp

lemma ld32_kernel: "kregion a 4 \<Longrightarrow> ld32 st a = Some (ldw 4 (mem st) a)"
  and ld64_kernel: "kregion a 8 \<Longrightarrow> ld64 st a = Some (ldw 8 (mem st) a)"
  and st32_kernel: "kregion a 4 \<Longrightarrow> st32 st a w = Some (st\<lparr>mem := stw 4 (mem st) a w\<rparr>)"
  and st64_kernel: "kregion a 8 \<Longrightarrow> st64 st a v = Some (st\<lparr>mem := stw 8 (mem st) a v\<rparr>)"
  by (simp_all only: ld32_def ld64_def st32_def st64_def ldn_kernel stn_kernel)

lemmas kernel_mem = ld8_kernel st8_kernel ld32_kernel ld64_kernel st32_kernel st64_kernel

lemma outb_frame [frame_simps, simp]:
  "mem (outb p v st) = mem st" "cr3 (outb p v st) = cr3 st"
  "hhdm_offset (outb p v st) = hhdm_offset st" "outlog (outb p v st) = outlog st @ [(p, v)]"
  "inputs (outb p v st) = inputs st" "in_pos (outb p v st) = in_pos st"
  by (simp_all add: outb_def)

text \<open>A machine for concrete examples: zeroed memory, and devices that always answer 0xFF.\<close>

definition demo_machine :: machine where
  "demo_machine = \<lparr>mem = (\<lambda>_. 0), cr3 = 0, hhdm_offset = 0xFFFF800000000000, outlog = [],
     inputs = (\<lambda>_ _. 0xFF), in_pos = (\<lambda>_. 0)\<rparr>"

lemma demo_machine_simps [simp]:
  "mem demo_machine = (\<lambda>_. 0)" "hhdm_offset demo_machine = 0xFFFF800000000000"
  "outlog demo_machine = []" "inputs demo_machine = (\<lambda>_ _. 0xFF)"
  "in_pos demo_machine = (\<lambda>_. 0)"
  by (simp_all add: demo_machine_def)

end
