(* ===== verification/Interfaces.thy ===== *)
theory Interfaces
  imports Prelude
begin

text \<open>
  The contracts between components, as locales over the operations a client calls. What a
  client may conclude is proved here once; the component that provides the operations
  interprets the locale on its own definitions.
\<close>

section \<open>Allocators of 4 KiB blocks\<close>

text \<open>
  \<open>free s\<close> is the set of block numbers that may be handed out. An allocator returns the
  address of the lowest one and removes it, or 0 when there is none.
\<close>

locale block_allocator =
  fixes alloc :: "'s \<Rightarrow> (u64 \<times> 's) option"
    and free :: "'s \<Rightarrow> nat set"
    and wf :: "'s \<Rightarrow> bool"
  assumes free_finite: "wf s \<Longrightarrow> finite (free s)"
    and free_bound: "wf s \<Longrightarrow> i \<in> free s \<Longrightarrow> i < 2 ^ 52"
    and alloc_lowest: "wf s \<Longrightarrow> free s \<noteq> {} \<Longrightarrow>
      \<exists>s'. alloc s = Some (of_nat (Min (free s)) * 4096, s') \<and> wf s' \<and>
        free s' = free s - {Min (free s)}"
    and alloc_empty: "wf s \<Longrightarrow> free s = {} \<Longrightarrow>
      \<exists>s'. alloc s = Some (0, s') \<and> wf s' \<and> free s' = {}"

text \<open>\<open>n\<close> allocations in a row, the shape of every loop that backs a range with frames.\<close>

fun alloc_many :: "('s \<Rightarrow> (u64 \<times> 's) option) \<Rightarrow> nat \<Rightarrow> 's \<Rightarrow> (u64 list \<times> 's) option" where
  "alloc_many alloc 0 s = Some ([], s)"
| "alloc_many alloc (Suc n) s =
     do {
       (a, s) \<leftarrow> alloc s;
       (as, s) \<leftarrow> alloc_many alloc n s;
       Some (a # as, s)
     }"

definition block_addr :: "nat \<Rightarrow> u64" where
  "block_addr i = of_nat i * 4096"

lemma unat_block_addr: "i < 2 ^ 52 \<Longrightarrow> unat (block_addr i) = 4096 * i"
proof -
  assume i: "i < 2 ^ 52"
  then have "unat (of_nat (4096 * i) :: u64) = 4096 * i" by (intro unat_of_nat64) simp
  then show ?thesis by (simp add: block_addr_def mult.commute)
qed

lemma block_addr_inj: "i < 2 ^ 52 \<Longrightarrow> j < 2 ^ 52 \<Longrightarrow> block_addr i = block_addr j \<longleftrightarrow> i = j"
  by (metis unat_block_addr mult_left_cancel zero_neq_numeral)

lemma Min_rest_upt:
  fixes A :: "nat set"
  assumes "finite A" and "A \<noteq> {}"
  shows "sorted_list_of_set A = Min A # sorted_list_of_set (A - {Min A})"
  using assms sorted_list_of_set_nonempty by blast

context block_allocator
begin

lemma alloc_total: "wf s \<Longrightarrow> \<exists>a s'. alloc s = Some (a, s') \<and> wf s' \<and> free s' \<subseteq> free s"
  using alloc_lowest [of s] alloc_empty [of s] by blast

text \<open>
  With enough free blocks, \<open>n\<close> allocations return the \<open>n\<close> lowest free blocks in order, so
  no two of them are the same frame.
\<close>

lemma alloc_many_lowest:
  "wf s \<Longrightarrow> n \<le> card (free s) \<Longrightarrow>
     \<exists>s'. alloc_many alloc n s =
         Some (map block_addr (take n (sorted_list_of_set (free s))), s') \<and> wf s' \<and>
       free s' = free s - set (take n (sorted_list_of_set (free s)))"
proof (induction n arbitrary: s)
  case (Suc n)
  have fin: "finite (free s)" using Suc.prems(1) by (rule free_finite)
  have ne: "free s \<noteq> {}" using Suc.prems(2) by auto
  obtain s1 where 1: "alloc s = Some (of_nat (Min (free s)) * 4096, s1)" "wf s1"
      "free s1 = free s - {Min (free s)}"
    using alloc_lowest [OF Suc.prems(1) ne] by blast
  have "n \<le> card (free s1)" using 1(3) Suc.prems(2) fin ne by simp
  then obtain s2 where 2: "alloc_many alloc n s1 =
        Some (map block_addr (take n (sorted_list_of_set (free s1))), s2)" "wf s2"
      "free s2 = free s1 - set (take n (sorted_list_of_set (free s1)))"
    using Suc.IH [OF 1(2)] by blast
  then show ?case
    using 1 Min_rest_upt [OF fin ne] by (auto simp: block_addr_def)
qed simp

lemma alloc_many_distinct:
  assumes "wf s" and "n \<le> card (free s)"
  shows "\<exists>as s'. alloc_many alloc n s = Some (as, s') \<and> length as = n \<and> distinct as \<and>
    set as \<subseteq> block_addr ` free s \<and> wf s' \<and> card (free s') = card (free s) - n"
proof -
  let ?l = "sorted_list_of_set (free s)"
  have fin: "finite (free s)" using assms(1) by (rule free_finite)
  have len: "length ?l = card (free s)" using fin by simp
  have sub: "set (take n ?l) \<subseteq> free s" using fin set_take_subset [of n ?l] by simp
  have inj: "inj_on block_addr (free s)"
    using free_bound [OF assms(1)] by (auto intro!: inj_onI simp: block_addr_inj)
  have dist: "distinct (map block_addr (take n ?l))"
    using inj_on_subset [OF inj sub] by (simp add: distinct_map)
  have "card (free s - set (take n ?l)) = card (free s) - n"
    using sub fin len assms(2) by (simp add: card_Diff_subset distinct_card)
  then show ?thesis
    using alloc_many_lowest [OF assms] dist len assms(2) sub by fastforce
qed

end

section \<open>Heaps\<close>

text \<open>
  \<open>owned s\<close> holds the blocks that are handed out, with their usable lengths. Blocks of
  different addresses do not overlap; an operation leaves the contents of the blocks it does
  not release alone. \<open>limit\<close> bounds the sizes for which the allocator keeps its promise.
\<close>

locale heap_allocator =
  fixes malloc :: "u64 \<Rightarrow> 's \<Rightarrow> (u64 \<times> 's) option"
    and release :: "u64 \<Rightarrow> 's \<Rightarrow> 's option"
    and wf :: "'s \<Rightarrow> bool"
    and owned :: "'s \<Rightarrow> (u64 \<times> nat) set"
    and byte_at :: "'s \<Rightarrow> u64 \<Rightarrow> u8"
    and limit :: nat
  assumes owned_disjoint: "wf s \<Longrightarrow> (p, j) \<in> owned s \<Longrightarrow> (q, k) \<in> owned s \<Longrightarrow> p \<noteq> q \<Longrightarrow>
      within x p j \<Longrightarrow> \<not> within x q k"
    and malloc_law: "wf s \<Longrightarrow> unat n < limit \<Longrightarrow> \<exists>p s'. malloc n s = Some (p, s') \<and> wf s' \<and>
      (\<forall>q k x. (q, k) \<in> owned s \<longrightarrow> within x q k \<longrightarrow> byte_at s' x = byte_at s x) \<and>
      (if p = 0 then owned s' = owned s
       else p \<notin> fst ` owned s \<and> (\<exists>k\<ge>unat n. owned s' = insert (p, k) (owned s)))"
    and release_law: "wf s \<Longrightarrow> (p, j) \<in> owned s \<Longrightarrow> \<exists>s'. release p s = Some s' \<and> wf s' \<and>
      owned s' = owned s - {(p, j)} \<and>
      (\<forall>q k x. (q, k) \<in> owned s' \<longrightarrow> within x q k \<longrightarrow> byte_at s' x = byte_at s x)"

text \<open>Sequences of heap operations that release only owned blocks, and never the block \<open>p\<close>.\<close>

datatype heap_op = Malloc u64 | Release u64

fun run_ops :: "(u64 \<Rightarrow> 's \<Rightarrow> (u64 \<times> 's) option) \<Rightarrow> (u64 \<Rightarrow> 's \<Rightarrow> 's option) \<Rightarrow>
    heap_op list \<Rightarrow> 's \<Rightarrow> 's option" where
  "run_ops malloc release [] s = Some s"
| "run_ops malloc release (Malloc n # ops) s =
     do { (_, s) \<leftarrow> malloc n s; run_ops malloc release ops s }"
| "run_ops malloc release (Release q # ops) s =
     do { s \<leftarrow> release q s; run_ops malloc release ops s }"

fun spares :: "(u64 \<Rightarrow> 's \<Rightarrow> (u64 \<times> 's) option) \<Rightarrow> (u64 \<Rightarrow> 's \<Rightarrow> 's option) \<Rightarrow>
    ('s \<Rightarrow> (u64 \<times> nat) set) \<Rightarrow> nat \<Rightarrow> u64 \<Rightarrow> heap_op list \<Rightarrow> 's \<Rightarrow> bool" where
  "spares malloc release owned limit p [] s \<longleftrightarrow> True"
| "spares malloc release owned limit p (Malloc n # ops) s \<longleftrightarrow> unat n < limit \<and>
     (case malloc n s of None \<Rightarrow> True | Some (_, s') \<Rightarrow> spares malloc release owned limit p ops s')"
| "spares malloc release owned limit p (Release q # ops) s \<longleftrightarrow> q \<noteq> p \<and> q \<in> fst ` owned s \<and>
     (case release q s of None \<Rightarrow> True | Some s' \<Rightarrow> spares malloc release owned limit p ops s')"

context heap_allocator
begin

lemma malloc_keeps:
  assumes "wf s" and "unat n < limit" and "(p, k) \<in> owned s"
  shows "\<exists>a s'. malloc n s = Some (a, s') \<and> wf s' \<and> (p, k) \<in> owned s' \<and>
    (\<forall>x. within x p k \<longrightarrow> byte_at s' x = byte_at s x)"
  using malloc_law [OF assms(1,2)] assms(3) by (fastforce split: if_splits)

lemma release_keeps:
  assumes "wf s" and "q \<in> fst ` owned s" and "q \<noteq> p" and "(p, k) \<in> owned s"
  shows "\<exists>s'. release q s = Some s' \<and> wf s' \<and> (p, k) \<in> owned s' \<and>
    (\<forall>x. within x p k \<longrightarrow> byte_at s' x = byte_at s x)"
proof -
  obtain j where "(q, j) \<in> owned s" using assms(2) by auto
  from release_law [OF assms(1) this] show ?thesis using assms(3,4) by fastforce
qed

text \<open>A block survives, with its contents, whatever sequence of operations spares it.\<close>

lemma run_ops_keeps:
  "wf s \<Longrightarrow> (p, k) \<in> owned s \<Longrightarrow> spares malloc release owned limit p ops s \<Longrightarrow>
     \<exists>s'. run_ops malloc release ops s = Some s' \<and> wf s' \<and> (p, k) \<in> owned s' \<and>
       (\<forall>x. within x p k \<longrightarrow> byte_at s' x = byte_at s x)"
proof (induction ops arbitrary: s)
  case (Cons op ops)
  show ?case
  proof (cases op)
    case (Malloc n)
    obtain a s1 where "malloc n s = Some (a, s1)" "wf s1" "(p, k) \<in> owned s1"
        "\<forall>x. within x p k \<longrightarrow> byte_at s1 x = byte_at s x"
      using malloc_keeps [OF Cons.prems(1) _ Cons.prems(2), of n] Cons.prems(3) Malloc by auto
    then show ?thesis using Cons.IH [of s1] Cons.prems(3) Malloc by auto
  next
    case (Release q)
    obtain s1 where "release q s = Some s1" "wf s1" "(p, k) \<in> owned s1"
        "\<forall>x. within x p k \<longrightarrow> byte_at s1 x = byte_at s x"
      using release_keeps [OF Cons.prems(1) _ _ Cons.prems(2), of q] Cons.prems(3) Release by auto
    then show ?thesis using Cons.IH [of s1] Cons.prems(3) Release by auto
  qed
qed auto

text \<open>Two blocks obtained one after the other never overlap.\<close>

lemma two_blocks_apart:
  assumes "wf s" and "unat n < limit" and "unat n' < limit"
    and "malloc n s = Some (p, s1)" and "malloc n' s1 = Some (q, s2)" and "p \<noteq> 0" and "q \<noteq> 0"
  shows "within x p (unat n) \<Longrightarrow> \<not> within x q (unat n')"
proof -
  assume x: "within x p (unat n)"
  obtain j where 1: "wf s1" "unat n \<le> j" "owned s1 = insert (p, j) (owned s)"
    using malloc_law [OF assms(1,2)] assms(4,6) by auto
  obtain k where 2: "wf s2" "unat n' \<le> k" "owned s2 = insert (q, k) (owned s1)" "q \<notin> fst ` owned s1"
    using malloc_law [OF 1(1) assms(3)] assms(5,7) by auto
  have "\<not> within x q k"
    using owned_disjoint [OF 2(1), of p j q k x] 1 2 within_mono [OF x 1(2)] by force
  then show "\<not> within x q (unat n')" using within_mono 2(2) by blast
qed

end

section \<open>Bounded queues\<close>

text \<open>
  \<open>contents s\<close> is what the queue holds, oldest first. A push into a full queue is dropped; a
  pop needs an element.
\<close>

locale bounded_queue =
  fixes push :: "'c \<Rightarrow> 's \<Rightarrow> 's"
    and pop :: "'s \<Rightarrow> 'c \<times> 's"
    and contents :: "'s \<Rightarrow> 'c list"
    and cap :: nat
  assumes bounded: "length (contents s) \<le> cap"
    and push_room: "length (contents s) < cap \<Longrightarrow> contents (push c s) = contents s @ [c]"
    and push_full: "length (contents s) = cap \<Longrightarrow> contents (push c s) = contents s"
    and pop_law: "contents s = c # cs \<Longrightarrow> \<exists>s'. pop s = (c, s') \<and> contents s' = cs"

fun pop_many :: "('s \<Rightarrow> 'c \<times> 's) \<Rightarrow> nat \<Rightarrow> 's \<Rightarrow> 'c list \<times> 's" where
  "pop_many pop 0 s = ([], s)"
| "pop_many pop (Suc n) s =
     (let (c, s) = pop s; (cs, s) = pop_many pop n s in (c # cs, s))"

context bounded_queue
begin

text \<open>Pushing a list keeps its longest prefix that fits.\<close>

lemma push_all: "contents (fold push cs s) = contents s @ take (cap - length (contents s)) cs"
proof (induction cs arbitrary: s)
  case (Cons c cs)
  show ?case
  proof (cases "length (contents s) < cap")
    case True
    then have "cap - length (contents s) = Suc (cap - length (contents (push c s)))"
      by (simp add: push_room)
    then show ?thesis using Cons True by (simp add: push_room)
  next
    case False
    then have "length (contents s) = cap" using bounded [of s] by simp
    then show ?thesis using Cons by (simp add: push_full)
  qed
qed simp

text \<open>What is popped is what was pushed first.\<close>

lemma pop_all:
  "n \<le> length (contents s) \<Longrightarrow>
     fst (pop_many pop n s) = take n (contents s) \<and>
     contents (snd (pop_many pop n s)) = drop n (contents s)"
proof (induction n arbitrary: s)
  case (Suc n)
  then obtain c cs where cs: "contents s = c # cs" by (cases "contents s") auto
  then obtain s' where "pop s = (c, s')" "contents s' = cs" using pop_law by blast
  then show ?case using Suc.IH [of s'] Suc.prems cs by (simp add: split_beta Let_def)
qed simp

lemma fifo:
  assumes "contents s = []" and "length cs \<le> cap"
  shows "fst (pop_many pop (length cs) (fold push cs s)) = cs"
  using pop_all [of "length cs" "fold push cs s"] push_all [of cs s] assms by simp

end

end
