(* ===== verification/LibString.thy ===== *)
theory LibString
  imports Machine "HOL-Library.List_Lexorder"
begin

text \<open>
  libc/string: one definition per function, on the machine's memory. A counted loop runs over
  the number of bytes still to do; the loops that stop at a NUL byte (\<open>strlen\<close>, \<open>strcmp\<close>,
  \<open>strcpy\<close>) may read forever and are \<open>partial_function\<close>s, where \<open>None\<close> is a fault or a
  loop that does not end. The lemmas give each function's effect on the whole memory as a
  closed form.
\<close>

unbundle bit_operations_syntax

section \<open>The functions\<close>

subsection \<open>memset.c, memcpy.c, memmove.c\<close>

fun memset_loop :: "nat \<Rightarrow> u64 \<Rightarrow> u64 \<Rightarrow> u8 \<Rightarrow> 'a machine_scheme \<Rightarrow> 'a machine_scheme option" where
  "memset_loop 0 buf i v st = Some st"
| "memset_loop (Suc n) buf i v st =
     do {
       st \<leftarrow> st8 st (buf + i) v;
       memset_loop n buf (i + 1) v st
     }"

definition memset ::
  "u64 \<Rightarrow> u32 \<Rightarrow> u64 \<Rightarrow> 'a machine_scheme \<Rightarrow> (u64 \<times> 'a machine_scheme) option" where
  "memset bufptr value count st =
     do {
       st \<leftarrow> memset_loop (unat count) bufptr 0 (ucast value) st;
       Some (bufptr, st)
     }"

fun memcpy_loop :: "nat \<Rightarrow> u64 \<Rightarrow> u64 \<Rightarrow> u64 \<Rightarrow> 'a machine_scheme \<Rightarrow> 'a machine_scheme option" where
  "memcpy_loop 0 dst src i st = Some st"
| "memcpy_loop (Suc n) dst src i st =
     do {
       b \<leftarrow> ld8 st (src + i);
       st \<leftarrow> st8 st (dst + i) b;
       memcpy_loop n dst src (i + 1) st
     }"

definition memcpy ::
  "u64 \<Rightarrow> u64 \<Rightarrow> u64 \<Rightarrow> 'a machine_scheme \<Rightarrow> (u64 \<times> 'a machine_scheme) option" where
  "memcpy dstptr srcptr count st =
     do {
       st \<leftarrow> memcpy_loop (unat count) dstptr srcptr 0 st;
       Some (dstptr, st)
     }"

text \<open>\<open>rep movsq\<close>: it leaves both pointers past what it copied.\<close>

fun rep_movsq ::
  "nat \<Rightarrow> u64 \<Rightarrow> u64 \<Rightarrow> 'a machine_scheme \<Rightarrow> (u64 \<times> u64 \<times> 'a machine_scheme) option" where
  "rep_movsq 0 dest src st = Some (dest, src, st)"
| "rep_movsq (Suc n) dest src st =
     do {
       q \<leftarrow> ld64 st src;
       st \<leftarrow> st64 st dest q;
       rep_movsq n (dest + 8) (src + 8) st
     }"

definition fast_memcpy ::
  "u64 \<Rightarrow> u64 \<Rightarrow> u64 \<Rightarrow> 'a machine_scheme \<Rightarrow> (u64 \<times> 'a machine_scheme) option" where
  "fast_memcpy dest src count st =
     do {
       let qwords = count div 8;
       let bytes = count mod 8;
       (dest, src, st) \<leftarrow> rep_movsq (unat qwords) dest src st;
       st \<leftarrow> memcpy_loop (unat bytes) dest src 0 st;
       Some (dest, st)
     }"

fun memmove_back :: "nat \<Rightarrow> u64 \<Rightarrow> u64 \<Rightarrow> 'a machine_scheme \<Rightarrow> 'a machine_scheme option" where
  "memmove_back 0 dst src st = Some st"
| "memmove_back (Suc n) dst src st =
     do {
       b \<leftarrow> ld8 st (src + of_nat n);
       st \<leftarrow> st8 st (dst + of_nat n) b;
       memmove_back n dst src st
     }"

definition memmove ::
  "u64 \<Rightarrow> u64 \<Rightarrow> u64 \<Rightarrow> 'a machine_scheme \<Rightarrow> (u64 \<times> 'a machine_scheme) option" where
  "memmove dstptr srcptr count st =
     do {
       st \<leftarrow> (if dstptr < srcptr then memcpy_loop (unat count) dstptr srcptr 0 st
             else memmove_back (unat count) dstptr srcptr st);
       Some (dstptr, st)
     }"

subsection \<open>memcmp.c, strlen.c, strcmp.c, strcpy.c\<close>

fun memcmp_loop :: "nat \<Rightarrow> u64 \<Rightarrow> u64 \<Rightarrow> u64 \<Rightarrow> 'a machine_scheme \<Rightarrow> u32 option" where
  "memcmp_loop 0 a b i st = Some 0"
| "memcmp_loop (Suc n) a b i st =
     do {
       x \<leftarrow> ld8 st (a + i);
       y \<leftarrow> ld8 st (b + i);
       if x < y then Some (- 1)
       else if y < x then Some 1
       else memcmp_loop n a b (i + 1) st
     }"

definition memcmp :: "u64 \<Rightarrow> u64 \<Rightarrow> u64 \<Rightarrow> 'a machine_scheme \<Rightarrow> u32 option" where
  "memcmp aptr bptr count st = memcmp_loop (unat count) aptr bptr 0 st"

partial_function (option) strlen_loop :: "'a machine_scheme \<Rightarrow> u64 \<Rightarrow> u64 \<Rightarrow> u64 option" where
  "strlen_loop st str len =
     do {
       c \<leftarrow> ld8 st (str + len);
       if c \<noteq> 0 then strlen_loop st str (len + 1) else Some len
     }"

definition strlen :: "u64 \<Rightarrow> 'a machine_scheme \<Rightarrow> u64 option" where
  "strlen str st = strlen_loop st str 0"

partial_function (option) strcmp_loop :: "'a machine_scheme \<Rightarrow> u64 \<Rightarrow> u64 \<Rightarrow> u32 option" where
  "strcmp_loop st str1 str2 =
     do {
       c1 \<leftarrow> ld8 st str1;
       c2 \<leftarrow> ld8 st str2;
       if c1 \<noteq> 0 \<and> c1 = c2 then strcmp_loop st (str1 + 1) (str2 + 1)
       else Some (ucast c1 - ucast c2)
     }"

definition strcmp :: "u64 \<Rightarrow> u64 \<Rightarrow> 'a machine_scheme \<Rightarrow> u32 option" where
  "strcmp str1 str2 st = strcmp_loop st str1 str2"

partial_function (option) strcpy_loop ::
  "u64 \<Rightarrow> u64 \<Rightarrow> 'a machine_scheme \<Rightarrow> 'a machine_scheme option" where
  "strcpy_loop dest src st =
     do {
       c \<leftarrow> ld8 st src;
       if c \<noteq> 0 then
         do {
           st \<leftarrow> st8 st dest c;
           strcpy_loop (dest + 1) (src + 1) st
         }
       else Some st
     }"

definition strcpy :: "u64 \<Rightarrow> u64 \<Rightarrow> 'a machine_scheme \<Rightarrow> (u64 \<times> 'a machine_scheme) option" where
  "strcpy dest src st =
     do {
       st \<leftarrow> strcpy_loop dest src st;
       Some (dest, st)
     }"

section \<open>Closed forms of the block operations\<close>

definition filled :: "(u64 \<Rightarrow> u8) \<Rightarrow> u64 \<Rightarrow> nat \<Rightarrow> u8 \<Rightarrow> (u64 \<Rightarrow> u8)" where
  "filled m p n v = (\<lambda>a. if within a p n then v else m a)"

definition copied :: "(u64 \<Rightarrow> u8) \<Rightarrow> u64 \<Rightarrow> u64 \<Rightarrow> nat \<Rightarrow> (u64 \<Rightarrow> u8)" where
  "copied m dst src n = (\<lambda>a. if within a dst n then m (src + (a - dst)) else m a)"

lemma memset_loop_shift:
  fixes st :: "'a machine_scheme"
  shows "memset_loop n buf i v st = memset_loop n (buf + i) 0 v st"
proof (induction n arbitrary: buf i st)
  case (Suc n)
  have "memset_loop n buf (i + 1) v =
      (memset_loop n (buf + i) 1 v :: 'a machine_scheme \<Rightarrow> _)"
  proof (rule ext)
    fix st :: "'a machine_scheme"
    show "memset_loop n buf (i + 1) v st = memset_loop n (buf + i) 1 v st"
      using Suc.IH [of buf "i + 1" st] Suc.IH [of "buf + i" 1 st] by (simp add: add.assoc)
  qed
  then show ?case by simp
qed simp

lemma filled_Suc: "filled (m(p := v)) (p + 1) n v = filled m p (Suc n) v"
  by (rule ext) (auto simp: filled_def within_Suc)

lemma memset_loop_kernel:
  "kregion p n \<Longrightarrow> memset_loop n p 0 v st = Some (st\<lparr>mem := filled (mem st) p n v\<rparr>)"
proof (induction n arbitrary: p st)
  case 0
  then show ?case by (simp add: filled_def)
next
  case (Suc n)
  then show ?case
    by (simp add: st8_kernel kregion_Suc memset_loop_shift [of n p 1] flip: filled_Suc)
      (simp add: fun_upd_def)
qed

lemma memset_kernel:
  "kregion p (unat n) \<Longrightarrow>
     memset p v n st = Some (p, st\<lparr>mem := filled (mem st) p (unat n) (ucast v)\<rparr>)"
  by (simp add: memset_def memset_loop_kernel)

lemma memcpy_loop_shift:
  fixes st :: "'a machine_scheme"
  shows "memcpy_loop n dst src i st = memcpy_loop n (dst + i) (src + i) 0 st"
proof (induction n arbitrary: dst src i st)
  case (Suc n)
  have "memcpy_loop n dst src (i + 1) =
      (memcpy_loop n (dst + i) (src + i) 1 :: 'a machine_scheme \<Rightarrow> _)"
  proof (rule ext)
    fix st :: "'a machine_scheme"
    show "memcpy_loop n dst src (i + 1) st = memcpy_loop n (dst + i) (src + i) 1 st"
      using Suc.IH [of dst src "i + 1" st] Suc.IH [of "dst + i" "src + i" 1 st]
      by (simp add: add.assoc)
  qed
  then show ?case by simp
qed simp

text \<open>
  A forward byte copy reads every source byte before it is overwritten when the target starts
  at or below the source, or behind its end.
\<close>

definition forward_safe :: "u64 \<Rightarrow> u64 \<Rightarrow> nat \<Rightarrow> bool" where
  "forward_safe dst src n \<longleftrightarrow> dst \<le> src \<or> unat src + n \<le> unat dst"

lemma forward_safe_Suc:
  assumes "forward_safe dst src (Suc n)" and "kregion dst (Suc n)" and "kregion src (Suc n)"
    and "0 < n"
  shows "forward_safe (dst + 1) (src + 1) n"
proof -
  have "unat (dst + 1) = Suc (unat dst)" "unat (src + 1) = Suc (unat src)"
    using assms kregion_unat_add [of dst "Suc n" 1] kregion_unat_add [of src "Suc n" 1] by auto
  then show ?thesis using assms(1) by (auto simp: forward_safe_def word_le_nat_alt)
qed

lemma copied_Suc:
  assumes "forward_safe dst src (Suc n)" and "kregion dst (Suc n)" and "kregion src (Suc n)"
  shows "copied (m(dst := m src)) (dst + 1) (src + 1) n = copied m dst src (Suc n)"
proof (rule ext)
  fix a
  have "src + (a - dst) \<noteq> dst" if within: "within a (dst + 1) n"
  proof -
    from within obtain i where i: "i < n" "a = dst + 1 + of_nat i" by (rule withinE)
    have "unat (src + of_nat (Suc i)) = unat src + Suc i"
      using i assms(3) by (intro kregion_unat_add) auto
    then show ?thesis using i assms(1) by (auto simp: forward_safe_def word_le_nat_alt)
  qed
  moreover have "src + 1 + (a - (dst + 1)) = src + (a - dst)" by simp
  ultimately show "copied (m(dst := m src)) (dst + 1) (src + 1) n a = copied m dst src (Suc n) a"
    by (auto simp: copied_def within_Suc simp del: fun_upd_apply simp: fun_upd_apply)
qed

lemma memcpy_loop_kernel:
  "kregion dst n \<Longrightarrow> kregion src n \<Longrightarrow> forward_safe dst src n \<Longrightarrow>
     memcpy_loop n dst src 0 st = Some (st\<lparr>mem := copied (mem st) dst src n\<rparr>)"
proof (induction n arbitrary: dst src st)
  case 0
  then show ?case by (simp add: copied_def)
next
  case (Suc n)
  have "memcpy_loop n (dst + 1) (src + 1) 0 (st\<lparr>mem := (mem st)(dst := mem st src)\<rparr>) =
      Some (st\<lparr>mem := copied ((mem st)(dst := mem st src)) (dst + 1) (src + 1) n\<rparr>)"
  proof (cases "n = 0")
    case True
    then show ?thesis by (simp add: copied_def fun_upd_def)
  next
    case False
    then show ?thesis
      using Suc.IH [of "dst + 1" "src + 1" "st\<lparr>mem := (mem st)(dst := mem st src)\<rparr>"] Suc.prems
      by (simp add: kregion_Suc forward_safe_Suc fun_upd_def)
  qed
  then show ?case
    using Suc.prems
    by (simp add: ld8_kernel st8_kernel memcpy_loop_shift [of n dst src 1] copied_Suc)
qed

lemma memcpy_kernel:
  "kregion dst (unat n) \<Longrightarrow> kregion src (unat n) \<Longrightarrow> forward_safe dst src (unat n) \<Longrightarrow>
     memcpy dst src n st = Some (dst, st\<lparr>mem := copied (mem st) dst src (unat n)\<rparr>)"
  by (simp add: memcpy_def memcpy_loop_kernel)

lemma copied_append:
  assumes safe: "forward_safe dst src (a + b)"
    and dst: "kregion dst (a + b)" and src: "kregion src (a + b)"
  shows "copied (copied m dst src a) (dst + of_nat a) (src + of_nat a) b = copied m dst src (a + b)"
proof (rule ext)
  fix x
  have bound: "a + b \<le> 2 ^ 64" using dst by (auto simp: kregion_def)
  have "\<not> within (src + (x - dst)) dst a" if x: "within x (dst + of_nat a) b"
  proof -
    from x obtain i where i: "i < b" "x = dst + of_nat a + of_nat i" by (rule withinE)
    have us: "unat (src + of_nat (a + i)) = unat src + (a + i)"
      using i src by (intro kregion_unat_add) auto
    have "unat (src + of_nat (a + i)) \<noteq> unat dst + j" if "j < a" for j
      using safe that i us by (auto simp: forward_safe_def word_le_nat_alt)
    then have "src + of_nat (a + i) \<noteq> dst + of_nat j" if "j < a" for j
      using that dst by (metis kregion_unat_add trans_less_add1)
    then show ?thesis using i by (auto elim!: withinE simp: add.assoc)
  qed
  then show "copied (copied m dst src a) (dst + of_nat a) (src + of_nat a) b x =
      copied m dst src (a + b) x"
    by (auto simp: copied_def within_add [OF bound])
qed

lemma memmove_back_kernel:
  "kregion dst n \<Longrightarrow> kregion src n \<Longrightarrow> src \<le> dst \<Longrightarrow>
     memmove_back n dst src st = Some (st\<lparr>mem := copied (mem st) dst src n\<rparr>)"
proof (induction n arbitrary: st)
  case 0
  then show ?case by (simp add: copied_def)
next
  case (Suc n)
  let ?m = "(mem st)(dst + of_nat n := mem st (src + of_nat n))"
  have half: "khalf (src + of_nat n)" "khalf (dst + of_nat n)"
    using kregion_offset [of src "Suc n" n] kregion_offset [of dst "Suc n" n] Suc.prems
    by (simp_all add: kregion_def)
  have "copied ?m dst src n = copied (mem st) dst src (Suc n)"
  proof (rule ext)
    fix a
    have bound: "n + 1 \<le> 2 ^ 64" using Suc.prems by (auto simp: kregion_def)
    have "src + (a - dst) \<noteq> dst + of_nat n" if within: "within a dst n"
    proof -
      from within obtain i where i: "i < n" "a = dst + of_nat i" by (rule withinE)
      have "unat (src + of_nat i) = unat src + i" "unat (dst + of_nat n) = unat dst + n"
        using i Suc.prems by (auto intro: kregion_unat_add)
      then show ?thesis using i Suc.prems(3) by (auto simp: word_le_nat_alt)
    qed
    moreover have "\<not> within (dst + of_nat n) dst n"
      using bound by simp
    ultimately show "copied ?m dst src n a = copied (mem st) dst src (Suc n) a"
      using within_add [OF bound, of a dst]
      by (auto simp: copied_def within_Suc [of _ _ 0])
  qed
  then show ?case
    using Suc half by (simp add: ld8_kernel st8_kernel kregion_mono fun_upd_def)
qed

text \<open>\<open>memmove\<close> copies right whatever the overlap, as its two directions are for.\<close>

lemma memmove_kernel:
  "kregion dst (unat n) \<Longrightarrow> kregion src (unat n) \<Longrightarrow>
     memmove dst src n st = Some (dst, st\<lparr>mem := copied (mem st) dst src (unat n)\<rparr>)"
  by (cases "dst < src")
    (simp_all add: memmove_def memcpy_loop_kernel memmove_back_kernel forward_safe_def less_imp_le)

lemma stw_ldw_copied:
  "8 * n \<le> LENGTH('w::len) \<Longrightarrow> n \<le> 2 ^ 64 \<Longrightarrow>
     stw n m dst (ldw n m src :: 'w word) = copied m dst src n"
  by (rule ext) (auto simp: stw_eq copied_def within_def byte_ldw)

lemma rep_movsq_kernel:
  assumes "kregion dst (8 * n)" and "kregion src (8 * n)" and "forward_safe dst src (8 * n)"
  shows "rep_movsq n dst src st =
    Some (dst + 8 * of_nat n, src + 8 * of_nat n, st\<lparr>mem := copied (mem st) dst src (8 * n)\<rparr>)"
  using assms
proof (induction n arbitrary: dst src st)
  case 0
  then show ?case by (simp add: copied_def)
next
  case (Suc n)
  let ?st = "st\<lparr>mem := copied (mem st) dst src 8\<rparr>"
  have r: "kregion dst (8 + 8 * n)" "kregion src (8 + 8 * n)" "forward_safe dst src (8 + 8 * n)"
    using Suc.prems by simp_all
  have step: "rep_movsq (Suc n) dst src st = rep_movsq n (dst + 8) (src + 8) ?st"
    using r by (simp add: kernel_mem kregion_mono stw_ldw_copied)
  have "rep_movsq n (dst + 8) (src + 8) ?st = Some (dst + 8 + 8 * of_nat n, src + 8 + 8 * of_nat n,
      ?st\<lparr>mem := copied (mem ?st) (dst + 8) (src + 8) (8 * n)\<rparr>)"
  proof (cases "n = 0")
    case True
    then show ?thesis by (simp add: copied_def)
  next
    case False
    have k: "kregion (dst + 8) (8 * n)" "kregion (src + 8) (8 * n)"
      using kregion_offset [OF r(1), of 8] kregion_offset [OF r(2), of 8] by simp_all
    have "unat (dst + 8) = unat dst + 8" "unat (src + 8) = unat src + 8"
      using kregion_unat_add [OF r(1), of 8] kregion_unat_add [OF r(2), of 8] False by simp_all
    then have "forward_safe (dst + 8) (src + 8) (8 * n)"
      using r(3) by (auto simp: forward_safe_def word_le_nat_alt)
    with k show ?thesis by (rule Suc.IH)
  qed
  then show ?case
    using step copied_append [OF r(3,1,2), of "mem st"] by (simp add: algebra_simps)
qed

text \<open>
  \<open>fast_memcpy\<close> has the effect of \<open>memcpy\<close> but returns the pointer the string instruction
  advanced, not the one it was given.
\<close>

lemma fast_memcpy_kernel:
  assumes "kregion dst (unat n)" and "kregion src (unat n)" and "forward_safe dst src (unat n)"
  shows "fast_memcpy dst src n st =
    Some (dst + 8 * (n div 8), st\<lparr>mem := copied (mem st) dst src (unat n)\<rparr>)"
proof -
  let ?q = "unat (n div 8)" and ?b = "unat (n mod 8)"
  have n: "unat n = 8 * ?q + ?b" by (simp add: unat_div unat_mod)
  have q: "8 * of_nat ?q = 8 * (n div 8)" by simp
  have r: "kregion dst (8 * ?q + ?b)" "kregion src (8 * ?q + ?b)"
      "forward_safe dst src (8 * ?q + ?b)"
    using assms n by simp_all
  have k: "kregion (dst + 8 * (n div 8)) ?b" "kregion (src + 8 * (n div 8)) ?b"
    using kregion_offset [OF r(1), of "8 * ?q"] kregion_offset [OF r(2), of "8 * ?q"] by simp_all
  have mv: "rep_movsq ?q dst src st = Some (dst + 8 * (n div 8), src + 8 * (n div 8),
      st\<lparr>mem := copied (mem st) dst src (8 * ?q)\<rparr>)"
    using rep_movsq_kernel [of dst ?q src st] r
    by (simp add: kregion_mono) (auto simp: forward_safe_def)
  have f: "forward_safe (dst + 8 * (n div 8)) (src + 8 * (n div 8)) ?b \<or> ?b = 0"
  proof (cases "?b = 0")
    case False
    then have "unat (dst + 8 * (n div 8)) = unat dst + 8 * ?q"
      "unat (src + 8 * (n div 8)) = unat src + 8 * ?q"
      using kregion_unat_add [OF r(1), of "8 * ?q"] kregion_unat_add [OF r(2), of "8 * ?q"]
      by simp_all
    then show ?thesis using r(3) by (auto simp: forward_safe_def word_le_nat_alt)
  qed simp
  show ?thesis
  proof (cases "?b = 0")
    case True
    then show ?thesis using n mv by (simp add: fast_memcpy_def Let_def)
  next
    case False
    with f have "forward_safe (dst + 8 * (n div 8)) (src + 8 * (n div 8)) ?b" by simp
    then show ?thesis
      using n mv k copied_append [OF r(3,1,2), of "mem st"]
      by (simp add: fast_memcpy_def Let_def memcpy_loop_kernel)
  qed
qed

section \<open>Comparisons and strings\<close>

lemma memcmp_loop_shift: "memcmp_loop n a b i st = memcmp_loop n (a + i) (b + i) 0 st"
proof (induction n arbitrary: a b i)
  case (Suc n)
  show ?case
    using Suc.IH [of a b "i + 1"] Suc.IH [of "a + i" "b + i" 1]
    by (simp add: add.assoc cong del: if_weak_cong)
qed simp

lemma memcmp_loop_kernel:
  "kregion a n \<Longrightarrow> kregion b n \<Longrightarrow> memcmp_loop n a b 0 st =
     Some (let xs = bytes (mem st) a n; ys = bytes (mem st) b n in
           if xs = ys then 0 else if xs < ys then - 1 else 1)"
proof (induction n arbitrary: a b)
  case (Suc n)
  then show ?case
    by (auto simp: ld8_kernel memcmp_loop_shift [of n a b 1] kregion_Suc Let_def)
qed simp

lemma memcmp_kernel:
  "kregion a (unat n) \<Longrightarrow> kregion b (unat n) \<Longrightarrow> memcmp a b n st =
     Some (let xs = bytes (mem st) a (unat n); ys = bytes (mem st) b (unat n) in
           if xs = ys then 0 else if xs < ys then - 1 else 1)"
  by (simp add: memcmp_def memcmp_loop_kernel)

lemma strlen_loop_kernel:
  "kregion (str + len) (Suc (length xs)) \<Longrightarrow> cstring (mem st) (str + len) xs \<Longrightarrow>
     strlen_loop st str len = Some (len + of_nat (length xs))"
proof (induction xs arbitrary: len)
  case Nil
  then show ?case by (subst strlen_loop.simps) (simp add: ld8_kernel)
next
  case (Cons x xs)
  then have "strlen_loop st str (len + 1) = Some (len + 1 + of_nat (length xs))"
    using kregion_Suc [OF Cons.prems(1)] by (intro Cons.IH) (simp_all add: add.assoc)
  then show ?case
    using Cons.prems by (subst strlen_loop.simps) (simp add: ld8_kernel)
qed

lemma strlen_kernel:
  "kregion str (Suc (length xs)) \<Longrightarrow> cstring (mem st) str xs \<Longrightarrow>
     strlen str st = Some (of_nat (length xs))"
  using strlen_loop_kernel [of str 0 xs st] by (simp add: strlen_def)

text \<open>The value \<open>strcmp\<close> computes from two strings given as lists.\<close>

fun strcmp_spec :: "u8 list \<Rightarrow> u8 list \<Rightarrow> u32" where
  "strcmp_spec (x # xs) (y # ys) = (if x = y then strcmp_spec xs ys else ucast x - ucast y)"
| "strcmp_spec (x # xs) [] = ucast x"
| "strcmp_spec [] (y # ys) = - ucast y"
| "strcmp_spec [] [] = 0"

lemma strcmp_loop_kernel:
  "kregion a (Suc (length xs)) \<Longrightarrow> kregion b (Suc (length ys)) \<Longrightarrow>
   cstring (mem st) a xs \<Longrightarrow> cstring (mem st) b ys \<Longrightarrow>
     strcmp_loop st a b = Some (strcmp_spec xs ys)"
proof (induction xs ys arbitrary: a b rule: strcmp_spec.induct)
  case (1 x xs y ys)
  have a: "kregion (a + 1) (Suc (length xs))" and b: "kregion (b + 1) (Suc (length ys))"
    using 1 kregion_Suc by force+
  show ?case
    using 1 a b by (subst strcmp_loop.simps) (auto simp: ld8_kernel)
qed (subst strcmp_loop.simps, auto simp: ld8_kernel)+

lemma small_diff:
  "0 \<le> a \<Longrightarrow> a < 256 \<Longrightarrow> 0 \<le> b \<Longrightarrow> b < 256 \<Longrightarrow> signed_take_bit 31 (a - b :: int) = a - b"
  by (rule signed_take_bit_int_eq_self) simp_all

lemma sint_ucast_diff:
  fixes x y :: u8
  shows "sint (ucast x - ucast y :: u32) = uint x - uint y"
proof -
  have x: "0 \<le> uint x" "uint x < 256" and y: "0 \<le> uint y" "uint y < 256"
    using uint_bounded [of x] uint_bounded [of y] by simp_all
  have "(ucast x - ucast y :: u32) = word_of_int (uint x - uint y)"
    by (simp only: ucast_eq of_int_diff)
  also have "sint (word_of_int (uint x - uint y) :: u32) = uint x - uint y"
    using small_diff [OF x y] by (simp add: signed_of_int del: of_int_diff)
  finally show ?thesis .
qed

lemma strcmp_spec_sint:
  "0 \<notin> set xs \<Longrightarrow> 0 \<notin> set ys \<Longrightarrow>
     (strcmp_spec xs ys = 0 \<longleftrightarrow> xs = ys) \<and> (sint (strcmp_spec xs ys) < 0 \<longleftrightarrow> xs < ys)"
proof (induction xs ys rule: strcmp_spec.induct)
  case (1 x xs y ys)
  then show ?case
    using sint_ucast_diff [of x y] signed_eq_0_iff [of "ucast x - ucast y :: u32"]
    by (auto simp: word_less_def dest: unsigned_word_eqI)
next
  case (2 x xs)
  then show ?case using sint_ucast_diff [of x 0] by (auto simp: unsigned_eq_0_iff)
next
  case (3 y ys)
  then show ?case
    using sint_ucast_diff [of 0 y] by (auto simp: unsigned_eq_0_iff order_less_le)
qed simp

lemma strcmp_kernel:
  assumes "kregion a (Suc (length xs))" and "kregion b (Suc (length ys))"
    and "cstring (mem st) a xs" and "cstring (mem st) b ys"
  shows "\<exists>r. strcmp a b st = Some r \<and> (r = 0 \<longleftrightarrow> xs = ys) \<and> (sint r < 0 \<longleftrightarrow> xs < ys)"
  using strcmp_loop_kernel [OF assms] strcmp_spec_sint [of xs ys] assms(3,4)
  by (simp add: strcmp_def cstring_iff)

text \<open>
  \<open>strcpy\<close> copies the characters and stops at the NUL without writing it: the memory after the
  copied characters is what it was.
\<close>

lemma cstring_update:
  assumes "\<not> within a p (Suc (length xs))" and "length xs < 2 ^ 64 - 1"
  shows "cstring (m(a := v)) p xs = cstring m p xs"
proof -
  have "p + of_nat i \<noteq> a" if "i \<le> length xs" for i
    using assms that by (metis less_Suc_eq_le within_offset le_less_trans less_diff_conv add_lessD1)
  then show ?thesis by (auto simp: cstring_iff bytes_eq_iff list_eq_iff_nth_eq nth_bytes)
qed

lemma strcpy_loop_kernel:
  "kregion dest (Suc (length xs)) \<Longrightarrow> kregion src (Suc (length xs)) \<Longrightarrow>
   forward_safe dest src (Suc (length xs)) \<Longrightarrow> cstring (mem st) src xs \<Longrightarrow>
     strcpy_loop dest src st = Some (st\<lparr>mem := copied (mem st) dest src (length xs)\<rparr>)"
proof (induction xs arbitrary: dest src st)
  case Nil
  then show ?case by (subst strcpy_loop.simps) (simp add: ld8_kernel copied_def)
next
  case (Cons x xs)
  let ?n = "length xs"
  have k: "kregion (dest + 1) (Suc ?n)" "kregion (src + 1) (Suc ?n)"
    using Cons.prems kregion_Suc by force+
  have safe: "forward_safe (dest + 1) (src + 1) (Suc ?n)"
    using Cons.prems by (intro forward_safe_Suc) simp_all
  have "\<not> within dest (src + 1) (Suc ?n)"
  proof
    assume "within dest (src + 1) (Suc ?n)"
    then obtain i where i: "i < Suc ?n" "dest = src + 1 + of_nat i" by (rule withinE)
    then have "unat dest = unat src + Suc i"
      using Cons.prems(2) kregion_unat_add [of src "Suc (Suc ?n)" "Suc i"] by (simp add: add.assoc)
    then show False using Cons.prems(3) i(1) by (simp add: forward_safe_def word_le_nat_alt)
  qed
  moreover have "?n < 2 ^ 64 - 1" using Cons.prems(1) by (auto simp: kregion_def)
  ultimately have str: "cstring ((mem st)(dest := x)) (src + 1) xs"
    using Cons.prems(4) by (simp add: cstring_update)
  have hd: "mem st src = x" using Cons.prems(4) by simp
  have "copied ((mem st)(dest := x)) (dest + 1) (src + 1) ?n = copied (mem st) dest src (Suc ?n)"
    unfolding hd [symmetric]
    using Cons.prems by (intro copied_Suc) (auto simp: forward_safe_def intro: kregion_mono)
  then show ?case
    using Cons.IH [OF k safe, of "st\<lparr>mem := (mem st)(dest := x)\<rparr>"] str Cons.prems
    by (subst strcpy_loop.simps) (simp add: ld8_kernel st8_kernel fun_upd_def)
qed

lemma strcpy_kernel:
  assumes "kregion dest (Suc (length xs))" and "kregion src (Suc (length xs))"
    and "forward_safe dest src (Suc (length xs))" and "cstring (mem st) src xs"
  shows "strcpy dest src st = Some (dest, st\<lparr>mem := copied (mem st) dest src (length xs)\<rparr>)"
  using strcpy_loop_kernel [OF assms] by (simp add: strcpy_def)

section \<open>Properties\<close>

lemma bytes_copied: "n \<le> 2 ^ 64 \<Longrightarrow> bytes (copied m dst src n) dst n = bytes m src n"
  by (simp add: bytes_eq_iff copied_def)

lemma copied_outside: "\<not> within a dst n \<Longrightarrow> copied m dst src n a = m a"
  by (simp add: copied_def)

lemma bytes_copied_short:
  "Suc n \<le> 2 ^ 64 \<Longrightarrow> copied m dst src n (dst + of_nat n) = m (dst + of_nat n)"
  by (simp add: copied_def)

lemma kregion_length: "kregion p n \<Longrightarrow> n \<le> 2 ^ 64"
  by (auto simp: kregion_def)

text \<open>
  C28. \<open>memmove\<close> is correct for every overlap of its two buffers: the target ends up with the
  bytes the source held before the call, no other cell changes, and the result is the target.
\<close>

theorem memmove_any_overlap:
  assumes "kregion dst (unat n)" and "kregion src (unat n)"
  shows "\<exists>m. memmove dst src n st = Some (dst, st\<lparr>mem := m\<rparr>) \<and>
    bytes m dst (unat n) = bytes (mem st) src (unat n) \<and>
    (\<forall>a. \<not> within a dst (unat n) \<longrightarrow> m a = mem st a)"
  using memmove_kernel [OF assms, of st] bytes_copied [OF kregion_length [OF assms(1)]]
  by (intro exI [of _ "copied (mem st) dst src (unat n)"]) (simp add: copied_outside)

theorem memmove_any_overlap_witness:
  "\<exists>m. memmove 0xFFFF800000000102 0xFFFF800000000100 4
      (demo_machine\<lparr>mem := (\<lambda>_. 0)(0xFFFF800000000101 := 7)\<rparr>) =
        Some (0xFFFF800000000102, demo_machine\<lparr>mem := m\<rparr>) \<and>
    bytes m 0xFFFF800000000102 4 = [0, 7, 0, 0]"
proof -
  let ?m = "(\<lambda>_. 0 :: u8)(0xFFFF800000000101 := 7)"
  obtain m where m: "memmove 0xFFFF800000000102 0xFFFF800000000100 4
      (demo_machine\<lparr>mem := ?m\<rparr>) = Some (0xFFFF800000000102, demo_machine\<lparr>mem := ?m, mem := m\<rparr>)"
    "bytes m 0xFFFF800000000102 (unat (4 :: u64)) = bytes ?m 0xFFFF800000000100 (unat (4 :: u64))"
    using memmove_any_overlap [of "0xFFFF800000000102" 4 "0xFFFF800000000100"
        "demo_machine\<lparr>mem := ?m\<rparr>"]
    by (auto simp: kregion_def khalf_def)
  have "bytes ?m 0xFFFF800000000100 4 = [0, 7, 0, 0]" by (simp add: numeral_eq_Suc)
  then show ?thesis using m by auto
qed

text \<open>
  C29. \<open>fast_memcpy\<close>, the 8-byte string copy, is equivalent to the byte loop of \<open>memcpy\<close> for
  every length, alignment and forward-safe overlap, except for its result: it returns the
  target advanced past the whole quadwords, where \<open>memcpy\<close> returns the target.
\<close>

theorem fast_memcpy_equiv:
  assumes "kregion dst (unat n)" and "kregion src (unat n)" and "forward_safe dst src (unat n)"
  shows "\<exists>st'. memcpy dst src n st = Some (dst, st') \<and>
    fast_memcpy dst src n st = Some (dst + 8 * (n div 8), st') \<and>
    bytes (mem st') dst (unat n) = bytes (mem st) src (unat n)"
  using memcpy_kernel [OF assms, of st] fast_memcpy_kernel [OF assms, of st]
    bytes_copied [of "unat n" "mem st" dst src] kregion_length [OF assms(1)]
  by simp

theorem fast_memcpy_equiv_witness:
  "\<exists>st'. memcpy 0xFFFF800000000100 0xFFFF800000000200 19 demo_machine =
      Some (0xFFFF800000000100, st') \<and>
    fast_memcpy 0xFFFF800000000100 0xFFFF800000000200 19 demo_machine =
      Some (0xFFFF800000000110, st')"
  using fast_memcpy_equiv [of "0xFFFF800000000100" 19 "0xFFFF800000000200" demo_machine]
  by (auto simp: kregion_def khalf_def forward_safe_def)

text \<open>
  \<open>strcmp\<close> of two terminated strings always returns, zero exactly for equal strings, and a
  negative number exactly when the first is smaller in the order of unsigned bytes.
\<close>

lemma strcmp_orders:
  assumes "kregion a (Suc (length xs))" and "kregion b (Suc (length ys))"
    and "cstring (mem st) a xs" and "cstring (mem st) b ys"
  shows "\<exists>r. strcmp a b st = Some r \<and> (r = 0 \<longleftrightarrow> xs = ys) \<and> (sint r < 0 \<longleftrightarrow> xs < ys)"
  using assms by (rule strcmp_kernel)

lemma strcmp_orders_witness:
  "\<exists>r. strcmp 0xFFFF800000000100 0xFFFF800000000200
      (demo_machine\<lparr>mem := (\<lambda>_. 0)(0xFFFF800000000100 := 0x41, 0xFFFF800000000200 := 0xC3)\<rparr>) =
        Some r \<and> sint r < 0"
  using strcmp_orders [of "0xFFFF800000000100" "[0x41]" "0xFFFF800000000200" "[0xC3]"
      "demo_machine\<lparr>mem := (\<lambda>_. 0)(0xFFFF800000000100 := 0x41, 0xFFFF800000000200 := 0xC3)\<rparr>"]
  by (auto simp: kregion_def khalf_def)

text \<open>
  C40. \<open>strcpy\<close> copies the characters of the source but never writes the terminating NUL, so
  the target is a copy of the string only if the byte behind the characters was already zero.
\<close>

theorem strcpy_drops_nul:
  assumes "kregion dest (Suc (length xs))" and "kregion src (Suc (length xs))"
    and "forward_safe dest src (Suc (length xs))" and "cstring (mem st) src xs"
  shows "\<exists>m. strcpy dest src st = Some (dest, st\<lparr>mem := m\<rparr>) \<and>
    bytes m dest (length xs) = xs \<and>
    (cstring m dest xs \<longleftrightarrow> mem st (dest + of_nat (length xs)) = 0)"
proof -
  let ?m = "copied (mem st) dest src (length xs)"
  have n: "Suc (length xs) \<le> 2 ^ 64" using assms(1) by (rule kregion_length)
  have src: "bytes (mem st) src (length xs) = xs" "0 \<notin> set xs"
    using assms(4) by (simp_all add: cstring_iff)
  have "bytes ?m dest (length xs) = xs" using bytes_copied [of "length xs"] n src by simp
  then show ?thesis
    using strcpy_kernel [OF assms] bytes_copied_short [OF n, of "mem st" dest src] src
    by (intro exI [of _ ?m]) (simp add: cstring_iff)
qed

theorem strcpy_drops_nul_witness:
  "\<exists>m. strcpy 0xFFFF800000000200 0xFFFF800000000100
      (demo_machine\<lparr>mem := (\<lambda>_. 0)(0xFFFF800000000100 := 0x41, 0xFFFF800000000201 := 0x42)\<rparr>) =
        Some (0xFFFF800000000200, demo_machine\<lparr>mem := m\<rparr>) \<and>
    \<not> cstring m 0xFFFF800000000200 [0x41]"
  using strcpy_drops_nul [of "0xFFFF800000000200" "[0x41]" "0xFFFF800000000100"
      "demo_machine\<lparr>mem := (\<lambda>_. 0)(0xFFFF800000000100 := 0x41, 0xFFFF800000000201 := 0x42)\<rparr>"]
  by (auto simp: kregion_def khalf_def forward_safe_def)

end
