(* ===== verification/Serial.thy ===== *)
theory Serial
  imports LibString
begin

text \<open>
  The serial port (kernel/arch/x86_64/serial.c) and the terminal functions of tty.c that only
  forward to it. Each transmitted byte waits for the line status register to report an empty
  transmitter; the wait is a loop over the answers of port 0x3FD, so it ends only on a device
  that gets ready. \<open>tx_live\<close> says that of the device, and \<open>printed out st st'\<close> says that
  \<open>st'\<close> is \<open>st\<close> after the bytes \<open>out\<close> went out on the data port.
\<close>

unbundle bit_operations_syntax

abbreviation PORT :: u16 where "PORT \<equiv> 0x3F8"

section \<open>serial.c\<close>

definition serial_initialize :: "'a machine_scheme \<Rightarrow> u32 \<times> 'a machine_scheme" where
  "serial_initialize st =
     (let st = outb (PORT + 1) 0x00 st;
          st = outb (PORT + 3) 0x80 st;
          st = outb (PORT + 0) 0x03 st;
          st = outb (PORT + 1) 0x00 st;
          st = outb (PORT + 3) 0x03 st;
          st = outb (PORT + 2) 0xc7 st;
          st = outb (PORT + 4) 0x0b st;
          st = outb (PORT + 4) 0x1e st;
          st = outb (PORT + 0) 0xae st;
          (r, st) = inb (PORT + 0) st
      in if r \<noteq> 0xae then (1, outb (PORT + 4) 0x0f st)
         else (0, outb (PORT + 4) 0x0F st))"

definition is_transmit_empty :: "'a machine_scheme \<Rightarrow> u32 \<times> 'a machine_scheme" where
  "is_transmit_empty st = (let (b, st) = inb (PORT + 5) st in (ucast b AND 0x20, st))"

partial_function (option) serial_putchar ::
  "u8 \<Rightarrow> 'a machine_scheme \<Rightarrow> 'a machine_scheme option" where
  "serial_putchar c st =
     (if fst (is_transmit_empty st) = 0 then serial_putchar c (snd (is_transmit_empty st))
      else Some (outb PORT c (snd (is_transmit_empty st))))"

fun serial_write_loop ::
  "nat \<Rightarrow> u64 \<Rightarrow> u64 \<Rightarrow> 'a machine_scheme \<Rightarrow> 'a machine_scheme option" where
  "serial_write_loop 0 data i st = Some st"
| "serial_write_loop (Suc n) data i st =
     do {
       c \<leftarrow> ld8 st (data + i);
       st \<leftarrow> serial_putchar c st;
       serial_write_loop n data (i + 1) st
     }"

definition serial_write :: "u64 \<Rightarrow> u64 \<Rightarrow> 'a machine_scheme \<Rightarrow> 'a machine_scheme option" where
  "serial_write data count st = serial_write_loop (unat count) data 0 st"

section \<open>tty.c: the terminal functions\<close>

definition terminal_initialize :: "'a machine_scheme \<Rightarrow> 'a machine_scheme" where
  "terminal_initialize st = st"

definition terminal_putchar :: "u8 \<Rightarrow> 'a machine_scheme \<Rightarrow> 'a machine_scheme option" where
  "terminal_putchar c st = serial_putchar c st"

definition terminal_write :: "u64 \<Rightarrow> u64 \<Rightarrow> 'a machine_scheme \<Rightarrow> 'a machine_scheme option" where
  "terminal_write data count st = serial_write_loop (unat count) data 0 st"

definition terminal_writestring :: "u64 \<Rightarrow> 'a machine_scheme \<Rightarrow> 'a machine_scheme option" where
  "terminal_writestring data st =
     do {
       n \<leftarrow> strlen data st;
       terminal_write data n st
     }"

section \<open>What goes out\<close>

definition tx_live :: "'a machine_scheme \<Rightarrow> bool" where
  "tx_live st \<longleftrightarrow> (\<forall>n. \<exists>k\<ge>n. bit (inputs st (PORT + 5) k) 5)"

definition printed :: "u8 list \<Rightarrow> 'a machine_scheme \<Rightarrow> 'a machine_scheme \<Rightarrow> bool" where
  "printed out st st' \<longleftrightarrow>
     (\<exists>k. st' = st\<lparr>in_pos := (in_pos st)(PORT + 5 := k),
                   outlog := outlog st @ map (Pair PORT) out\<rparr>)"

lemma printed_Nil [simp]: "printed [] st st"
proof -
  have "st = st\<lparr>in_pos := (in_pos st)(PORT + 5 := in_pos st (PORT + 5)),
      outlog := outlog st @ map (Pair PORT) []\<rparr>" by simp
  then show ?thesis unfolding printed_def by blast
qed

lemma printed_trans: "printed xs st st' \<Longrightarrow> printed ys st' st'' \<Longrightarrow> printed (xs @ ys) st st''"
  by (auto simp: printed_def)

lemma printed_frame [frame_simps]:
  assumes "printed out st st'"
  shows "mem st' = mem st" "cr3 st' = cr3 st" "hhdm_offset st' = hhdm_offset st"
    "inputs st' = inputs st" "outlog st' = outlog st @ map (Pair PORT) out"
  using assms by (auto simp: printed_def)

lemma printed_tx_live: "printed out st st' \<Longrightarrow> tx_live st' = tx_live st"
  by (simp add: tx_live_def printed_frame)

lemma transmit_empty_bit: "(ucast (b :: u8) AND 0x20 :: u32) = 0 \<longleftrightarrow> \<not> bit b 5"
  using and_exp_eq_0_iff_not_bit [of "ucast b :: u32" 5] by (simp add: bit_simps)

lemma serial_putchar_wait:
  "bit (inputs st (PORT + 5) (in_pos st (PORT + 5) + d)) 5 \<Longrightarrow>
     \<exists>st'. serial_putchar c st = Some st' \<and> printed [c] st st'"
proof (induction d arbitrary: st)
  case 0
  then show ?case
    by (subst serial_putchar.simps)
      (auto simp: is_transmit_empty_def inb_def transmit_empty_bit printed_def outb_def)
next
  case (Suc d)
  let ?st = "st\<lparr>in_pos := (in_pos st)(PORT + 5 := Suc (in_pos st (PORT + 5)))\<rparr>"
  obtain st' where st': "serial_putchar c ?st = Some st'" "printed [c] ?st st'"
    using Suc.IH [of ?st] Suc.prems by auto
  show ?case
  proof (cases "bit (inputs st (PORT + 5) (in_pos st (PORT + 5))) 5")
    case True
    then show ?thesis
      by (subst serial_putchar.simps)
        (auto simp: is_transmit_empty_def inb_def transmit_empty_bit printed_def outb_def)
  next
    case False
    then have "serial_putchar c st = serial_putchar c ?st"
      by (subst serial_putchar.simps)
        (simp add: is_transmit_empty_def inb_def transmit_empty_bit)
    moreover have "printed [c] st st'"
      using st'(2) by (auto simp: printed_def)
    ultimately show ?thesis using st'(1) by simp
  qed
qed

lemma serial_putchar_live:
  assumes "tx_live st"
  shows "\<exists>st'. serial_putchar c st = Some st' \<and> printed [c] st st'"
proof -
  obtain k where "in_pos st (PORT + 5) \<le> k" "bit (inputs st (PORT + 5) k) 5"
    using assms by (auto simp: tx_live_def)
  then show ?thesis
    using serial_putchar_wait [of st "k - in_pos st (PORT + 5)" c] by simp
qed

text \<open>A call that returns has found the transmitter ready at some later read.\<close>

definition tx_ready :: "'a machine_scheme \<Rightarrow> bool" where
  "tx_ready st \<longleftrightarrow> (\<exists>d. bit (inputs st (PORT + 5) (in_pos st (PORT + 5) + d)) 5)"

lemma tx_ready_later:
  "tx_ready (st\<lparr>in_pos := (in_pos st)(PORT + 5 := Suc (in_pos st (PORT + 5)))\<rparr>) \<Longrightarrow> tx_ready st"
  by (auto simp: tx_ready_def) (metis add_Suc_right)

lemma serial_putchar_ready:
  assumes "serial_putchar c st = Some r"
  shows "tx_ready st"
proof (rule serial_putchar.raw_induct [where P = "\<lambda>c st r. tx_ready st", OF _ assms])
  fix f :: "u8 \<Rightarrow> 'a machine_scheme \<Rightarrow> 'a machine_scheme option"
  fix c and st :: "'a machine_scheme" and r
  assume IH: "\<And>c st r. f c st = Some r \<Longrightarrow> tx_ready st"
    and eq: "(if fst (is_transmit_empty st) = 0 then f c (snd (is_transmit_empty st))
      else Some (outb PORT c (snd (is_transmit_empty st)))) = Some r"
  show "tx_ready st"
  proof (cases "bit (inputs st (PORT + 5) (in_pos st (PORT + 5))) 5")
    case True
    then show ?thesis by (auto simp: tx_ready_def intro: exI [of _ 0])
  next
    case False
    then have "tx_ready (snd (is_transmit_empty st))"
      using eq by (intro IH [of c _ r]) (simp add: is_transmit_empty_def inb_def transmit_empty_bit)
    then show ?thesis by (simp add: is_transmit_empty_def inb_def tx_ready_later)
  qed
qed

text \<open>Writing a buffer or a string sends its bytes in order.\<close>

lemma serial_write_loop_live:
  "kregion (data + i) n \<Longrightarrow> tx_live st \<Longrightarrow>
     \<exists>st'. serial_write_loop n data i st = Some st' \<and> printed (bytes (mem st) (data + i) n) st st'"
proof (induction n arbitrary: i st)
  case (Suc n)
  have half: "khalf (data + i)" and next_: "kregion (data + (i + 1)) n"
    using Suc.prems(1) kregion_Suc [OF Suc.prems(1)] by (simp_all add: add.assoc)
  obtain st1 where 1: "serial_putchar (mem st (data + i)) st = Some st1"
      "printed [mem st (data + i)] st st1"
    using serial_putchar_live [OF Suc.prems(2)] by blast
  obtain st2 where 2: "serial_write_loop n data (i + 1) st1 = Some st2"
      "printed (bytes (mem st1) (data + (i + 1)) n) st1 st2"
    using Suc.IH [of "i + 1" st1] next_ Suc.prems(2) printed_tx_live [OF 1(2)] by blast
  have "printed ([mem st (data + i)] @ bytes (mem st1) (data + (i + 1)) n) st st2"
    using 1(2) 2(2) by (rule printed_trans)
  then show ?case
    using half 1 2 by (auto simp: ld8_kernel printed_frame add.assoc)
qed simp

lemma terminal_writestring_live:
  assumes "kregion p (Suc (length xs))" and "cstring (mem st) p xs" and "tx_live st"
  shows "\<exists>st'. terminal_writestring p st = Some st' \<and> printed xs st st'"
proof -
  have "length xs < 2 ^ 64" using assms(1) by (auto simp: kregion_def)
  then have "unat (of_nat (length xs) :: u64) = length xs" by (rule unat_of_nat64)
  then show ?thesis
    using serial_write_loop_live [of p 0 "length xs" st] assms
    by (simp add: terminal_writestring_def terminal_write_def strlen_kernel kregion_mono cstring_iff)
qed

section \<open>Properties\<close>

text \<open>
  \<open>serial_putchar\<close> returns exactly when the line status register reports an empty
  transmitter at some read from the current one on; then it has read only that register and
  sent exactly the given byte on the data port. Otherwise its loop never ends.
\<close>

lemma serial_putchar_outcome:
  "case serial_putchar c st of
     None \<Rightarrow> \<not> tx_ready st
   | Some st' \<Rightarrow> tx_ready st \<and> printed [c] st st'"
proof (cases "serial_putchar c st")
  case None
  then have "\<not> tx_ready st"
    using serial_putchar_wait [of st _ c] by (auto simp: tx_ready_def)
  with None show ?thesis by simp
next
  case (Some st')
  then have "tx_ready st" by (rule serial_putchar_ready)
  moreover from this have "printed [c] st st'"
    using serial_putchar_wait [of st _ c] Some by (auto simp: tx_ready_def)
  ultimately show ?thesis using Some by simp
qed

text \<open>
  On a transmitter that keeps getting ready, \<open>terminal_writestring\<close> returns and sends
  exactly the bytes of the string in order, without its NUL.
\<close>

lemma terminal_writestring_sends:
  assumes "kregion p (Suc (length xs))" and "cstring (mem st) p xs" and "tx_live st"
  shows "\<exists>st'. terminal_writestring p st = Some st' \<and> printed xs st st'"
  using assms by (rule terminal_writestring_live)

lemma tx_live_demo [simp]: "inputs st = (\<lambda>_ _. 0xFF) \<Longrightarrow> tx_live st"
  by (auto simp: tx_live_def)

lemma terminal_writestring_sends_witness:
  "\<exists>st'. terminal_writestring 0xFFFF800000000100
      (demo_machine\<lparr>mem := (\<lambda>_. 0)(0xFFFF800000000100 := 0x48, 0xFFFF800000000101 := 0x69)\<rparr>) =
        Some st' \<and> outlog st' = [(0x3F8, 0x48), (0x3F8, 0x69)]"
  using terminal_writestring_sends [of "0xFFFF800000000100" "[0x48, 0x69]"
      "demo_machine\<lparr>mem := (\<lambda>_. 0)(0xFFFF800000000100 := 0x48, 0xFFFF800000000101 := 0x69)\<rparr>"]
  by (auto simp: kregion_def khalf_def printed_frame)

end
