(* ===== verification/Printf.thy ===== *)
theory Printf
  imports Serial
begin

text \<open>
  libc/stdio: \<open>putchar\<close>, \<open>puts\<close> and \<open>printf\<close> as the kernel build has them (\<open>__is_libk\<close>:
  characters go to the serial port). A format is a literal of the source, so it is a \<open>string\<close>
  without its final NUL; each variadic argument is the 64-bit slot the caller passed, of which
  \<open>%d\<close>, \<open>%x\<close> and \<open>%c\<close> read the low 32 bits and \<open>%s\<close> the whole as a pointer. Reading past
  the last argument is undefined in C and \<open>None\<close> here.
\<close>

unbundle bit_operations_syntax

abbreviation INT_MAX :: u32 where "INT_MAX \<equiv> 0x7FFFFFFF"

abbreviation lit :: "string \<Rightarrow> u8 list" where "lit s \<equiv> map of_char s"

definition putchar :: "u32 \<Rightarrow> 'a machine_scheme \<Rightarrow> (u32 \<times> 'a machine_scheme) option" where
  "putchar ic st =
     do {
       st \<leftarrow> serial_putchar (ucast ic) st;
       Some (ic, st)
     }"

text \<open>\<open>print\<close> over a literal piece of the format, and over memory.\<close>

fun print :: "u8 list \<Rightarrow> 'a machine_scheme \<Rightarrow> (bool \<times> 'a machine_scheme) option" where
  "print [] st = Some (True, st)"
| "print (b # bs) st =
     do {
       (r, st) \<leftarrow> putchar (ucast b) st;
       if r = - 1 then Some (False, st) else print bs st
     }"

fun print_mem ::
  "nat \<Rightarrow> u64 \<Rightarrow> u64 \<Rightarrow> 'a machine_scheme \<Rightarrow> (bool \<times> 'a machine_scheme) option" where
  "print_mem 0 data i st = Some (True, st)"
| "print_mem (Suc n) data i st =
     do {
       b \<leftarrow> ld8 st (data + i);
       (r, st) \<leftarrow> putchar (ucast b) st;
       if r = - 1 then Some (False, st) else print_mem n data (i + 1) st
     }"

text \<open>The digits of \<open>n\<close> as the loop at lines 82-86 stores them, least significant first.\<close>

definition digit_char :: "u32 \<Rightarrow> u8" where
  "digit_char r = (if r < 10 then ucast (r + 48) else ucast (r - 10 + 97))"

abbreviation digit_base :: "bool \<Rightarrow> u32" where "digit_base is_hex \<equiv> (if is_hex then 16 else 10)"

function digits :: "bool \<Rightarrow> u32 \<Rightarrow> u8 list" where
  "digits is_hex n =
     (if n = 0 then [] else digit_char (n mod digit_base is_hex) # digits is_hex (n div digit_base is_hex))"
  by pat_completeness auto
termination
  by (relation "measure (\<lambda>(is_hex, n). unat n)") (auto simp: unat_div unat_gt_0)

declare digits.simps [simp del]

text \<open>The loop at lines 89-93: one \<open>print\<close> and one count for each stored digit.\<close>

fun print_digits ::
  "u8 list \<Rightarrow> u32 \<Rightarrow> 'a machine_scheme \<Rightarrow> (u32 option \<times> 'a machine_scheme) option" where
  "print_digits [] written st = Some (Some written, st)"
| "print_digits (d # ds) written st =
     do {
       (ok, st) \<leftarrow> print [d] st;
       if \<not> ok then Some (None, st) else print_digits ds (written + 1) st
     }"

definition print_number ::
  "bool \<Rightarrow> u32 \<Rightarrow> u32 \<Rightarrow> 'a machine_scheme \<Rightarrow> (u32 option \<times> 'a machine_scheme) option" where
  "print_number is_hex num written st =
     (if num = 0 then print_digits [48] written st
      else if \<not> is_hex \<and> num <s 0 then
        do {
          (ok, st) \<leftarrow> print (lit ''-'') st;
          if \<not> ok then Some (None, st)
          else print_digits (rev (digits is_hex (- num))) (written + 1) st
        }
      else print_digits (rev (digits is_hex num)) written st)"

function printf_loop ::
  "string \<Rightarrow> u64 list \<Rightarrow> u32 \<Rightarrow> 'a machine_scheme \<Rightarrow> (u32 \<times> 'a machine_scheme) option" where
  "printf_loop [] args written st = Some (written, st)"
| "printf_loop (f0 # fs) args written st =
     (let maxrem = scast (INT_MAX - written) :: u64 in
      if f0 \<noteq> CHR ''%'' \<or> take 1 fs = ''%'' then
        let text0 = (if f0 = CHR ''%'' then fs else f0 # fs);
            piece = hd text0 # takeWhile (\<lambda>c. c \<noteq> CHR ''%'') (tl text0);
            rest = dropWhile (\<lambda>c. c \<noteq> CHR ''%'') (tl text0)
        in if maxrem < of_nat (length piece) then Some (- 1, st)
           else do {
             (ok, st) \<leftarrow> print (lit piece) st;
             if \<not> ok then Some (- 1, st)
             else printf_loop rest args (written + of_nat (length piece)) st
           }
      else if take 1 fs = ''c'' then
        (case args of [] \<Rightarrow> None | a # args \<Rightarrow>
           if maxrem = 0 then Some (- 1, st)
           else do {
             (ok, st) \<leftarrow> print [ucast a] st;
             if \<not> ok then Some (- 1, st) else printf_loop (tl fs) args (written + 1) st
           })
      else if take 1 fs = ''s'' then
        (case args of [] \<Rightarrow> None | str # args \<Rightarrow>
           do {
             len \<leftarrow> strlen str st;
             if maxrem < len then Some (- 1, st)
             else do {
               (ok, st) \<leftarrow> print_mem (unat len) str 0 st;
               if \<not> ok then Some (- 1, st)
               else printf_loop (tl fs) args (written + ucast len) st
             }
           })
      else if take 1 fs = ''d'' \<or> take 1 fs = ''x'' then
        (case args of [] \<Rightarrow> None | a # args \<Rightarrow>
           do {
             (w, st) \<leftarrow> print_number (take 1 fs = ''x'') (ucast a) written st;
             case w of None \<Rightarrow> Some (- 1, st)
             | Some written \<Rightarrow> printf_loop (tl fs) args written st
           })
      else
        if maxrem < of_nat (length (f0 # fs)) then Some (- 1, st)
        else do {
          (ok, st) \<leftarrow> print (lit (f0 # fs)) st;
          if \<not> ok then Some (- 1, st)
          else Some (written + of_nat (length (f0 # fs)), st)
        })"
  by pat_completeness auto
termination
  by (relation "measure (\<lambda>(fmt, _). length fmt)")
    (auto simp: less_Suc_eq_le intro: order_trans [OF length_dropWhile_le])

definition printf ::
  "string \<Rightarrow> u64 list \<Rightarrow> 'a machine_scheme \<Rightarrow> (u32 \<times> 'a machine_scheme) option" where
  "printf fmt args st = printf_loop fmt args 0 st"

text \<open>A call whose result the caller drops.\<close>

definition kprintf :: "string \<Rightarrow> u64 list \<Rightarrow> 'a machine_scheme \<Rightarrow> 'a machine_scheme option" where
  "kprintf fmt args st = map_option snd (printf fmt args st)"

definition puts :: "u64 \<Rightarrow> 'a machine_scheme \<Rightarrow> (u32 \<times> 'a machine_scheme) option" where
  "puts str st = printf (''%s'' @ [CHR 0x0A]) [str] st"

section \<open>What printf prints\<close>

text \<open>
  The reference: numbers written out from \<open>nat\<close> in the usual way, and a format read one
  character at a time. \<open>strs\<close> gives the strings the \<open>%s\<close> arguments point to.
\<close>

definition digit_of :: "nat \<Rightarrow> u8" where
  "digit_of d = (if d < 10 then of_nat (48 + d) else of_nat (87 + d))"

fun nat_text :: "nat \<Rightarrow> nat \<Rightarrow> u8 list" where
  "nat_text b n =
     (if n < b \<or> b \<le> 1 then [digit_of n] else nat_text b (n div b) @ [digit_of (n mod b)])"

declare nat_text.simps [simp del]

definition number_text :: "bool \<Rightarrow> u32 \<Rightarrow> u8 list" where
  "number_text is_hex w =
     (if is_hex then nat_text 16 (unat w)
      else if sint w < 0 then 45 # nat_text 10 (nat (- sint w))
      else nat_text 10 (nat (sint w)))"

fun render :: "(u64 \<Rightarrow> u8 list option) \<Rightarrow> string \<Rightarrow> u64 list \<Rightarrow> u8 list option" where
  "render strs [] args = Some []"
| "render strs (c # fs) args =
     (if c \<noteq> CHR ''%'' then map_option ((#) (of_char c)) (render strs fs args)
      else case fs of
        [] \<Rightarrow> Some (lit [c])
      | k # fs' \<Rightarrow>
          if k = CHR ''%'' then map_option ((#) (of_char k)) (render strs fs' args)
          else if k = CHR ''c'' then
            (case args of [] \<Rightarrow> None
             | a # args \<Rightarrow> map_option ((#) (ucast a)) (render strs fs' args))
          else if k = CHR ''s'' then
            (case args of [] \<Rightarrow> None
             | a # args \<Rightarrow> do { s \<leftarrow> strs a; r \<leftarrow> render strs fs' args; Some (s @ r) })
          else if k = CHR ''d'' \<or> k = CHR ''x'' then
            (case args of [] \<Rightarrow> None
             | a # args \<Rightarrow>
                 map_option ((@) (number_text (k = CHR ''x'') (ucast a))) (render strs fs' args))
          else Some (lit (c # fs)))"

lemma of_char_percent [simp]: "(of_char CHR ''%'' :: u8) = 37"
  and of_char_minus [simp]: "(of_char CHR ''-'' :: u8) = 45"
  by simp_all

subsection \<open>Digits\<close>

lemma digit_char_eq:
  assumes "r < 16"
  shows "digit_char r = digit_of (unat r)"
proof -
  have "unat r < 16" using assms by (simp add: word_less_nat_alt)
  then obtain k where k: "r = of_nat k" "k < 16"
    using that [of "unat r"] by simp
  then have "k \<in> {0, 1, 2, 3, 4, 5, 6, 7, 8, 9, 10, 11, 12, 13, 14, 15}" by (simp, arith)
  then show ?thesis
    unfolding k(1) by (elim insertE emptyE; hypsubst; simp add: digit_char_def digit_of_def)
qed

lemma digit_base_unat: "unat (digit_base is_hex) = (if is_hex then 16 else 10)"
  by simp

lemma digits_eq:
  "n \<noteq> 0 \<Longrightarrow> rev (digits is_hex n) = nat_text (if is_hex then 16 else 10) (unat n)"
proof (induction is_hex n rule: digits.induct)
  case (1 is_hex n)
  have digit: "digit_char (n mod digit_base is_hex) = digit_of (unat n mod unat (digit_base is_hex))"
    by (subst digit_char_eq) (auto simp: unat_mod word_less_nat_alt)
  show ?case
  proof (cases "n div digit_base is_hex = 0")
    case True
    then have "unat n < unat (digit_base is_hex)"
      by (metis unat_div unat_0 div_eq_0_iff digit_base_unat zero_neq_numeral)
    then show ?thesis
      using True "1.prems" digit
      by (cases is_hex) (simp_all add: digits.simps [of _ n] digits.simps [of _ 0] nat_text.simps)
  next
    case False
    then have "\<not> unat n < unat (digit_base is_hex)"
      by (metis unat_div unat_0 div_less unsigned_0 unat_eq_zero)
    then show ?thesis
      using "1.IH" False "1.prems" digit
      by (subst digits.simps, subst nat_text.simps) (simp add: unat_div digit_base_unat)
  qed
qed

text \<open>The number printed by lines 63-93 is the decimal or hexadecimal text of the value.\<close>

lemma print_number_text:
  "(if num = 0 then [48]
    else if \<not> is_hex \<and> num <s 0 then 45 # rev (digits is_hex (- num))
    else rev (digits is_hex num)) = number_text is_hex num"
proof -
  have zero: "nat_text b 0 = [48]" if "b \<noteq> 0" for b
    using that by (simp add: nat_text.simps digit_of_def)
  consider "num = 0" | "num \<noteq> 0" "num <s 0" | "num \<noteq> 0" "\<not> num <s 0" by blast
  then show ?thesis
  proof cases
    case 1
    then show ?thesis by (simp add: number_text_def zero)
  next
    case 2
    obtain n where n: "unat num = n" by blast
    have "unat (- num) = nat (- sint num)"
      using 2 unsigned_less [of num]
      by (simp add: unat_minus_word sint32_unat sless_0_unat n uint_unat32 [OF n])
    with 2 show ?thesis
      by (auto simp: number_text_def digits_eq word_sless_alt)
  next
    case 3
    then have "nat (sint num) = unat num" by (simp add: sint32_unat sless_0_unat)
    with 3 show ?thesis
      by (auto simp: number_text_def digits_eq word_sless_alt)
  qed
qed

subsection \<open>Printing always reaches the end on a live port\<close>

lemma putchar_live:
  "tx_live st \<Longrightarrow> \<exists>st'. putchar (ucast b) st = Some (ucast b, st') \<and> printed [b] st st'"
  using serial_putchar_live [of st b] by (auto simp: putchar_def)

lemma ucast_u8_not_EOF: "(ucast (b :: u8) :: u32) \<noteq> - 1"
proof
  assume "(ucast b :: u32) = - 1"
  then have "unat (ucast b :: u32) = unat (- 1 :: u32)" by simp
  moreover have "unat b < 256" using unsigned_less [of b] by simp
  ultimately show False by (simp add: unsigned_minus_1_eq_mask mask_eq_exp_minus_1)
qed

lemma print_live:
  "tx_live st \<Longrightarrow> \<exists>st'. print bs st = Some (True, st') \<and> printed bs st st'"
proof (induction bs arbitrary: st)
  case (Cons b bs)
  obtain st1 where 1: "putchar (ucast b) st = Some (ucast b, st1)" "printed [b] st st1"
    using putchar_live [OF Cons.prems, of b] by blast
  obtain st2 where 2: "print bs st1 = Some (True, st2)" "printed bs st1 st2"
    using Cons.IH [of st1] Cons.prems printed_tx_live [OF 1(2)] by blast
  have "printed (b # bs) st st2" using printed_trans [OF 1(2) 2(2)] by simp
  then show ?case using 1 2 ucast_u8_not_EOF [of b] by simp
qed simp

lemma print_mem_live:
  "kregion (data + i) n \<Longrightarrow> tx_live st \<Longrightarrow>
     \<exists>st'. print_mem n data i st = Some (True, st') \<and> printed (bytes (mem st) (data + i) n) st st'"
proof (induction n arbitrary: i st)
  case (Suc n)
  have half: "khalf (data + i)" and rest: "kregion (data + (i + 1)) n"
    using Suc.prems(1) kregion_Suc [OF Suc.prems(1)] by (simp_all add: add.assoc)
  let ?b = "mem st (data + i)"
  obtain st1 where 1: "putchar (ucast ?b) st = Some (ucast ?b, st1)" "printed [?b] st st1"
    using putchar_live [OF Suc.prems(2)] by blast
  obtain st2 where 2: "print_mem n data (i + 1) st1 = Some (True, st2)"
      "printed (bytes (mem st1) (data + (i + 1)) n) st1 st2"
    using Suc.IH [of "i + 1" st1] rest Suc.prems(2) printed_tx_live [OF 1(2)] by blast
  have "printed ([?b] @ bytes (mem st1) (data + (i + 1)) n) st st2"
    using 1(2) 2(2) by (rule printed_trans)
  then show ?case
    using half 1 2 ucast_u8_not_EOF [of ?b] by (auto simp: ld8_kernel printed_frame add.assoc)
qed simp

lemma print_digits_live:
  "tx_live st \<Longrightarrow> \<exists>st'. print_digits ds w st = Some (Some (w + of_nat (length ds)), st') \<and>
     printed ds st st'"
proof (induction ds arbitrary: st w)
  case (Cons d ds)
  obtain st1 where 1: "print [d] st = Some (True, st1)" "printed [d] st st1"
    using print_live [OF Cons.prems] by blast
  obtain st2 where 2: "print_digits ds (w + 1) st1 = Some (Some (w + 1 + of_nat (length ds)), st2)"
      "printed ds st1 st2"
    using Cons.IH [of st1 "w + 1"] Cons.prems printed_tx_live [OF 1(2)] by blast
  have "printed (d # ds) st st2" using printed_trans [OF 1(2) 2(2)] by simp
  then show ?case using 1 2 by (simp del: print.simps add: ac_simps)
qed simp

lemma print_number_live:
  assumes "tx_live st"
  shows "\<exists>st'. print_number is_hex num w st =
      Some (Some (w + of_nat (length (number_text is_hex num))), st') \<and>
    printed (number_text is_hex num) st st'"
proof (cases "num \<noteq> 0 \<and> \<not> is_hex \<and> num <s 0")
  case True
  obtain st1 where 1: "print [45] st = Some (True, st1)" "printed [45] st st1"
    using print_live [OF assms] by blast
  obtain st2 where 2: "print_digits (rev (digits is_hex (- num))) (w + 1) st1 =
      Some (Some (w + 1 + of_nat (length (rev (digits is_hex (- num))))), st2)"
      "printed (rev (digits is_hex (- num))) st1 st2"
    using print_digits_live [of st1] assms printed_tx_live [OF 1(2)] by blast
  have "number_text is_hex num = 45 # rev (digits is_hex (- num))"
    using print_number_text [of num is_hex] True by simp
  with printed_trans [OF 1(2) 2(2)] 1 2 True show ?thesis
    by (simp add: print_number_def del: print.simps add: ac_simps)
next
  case False
  let ?ds = "number_text is_hex num"
  have "print_number is_hex num w st = print_digits ?ds w st"
    using False print_number_text [of num is_hex]
    by (auto simp: print_number_def simp del: print_digits.simps)
  then show ?thesis using print_digits_live [OF assms, of ?ds w] by simp
qed

subsection \<open>The main loop\<close>

lemma unat_maxrem:
  "unat w \<le> 2147483647 \<Longrightarrow> unat (scast (INT_MAX - w) :: u64) = 2147483647 - unat w"
proof -
  assume w: "unat w \<le> 2147483647"
  then have "unat (INT_MAX - w) = 2147483647 - unat w"
    by (subst unat_sub) (simp_all add: word_le_nat_alt)
  then show ?thesis by (simp add: scast_nonneg)
qed

lemma maxrem_ge:
  assumes "unat w + n \<le> 2147483647"
  shows "\<not> (scast (INT_MAX - w) :: u64) < of_nat n"
  using assms by (simp add: word_less_nat_alt unat_maxrem unat_of_nat64)

lemma unat_add_small:
  "unat (w :: u32) + n \<le> 2147483647 \<Longrightarrow> unat (w + of_nat n) = unat w + n"
  by (simp add: unat_word_ariths unat_of_nat take_bit_nat_eq_self)

lemma render_append:
  "CHR ''%'' \<notin> set p \<Longrightarrow>
     render strs (p @ r) args = map_option ((@) (lit p)) (render strs r args)"
  by (induction p; cases "render strs r args") auto

lemma render_chunk:
  assumes "render strs (f0 # fs) args = Some out"
    and "f0 \<noteq> CHR ''%'' \<or> take 1 fs = ''%''"
    and "text0 = (if f0 = CHR ''%'' then fs else f0 # fs)"
  defines "P \<equiv> (\<lambda>c. c \<noteq> CHR ''%'')"
  obtains out' where "render strs (dropWhile P (tl text0)) args = Some out'"
    and "out = lit (hd text0 # takeWhile P (tl text0)) @ out'"
    and "length (dropWhile P (tl text0)) < length (f0 # fs)"
proof -
  let ?t = "tl text0"
  have split: "render strs ?t args = map_option ((@) (lit (takeWhile P ?t)))
      (render strs (dropWhile P ?t) args)"
    using render_append [of "takeWhile P ?t" strs "dropWhile P ?t" args]
    by (auto simp: P_def dest: set_takeWhileD)
  have "render strs (f0 # fs) args = map_option ((#) (of_char (hd text0))) (render strs ?t args)"
    and "length ?t < length (f0 # fs)"
    using assms(2,3) by (cases fs; auto)+
  with assms(1) show ?thesis
    using length_dropWhile_le [of P ?t] by (auto intro: that simp: split simp del: render.simps)
qed

definition strs_ok :: "(u64 \<Rightarrow> u8) \<Rightarrow> (u64 \<Rightarrow> u8 list option) \<Rightarrow> bool" where
  "strs_ok m strs \<longleftrightarrow>
     (\<forall>a s. strs a = Some s \<longrightarrow> kregion a (Suc (length s)) \<and> cstring m a s)"

lemma printf_loop_render:
  assumes "strs_ok (mem st) strs" and "render strs fmt args = Some out" and "tx_live st"
    and "unat w + length out \<le> 2147483647"
  shows "\<exists>st'. printf_loop fmt args w st = Some (w + of_nat (length out), st') \<and> printed out st st'"
  using assms
proof (induction "length fmt" arbitrary: fmt args w st out rule: less_induct)
  case less
  show ?case
  proof (cases fmt)
    case Nil
    then show ?thesis using less.prems by auto
  next
    case (Cons f0 fs)
    have continue: "\<exists>st'. printf_loop rest args' (w + of_nat (length a)) st1 =
          Some (w + of_nat (length out), st') \<and> printed out st st'"
      if len: "length rest < length fmt" and ren: "render strs rest args' = Some b"
        and out: "out = a @ b" and a: "printed a st st1" for rest args' a b st1
    proof -
      have "unat (w + of_nat (length a)) = unat w + length a"
        using less.prems(4) out by (intro unat_add_small) simp
      then obtain st' where "printf_loop rest args' (w + of_nat (length a)) st1 =
          Some (w + of_nat (length a) + of_nat (length b), st')" "printed b st1 st'"
        using less.hyps [OF len, of st1 args' b "w + of_nat (length a)"] less.prems ren out
        by (auto simp: printed_frame [OF a] printed_tx_live [OF a])
      then show ?thesis
        using out printed_trans [OF a] by (auto simp: add.assoc)
    qed
    consider "f0 \<noteq> CHR ''%'' \<or> take 1 fs = ''%''" | "f0 = CHR ''%''" "take 1 fs \<noteq> ''%''" by blast
    then show ?thesis
    proof cases
      case 1
      define text0 where "text0 = (if f0 = CHR ''%'' then fs else f0 # fs)"
      define P where "P = (\<lambda>c. c \<noteq> CHR ''%'')"
      let ?piece = "hd text0 # takeWhile P (tl text0)"
      obtain out' where out': "render strs (dropWhile P (tl text0)) args = Some out'"
          "out = lit ?piece @ out'" "length (dropWhile P (tl text0)) < length (f0 # fs)"
        using render_chunk [of strs f0 fs args out text0] less.prems(2) 1 Cons text0_def P_def
        by blast
      obtain st1 where 2: "print (lit ?piece) st = Some (True, st1)" "printed (lit ?piece) st st1"
        using print_live [OF less.prems(3)] by blast
      have "unat w + length ?piece \<le> 2147483647" using less.prems(4) out'(2) by simp
      note step = maxrem_ge [OF this]
      have "printf_loop fmt args w st =
          printf_loop (dropWhile P (tl text0)) args (w + of_nat (length (lit ?piece))) st1"
        using 1 2(1) step Cons
        by (subst Cons, subst printf_loop.simps)
          (simp add: Let_def text0_def [symmetric] P_def [symmetric] del: print.simps)
      then show ?thesis using continue [of _ args out', OF _ out'(1,2) 2(2)] out'(3) Cons by simp
    next
      case 2
      show ?thesis
      proof (cases "\<exists>k rest. fs = k # rest \<and> k \<in> {CHR ''c'', CHR ''s'', CHR ''d'', CHR ''x''}")
        case False
        then have out: "out = lit (f0 # fs)"
          using less.prems(2) Cons 2 by (auto split: list.splits if_splits)
        obtain st1 where p: "print (lit (f0 # fs)) st = Some (True, st1)"
            "printed (lit (f0 # fs)) st st1"
          using print_live [OF less.prems(3)] by blast
        have "\<not> (scast (INT_MAX - w) :: u64) < of_nat (length (f0 # fs))"
          using less.prems(4) out by (intro maxrem_ge) simp
        then have "printf_loop fmt args w st = Some (w + of_nat (length out), st1)"
          using 2 False p(1) out Cons
          by (subst Cons, subst printf_loop.simps) (cases fs; simp add: Let_def del: print.simps)
        then show ?thesis using p(2) out by simp
      next
        case True
        then obtain k rest where fs: "fs = k # rest"
          and k: "k \<in> {CHR ''c'', CHR ''s'', CHR ''d'', CHR ''x''}" by blast
        obtain a args' where args: "args = a # args'"
          using less.prems(2) Cons 2 fs k by (cases args) auto
        have len: "length rest < length fmt" using Cons fs by simp
        consider "k = CHR ''c''" | "k = CHR ''s''" | "k = CHR ''d'' \<or> k = CHR ''x''" using k by blast
        then show ?thesis
        proof cases
          case 1
          then obtain b where b: "render strs rest args' = Some b" "out = [ucast a] @ b"
            using less.prems(2) Cons 2 fs args by auto
          obtain st1 where p: "print [ucast a] st = Some (True, st1)" "printed [ucast a] st st1"
            using print_live [OF less.prems(3)] by blast
          have "(scast (INT_MAX - w) :: u64) \<noteq> 0"
            using less.prems(4) b(2) unat_maxrem [of w] by (auto simp: unat_eq_zero)
          then have "printf_loop fmt args w st =
              printf_loop rest args' (w + of_nat (length [ucast a :: u8])) st1"
            using 1 2 fs args p(1) Cons
            by (subst Cons, subst printf_loop.simps) (simp add: Let_def del: print.simps)
          then show ?thesis using continue [OF len b p(2)] by simp
        next
          case 2
          then obtain xs b where b: "strs a = Some xs" "render strs rest args' = Some b" "out = xs @ b"
            using less.prems(2) Cons \<open>f0 = CHR ''%''\<close> fs args by (auto elim!: bind_SomeE)
          then have str: "kregion a (Suc (length xs))" "cstring (mem st) a xs"
            using less.prems(1) by (auto simp: strs_ok_def)
          have n: "length xs \<le> 2147483647" using less.prems(4) b(3) by simp
          then have u: "unat (of_nat (length xs) :: u64) = length xs" by (intro unat_of_nat64) simp
          obtain st1 where p: "print_mem (length xs) a 0 st = Some (True, st1)" "printed xs st st1"
            using print_mem_live [of a 0 "length xs" st] str less.prems(3)
            by (auto simp: kregion_mono cstring_iff)
          have "\<not> (scast (INT_MAX - w) :: u64) < of_nat (length xs)"
            using less.prems(4) b(3) by (intro maxrem_ge) simp
          moreover have "(ucast (of_nat (length xs) :: u64) :: u32) = of_nat (length xs)"
            by (metis of_nat_unat u)
          ultimately have "printf_loop fmt args w st =
              printf_loop rest args' (w + of_nat (length xs)) st1"
            using 2 \<open>f0 = CHR ''%''\<close> fs args p(1) str u Cons
            by (subst Cons, subst printf_loop.simps)
              (simp add: Let_def strlen_kernel del: print_mem.simps)
          then show ?thesis using continue [OF len b(2,3) p(2)] by simp
        next
          case 3
          let ?n = "number_text (k = CHR ''x'') (ucast a)"
          obtain b where b: "render strs rest args' = Some b" "out = ?n @ b"
            using 3 less.prems(2) Cons 2 fs args by auto
          obtain st1 where p: "print_number (k = CHR ''x'') (ucast a) w st =
              Some (Some (w + of_nat (length ?n)), st1)" "printed ?n st st1"
            using print_number_live [OF less.prems(3)] by blast
          have "printf_loop fmt args w st = printf_loop rest args' (w + of_nat (length ?n)) st1"
            using 2 3 fs args p(1) Cons
            by (subst Cons, subst printf_loop.simps) (auto simp: Let_def)
          then show ?thesis using continue [OF len b p(2)] by simp
        qed
      qed
    qed
  qed
qed

lemma printf_render:
  assumes "strs_ok (mem st) strs" and "render strs fmt args = Some out" and "tx_live st"
    and "length out \<le> 2147483647"
  shows "\<exists>st'. printf fmt args st = Some (of_nat (length out), st') \<and> printed out st st'"
  using printf_loop_render [of st strs fmt args out 0] assms by (simp add: printf_def)

text \<open>A format without \<open>%s\<close> and with enough arguments can always be printed.\<close>

lemma kprintf_live:
  assumes "render Map.empty fmt args = Some out" and "tx_live st" and "length out \<le> 2147483647"
  shows "\<exists>st'. kprintf fmt args st = Some st' \<and> printed out st st'"
  using printf_render [of st Map.empty fmt args out] assms
  by (auto simp: kprintf_def strs_ok_def)

text \<open>
  \<open>plain fmt n\<close>: a check, by evaluation, that \<open>fmt\<close> has no \<open>%s\<close> and takes at most \<open>n\<close>
  arguments. Every message of the kernel that prints no string passes it.
\<close>

fun plain :: "string \<Rightarrow> nat \<Rightarrow> bool" where
  "plain [] n \<longleftrightarrow> True"
| "plain (c # fs) n \<longleftrightarrow>
     (if c \<noteq> CHR ''%'' then plain fs n
      else case fs of
        [] \<Rightarrow> True
      | k # fs' \<Rightarrow>
          if k = CHR ''%'' then plain fs' n
          else if k \<in> {CHR ''c'', CHR ''d'', CHR ''x''} then 0 < n \<and> plain fs' (n - 1)
          else k \<noteq> CHR ''s'')"

lemma length_nat_text:
  "2 \<le> b \<Longrightarrow> n < b ^ Suc k \<Longrightarrow> length (nat_text b n) \<le> Suc k"
proof (induction k arbitrary: n)
  case 0
  then show ?case by (subst nat_text.simps) simp
next
  case (Suc k)
  then have "n div b < b ^ Suc k" by (simp add: less_mult_imp_div_less mult.commute)
  then have "length (nat_text b (n div b)) \<le> Suc k" using Suc by blast
  then show ?case by (subst nat_text.simps) auto
qed

lemma length_number_text: "length (number_text is_hex w) \<le> 11"
proof -
  have w: "unat w < 2 ^ 32" using unsigned_less [of w] by simp
  have "- (2 ^ 31) \<le> sint w" "sint w < 2 ^ 31"
    using sint_ge [of w] sint_lt [of w] by simp_all
  then have bounds: "nat (sint w) < 10 ^ Suc 9" "nat (- sint w) < 10 ^ Suc 9"
    "unat w < 16 ^ Suc 7" using w by simp_all
  have "length (nat_text 16 (unat w)) \<le> Suc 7"
    "length (nat_text 10 (nat (sint w))) \<le> Suc 9"
    "length (nat_text 10 (nat (- sint w))) \<le> Suc 9"
    by (rule length_nat_text, simp, rule bounds)+
  then show ?thesis by (auto simp: number_text_def)
qed

lemma plain_render:
  "plain fmt (length args) \<Longrightarrow>
     \<exists>out. render strs fmt args = Some out \<and> length out \<le> 11 * length fmt"
proof (induction "length fmt" arbitrary: fmt args rule: less_induct)
  case less
  show ?case
  proof (cases fmt)
    case (Cons c fs)
    note IH = less.hyps [of _ args] less.hyps [of _ "tl args"]
    consider "c \<noteq> CHR ''%''" | "c = CHR ''%''" "fs = []"
      | k fs' where "c = CHR ''%''" "fs = k # fs'" by (cases fs) auto
    then show ?thesis
    proof cases
      case 1
      then show ?thesis using IH(1) [of fs] less.prems Cons by auto
    next
      case 2
      then show ?thesis using Cons by simp
    next
      case (3 k fs')
      have lt: "length fs' < length fmt" using Cons 3 by simp
      show ?thesis
      proof (cases "k \<in> {CHR ''c'', CHR ''d'', CHR ''x''}")
        case True
        then obtain a args' where args: "args = a # args'"
          using less.prems 3 Cons by (cases args) auto
        then obtain out where "render strs fs' args' = Some out" "length out \<le> 11 * length fs'"
          using IH(2) [OF lt] less.prems True 3 Cons by auto
        then show ?thesis
          using True 3 Cons args length_number_text [of "k = CHR ''x''" "ucast a"]
          by (elim insertE emptyE) simp_all
      next
        case False
        show ?thesis
        proof (cases "k = CHR ''%''")
          case True
          then show ?thesis using IH(1) [OF lt] less.prems 3 Cons by auto
        next
          case no: False
          have "k \<noteq> CHR ''s''" using less.prems 3 Cons no False by simp
          then show ?thesis using 3 Cons no False by simp
        qed
      qed
    qed
  qed simp
qed

lemma kprintf_plain:
  assumes "plain fmt (length args)" and "tx_live st" and "length fmt \<le> 1000"
  shows "\<exists>out st'. render Map.empty fmt args = Some out \<and> kprintf fmt args st = Some st' \<and>
    printed out st st'"
  using plain_render [OF assms(1), of Map.empty] kprintf_live [of fmt args _ st] assms(2,3)
  by fastforce

section \<open>Properties\<close>

text \<open>Reading a number back from its text.\<close>

definition digit_value :: "u8 \<Rightarrow> nat" where
  "digit_value d = (if d < 58 then unat d - 48 else unat d - 87)"

definition nat_value :: "nat \<Rightarrow> u8 list \<Rightarrow> nat" where
  "nat_value b = foldl (\<lambda>v d. b * v + digit_value d) 0"

definition text_int :: "bool \<Rightarrow> u8 list \<Rightarrow> int" where
  "text_int is_hex bs =
     (let b = (if is_hex then 16 else 10) in
      if take 1 bs = [45] then - int (nat_value b (tl bs)) else int (nat_value b bs))"

lemma digit_of_cases:
  assumes "d < 16"
  shows "digit_value (digit_of d) = d" and "digit_of d \<noteq> 45"
proof -
  have "d \<in> {0, 1, 2, 3, 4, 5, 6, 7, 8, 9, 10, 11, 12, 13, 14, 15}"
    using assms by (simp, arith)
  then show "digit_value (digit_of d) = d" "digit_of d \<noteq> 45"
    by (elim insertE emptyE; hypsubst; simp add: digit_value_def digit_of_def)+
qed

lemma nat_value_text:
  "1 < b \<Longrightarrow> b \<le> 16 \<Longrightarrow>
     nat_value b (nat_text b n) = n \<and> nat_text b n \<noteq> [] \<and> hd (nat_text b n) \<noteq> 45"
proof (induction b n rule: nat_text.induct)
  case (1 b n)
  show ?case
  proof (cases "n < b")
    case True
    then show ?thesis
      using "1.prems" by (subst (1 2 3) nat_text.simps) (simp add: nat_value_def digit_of_cases)
  next
    case False
    have "n mod b < 16" using "1.prems" mod_less_divisor [of b n] by linarith
    then show ?thesis
      using False "1.IH" "1.prems"
      by (subst (1 2 3) nat_text.simps) (simp add: nat_value_def digit_of_cases)
  qed
qed

lemma number_text_value:
  "text_int is_hex (number_text is_hex w) = (if is_hex then uint w else sint w)"
proof -
  have "take 1 (nat_text b n) \<noteq> [45]" if "1 < b" "b \<le> 16" for b n
    using nat_value_text [OF that, of n] by (cases "nat_text b n") auto
  then show ?thesis
    using nat_value_text [of 16] nat_value_text [of 10]
    by (auto simp: text_int_def number_text_def Let_def)
qed

text \<open>
  C27. Round trip of the number formats: for every 32-bit argument, the characters that \<open>%d\<close>
  and \<open>%x\<close> send are at most eleven and read back as its signed value, or its unsigned value
  for \<open>%x\<close>; the most negative \<open>int\<close> is no exception when its negation wraps, as it does on this
  processor (the overflow is undefined in C).
\<close>

theorem print_number_roundtrip:
  assumes "tx_live st"
  shows "\<exists>out st'. print_number is_hex num written st =
      Some (Some (written + of_nat (length out)), st') \<and> printed out st st' \<and>
    length out \<le> 11 \<and> text_int is_hex out = (if is_hex then uint num else sint num)"
  using print_number_live [OF assms, of is_hex num written] number_text_value [of is_hex num]
    length_number_text [of is_hex num] by blast

theorem print_number_roundtrip_witness:
  "\<exists>out st'. print_number False 0x80000000 0 demo_machine =
      Some (Some (of_nat (length out)), st') \<and> printed out demo_machine st' \<and>
    text_int False out = - 2147483648"
  using print_number_roundtrip [of demo_machine False "0x80000000" 0] by auto

text \<open>
  C13. Whatever the format and its arguments are, as long as every \<open>%s\<close> points to a terminated
  string, there is an argument for every conversion and the text fits an \<open>int\<close>, \<open>printf\<close>
  returns the length of the text the reference semantics gives and sends exactly that text.
\<close>

theorem printf_renders:
  assumes "strs_ok (mem st) strs" and "render strs fmt args = Some out" and "tx_live st"
    and "length out \<le> 2147483647"
  shows "\<exists>st'. printf fmt args st = Some (of_nat (length out), st') \<and> printed out st st'"
  using assms by (rule printf_render)

theorem printf_renders_witness:
  "\<exists>st'. printf ''%s=%x%%'' [0xFFFF800000000100, 0xFF]
      (demo_machine\<lparr>mem := (\<lambda>_. 0)(0xFFFF800000000100 := 0x41)\<rparr>) = Some (5, st') \<and>
    printed (lit ''A=ff%'') (demo_machine\<lparr>mem := (\<lambda>_. 0)(0xFFFF800000000100 := 0x41)\<rparr>) st'"
  using printf_renders [of "demo_machine\<lparr>mem := (\<lambda>_. 0)(0xFFFF800000000100 := 0x41)\<rparr>"
      "[0xFFFF800000000100 \<mapsto> [0x41]]" "''%s=%x%%''" "[0xFFFF800000000100, 0xFF]" "lit ''A=ff%''"]
  by (auto simp: strs_ok_def kregion_def khalf_def number_text_def nat_text.simps digit_of_def
      split: if_splits)

end
