(* ===== verification/Pmm.thy ===== *)
theory Pmm
  imports Printf Interfaces "HOL-Library.Signed_Division"
begin

text \<open>
  The physical memory manager (kernel/kernel/pmm.c): a bitmap of 4 KiB blocks, bit set for
  used, kept in an array of 32-bit words at \<open>pmm_bitmap\<close>. The record adds the file's three
  static variables. The lemmas read the bitmap one bit at a time (\<open>blk\<close>), give every
  operation's effect on it, and interpret the allocator as an instance of \<open>block_allocator\<close>,
  the contract its clients use.
\<close>

unbundle bit_operations_syntax

abbreviation BLOCK_SIZE :: u64 where "BLOCK_SIZE \<equiv> 4096"

abbreviation nl :: string where "nl \<equiv> [CHR 0x0A]"

record pmm = machine +
  pmm_bitmap :: u64
  used_blocks :: u64
  max_blocks :: u64

section \<open>The bitmap operations\<close>

text \<open>
  The \<open>int\<close> argument indexes the array with C's truncating division; a shift by a negative
  count is undefined and makes the operation \<open>None\<close>.
\<close>

definition bitmap_word :: "u32 \<Rightarrow> 'a pmm_scheme \<Rightarrow> u64" where
  "bitmap_word bitn st = pmm_bitmap st + 4 * word_of_int (sint bitn sdiv 32)"

definition bitmap_mask :: "u32 \<Rightarrow> u32 option" where
  "bitmap_mask bitn =
     (if sint bitn smod 32 < 0 then None else Some (push_bit (nat (sint bitn smod 32)) 1))"

definition mmap_set :: "u32 \<Rightarrow> 'a pmm_scheme \<Rightarrow> 'a pmm_scheme option" where
  "mmap_set bitn st =
     do {
       w \<leftarrow> ld32 st (bitmap_word bitn st);
       m \<leftarrow> bitmap_mask bitn;
       st32 st (bitmap_word bitn st) (w OR m)
     }"

definition mmap_unset :: "u32 \<Rightarrow> 'a pmm_scheme \<Rightarrow> 'a pmm_scheme option" where
  "mmap_unset bitn st =
     do {
       w \<leftarrow> ld32 st (bitmap_word bitn st);
       m \<leftarrow> bitmap_mask bitn;
       st32 st (bitmap_word bitn st) (w AND NOT m)
     }"

definition mmap_test :: "u32 \<Rightarrow> 'a pmm_scheme \<Rightarrow> u32 option" where
  "mmap_test bitn st =
     do {
       w \<leftarrow> ld32 st (bitmap_word bitn st);
       m \<leftarrow> bitmap_mask bitn;
       Some (w AND m)
     }"

definition pmm_initialize :: "u64 \<Rightarrow> u64 \<Rightarrow> 'a pmm_scheme \<Rightarrow> 'a pmm_scheme option" where
  "pmm_initialize mem_size bitmap_start st =
     do {
       let st = st\<lparr>max_blocks := mem_size div BLOCK_SIZE\<rparr>;
       let st = st\<lparr>used_blocks := max_blocks st\<rparr>;
       let st = st\<lparr>pmm_bitmap := bitmap_start\<rparr>;
       (_, st) \<leftarrow> memset (pmm_bitmap st) 0xFF (max_blocks st div 8) st;
       kprintf (''PMM: Bitmap initialized at 0x%x, tracking %d blocks.'' @ nl)
         [bitmap_start, max_blocks st] st
     }"

fun init_region_loop :: "nat \<Rightarrow> u32 \<Rightarrow> 'a pmm_scheme \<Rightarrow> 'a pmm_scheme option" where
  "init_region_loop 0 align st = Some st"
| "init_region_loop (Suc blocks) align st =
     do {
       st \<leftarrow> mmap_unset align st;
       init_region_loop blocks (align + 1) (st\<lparr>used_blocks := used_blocks st - 1\<rparr>)
     }"

definition pmm_init_region :: "u64 \<Rightarrow> u64 \<Rightarrow> 'a pmm_scheme \<Rightarrow> 'a pmm_scheme option" where
  "pmm_init_region base len st =
     do {
       let align = (ucast (base div BLOCK_SIZE) :: u32);
       let blocks = (ucast (len div BLOCK_SIZE) :: u32);
       st \<leftarrow> init_region_loop (nat (sint blocks)) align st;
       mmap_set 0 st
     }"

fun deinit_region_loop :: "nat \<Rightarrow> u32 \<Rightarrow> 'a pmm_scheme \<Rightarrow> 'a pmm_scheme option" where
  "deinit_region_loop 0 align st = Some st"
| "deinit_region_loop (Suc blocks) align st =
     do {
       st \<leftarrow> mmap_set align st;
       deinit_region_loop blocks (align + 1) (st\<lparr>used_blocks := used_blocks st + 1\<rparr>)
     }"

definition pmm_deinit_region :: "u64 \<Rightarrow> u64 \<Rightarrow> 'a pmm_scheme \<Rightarrow> 'a pmm_scheme option" where
  "pmm_deinit_region base len st =
     do {
       let align = (ucast (base div BLOCK_SIZE) :: u32);
       let blocks = (ucast ((len + BLOCK_SIZE - 1) div BLOCK_SIZE) :: u32);
       deinit_region_loop (nat (sint blocks)) align st
     }"

function alloc_loop :: "u64 \<Rightarrow> 'a pmm_scheme \<Rightarrow> (u64 \<times> 'a pmm_scheme) option" where
  "alloc_loop i st =
     (if i < max_blocks st then
        do {
          t \<leftarrow> mmap_test (ucast i) st;
          if t = 0 then
            do {
              st \<leftarrow> mmap_set (ucast i) st;
              let st = st\<lparr>used_blocks := used_blocks st + 1\<rparr>;
              Some (i * BLOCK_SIZE, st)
            }
          else alloc_loop (i + 1) st
        }
      else
        do {
          st \<leftarrow> kprintf (''PPM: Out of Memory!'' @ nl) [] st;
          Some (0, st)
        })"
  by pat_completeness auto
termination
proof (relation "measure (\<lambda>(i, st). unat (max_blocks st) - unat i)", goal_cases)
  case (2 i st t)
  then show ?case using unat_Suc_less [of i "max_blocks st"] by (simp add: word_less_nat_alt)
qed simp

declare alloc_loop.simps [simp del]

definition pmm_alloc_block :: "'a pmm_scheme \<Rightarrow> (u64 \<times> 'a pmm_scheme) option" where
  "pmm_alloc_block st = alloc_loop 0 st"

definition pmm_free_block :: "u64 \<Rightarrow> 'a pmm_scheme \<Rightarrow> 'a pmm_scheme option" where
  "pmm_free_block addr st =
     do {
       let block = addr div BLOCK_SIZE;
       st \<leftarrow> mmap_unset (ucast block) st;
       Some (st\<lparr>used_blocks := used_blocks st - 1\<rparr>)
     }"

section \<open>Single bits of a byte array\<close>

definition get_bit :: "(u64 \<Rightarrow> u8) \<Rightarrow> u64 \<Rightarrow> nat \<Rightarrow> bool" where
  "get_bit m p i \<longleftrightarrow> bit (m (p + of_nat (i div 8))) (i mod 8)"

definition put_bit :: "(u64 \<Rightarrow> u8) \<Rightarrow> u64 \<Rightarrow> nat \<Rightarrow> bool \<Rightarrow> (u64 \<Rightarrow> u8)" where
  "put_bit m p i b =
     m(p + of_nat (i div 8) :=
         (if b then set_bit (i mod 8) (m (p + of_nat (i div 8)))
          else unset_bit (i mod 8) (m (p + of_nat (i div 8)))))"

lemma of_nat64_eq_iff:
  "i < 2 ^ 64 \<Longrightarrow> j < 2 ^ 64 \<Longrightarrow> (of_nat i :: u64) = of_nat j \<longleftrightarrow> i = j"
  by (metis unat_of_nat64)

lemma get_put_bit [mem_simps]:
  assumes "i < 2 ^ 64" and "j < 2 ^ 64"
  shows "get_bit (put_bit m p i b) p j = (if i = j then b else get_bit m p j)"
proof (cases "i div 8 = j div 8")
  case True
  then have "i = j \<longleftrightarrow> i mod 8 = j mod 8" by (metis div_mod_decomp)
  with True show ?thesis by (auto simp: get_bit_def put_bit_def bit_simps)
next
  case False
  moreover have "(of_nat (i div 8) :: u64) \<noteq> of_nat (j div 8)"
    using False assms by (subst of_nat64_eq_iff) auto
  ultimately show ?thesis by (auto simp: get_bit_def put_bit_def)
qed

lemma put_bit_outside:
  assumes "\<not> within a p n" and "i div 8 < n" and "i < 2 ^ 64"
  shows "put_bit m p i b a = m a"
  using assms by (auto simp: put_bit_def)

text \<open>Setting or clearing a bit of a 32-bit word in memory touches one bit of one byte.\<close>

lemma bit_byte_index:
  fixes n :: nat
  assumes "n < 8"
  shows "8 * j + n = k \<longleftrightarrow> j = k div 8 \<and> n = k mod 8"
  using assms by auto

lemma stw_put_bit:
  assumes "k < 32"
  defines "w \<equiv> \<lambda>m a b. if b then ldw 4 m a OR push_bit k 1 else ldw 4 m a AND NOT (push_bit k 1) :: u32"
  shows "stw 4 m a (w m a b) = put_bit m a k b"
proof (rule ext)
  fix x
  show "stw 4 m a (w m a b) x = put_bit m a k b x"
  proof (cases "within x a 4")
    case True
    then obtain j where j: "j < 4" "x = a + of_nat j" "j < 2 ^ 64" by (rule withinE)
    have "ucast (drop_bit (8 * j) (w m a b)) =
        (if j = k div 8 then if b then set_bit (k mod 8) (m x) else unset_bit (k mod 8) (m x) else m x)"
      (is "_ = ?r")
    proof (rule bit_word_eqI)
      fix n assume n: "n < LENGTH(8)"
      have "bit (ucast (drop_bit (8 * j) (ldw 4 m a :: u32)) :: u8) n = bit (m x) n"
        using j by (subst byte_ldw) simp_all
      then show "bit (ucast (drop_bit (8 * j) (w m a b)) :: u8) n = bit ?r n"
        using n j(1) assms(1) bit_byte_index [of n j k]
        by (auto simp: w_def bit_simps bit_1_iff)
    qed
    then show ?thesis
      using j assms(1) of_nat64_eq_iff [of j "k div 8"]
      by (auto simp: stw_eq put_bit_def unat_of_nat64)
  next
    case False
    then show ?thesis using assms(1) by (simp add: stw_eq put_bit_outside [OF False])
  qed
qed

lemma bit_ldw_get:
  "k < 32 \<Longrightarrow> bit (ldw 4 m a :: u32) k = get_bit m a k"
  by (simp add: bit_ldw get_bit_def)

lemma bit_word_index:
  fixes i :: nat
  shows "4 * (i div 32) + (i mod 32) div 8 = i div 8" and "i mod 32 mod 8 = i mod 8"
proof -
  have "i div 8 = (32 * (i div 32) + i mod 32) div 8" by simp
  also have "\<dots> = 4 * (i div 32) + (i mod 32) div 8"
    using div_mult_self1 [of 8 "i mod 32" "4 * (i div 32)"] by (simp add: ac_simps)
  finally show "4 * (i div 32) + (i mod 32) div 8 = i div 8" by simp
  show "i mod 32 mod 8 = i mod 8" by (simp add: mod_mod_cancel)
qed

lemma put_bit_word: "put_bit m (p + 4 * of_nat (i div 32)) (i mod 32) b = put_bit m p i b"
  and get_bit_word: "get_bit m (p + 4 * of_nat (i div 32)) (i mod 32) = get_bit m p i"
proof -
  have "p + 4 * of_nat (i div 32) + of_nat (i mod 32 div 8) = (p + of_nat (i div 8) :: u64)"
    by (subst bit_word_index(1) [symmetric]) (simp add: add.assoc)
  then show "put_bit m (p + 4 * of_nat (i div 32)) (i mod 32) b = put_bit m p i b"
    "get_bit m (p + 4 * of_nat (i div 32)) (i mod 32) = get_bit m p i"
    by (simp_all only: put_bit_def get_bit_def bit_word_index(2))
qed

section \<open>The operations on one block\<close>

definition blk :: "'a pmm_scheme \<Rightarrow> nat \<Rightarrow> bool" where
  "blk st i \<longleftrightarrow> get_bit (mem st) (pmm_bitmap st) i"

definition mark :: "nat \<Rightarrow> bool \<Rightarrow> 'a pmm_scheme \<Rightarrow> 'a pmm_scheme" where
  "mark i b st = st\<lparr>mem := put_bit (mem st) (pmm_bitmap st) i b\<rparr>"

definition slot_ok :: "'a pmm_scheme \<Rightarrow> nat \<Rightarrow> bool" where
  "slot_ok st i \<longleftrightarrow> i < 2 ^ 31 \<and> kregion (pmm_bitmap st + 4 * of_nat (i div 32)) 4"

lemma bitmap_index:
  assumes "unat x = i" and "i < 2 ^ 31"
  shows "bitmap_word x st = pmm_bitmap st + 4 * of_nat (i div 32)"
    and "bitmap_mask x = Some (push_bit (i mod 32) 1)"
proof -
  have "sint x = int i" using assms by (simp add: sint32_unat)
  then have "sint x sdiv 32 = int (i div 32)" "sint x smod 32 = int (i mod 32)"
    by (cases "i = 0"; simp add: signed_divide_int_def signed_modulo_int_def zdiv_int zmod_int)+
  then show "bitmap_word x st = pmm_bitmap st + 4 * of_nat (i div 32)"
    "bitmap_mask x = Some (push_bit (i mod 32) 1)"
    by (simp_all add: bitmap_word_def bitmap_mask_def)
qed

lemma mmap_set_eq:
  "slot_ok st (unat x) \<Longrightarrow> mmap_set x st = Some (mark (unat x) True st)"
  using stw_put_bit [of "unat x mod 32" "mem st" _ True]
  by (simp add: mmap_set_def slot_ok_def bitmap_index [OF refl] kernel_mem mark_def put_bit_word)

lemma mmap_unset_eq:
  "slot_ok st (unat x) \<Longrightarrow> mmap_unset x st = Some (mark (unat x) False st)"
  using stw_put_bit [of "unat x mod 32" "mem st" _ False]
  by (simp add: mmap_unset_def slot_ok_def bitmap_index [OF refl] kernel_mem mark_def put_bit_word)

lemma mmap_test_eq:
  "slot_ok st (unat x) \<Longrightarrow> \<exists>t. mmap_test x st = Some t \<and> (t = 0 \<longleftrightarrow> \<not> blk st (unat x))"
  using and_exp_eq_0_iff_not_bit
    [of "ldw 4 (mem st) (pmm_bitmap st + 4 * of_nat (unat x div 32)) :: u32" "unat x mod 32"]
  by (simp add: mmap_test_def slot_ok_def bitmap_index [OF refl] kernel_mem blk_def
      push_bit_of_1 bit_ldw_get get_bit_word)

lemma blk_mark [mem_simps]:
  "i < 2 ^ 64 \<Longrightarrow> j < 2 ^ 64 \<Longrightarrow> blk (mark i b st) j = (if i = j then b else blk st j)"
  by (simp add: blk_def mark_def get_put_bit)

lemma mark_frame [frame_simps, simp]:
  "pmm_bitmap (mark i b st) = pmm_bitmap st" "max_blocks (mark i b st) = max_blocks st"
  "used_blocks (mark i b st) = used_blocks st" "cr3 (mark i b st) = cr3 st"
  "hhdm_offset (mark i b st) = hhdm_offset st" "outlog (mark i b st) = outlog st"
  "inputs (mark i b st) = inputs st" "in_pos (mark i b st) = in_pos st"
  by (simp_all add: mark_def)

lemma slot_ok_mark [simp]: "slot_ok (mark j b st) i = slot_ok st i"
  by (simp add: slot_ok_def)

section \<open>The invariant and the free blocks\<close>

definition bitmap_bytes :: "'a pmm_scheme \<Rightarrow> nat" where
  "bitmap_bytes st = 4 * ((unat (max_blocks st) + 31) div 32)"

definition pmm_wf :: "'a pmm_scheme \<Rightarrow> bool" where
  "pmm_wf st \<longleftrightarrow>
     unat (max_blocks st) < 2 ^ 31 \<and> kregion (pmm_bitmap st) (bitmap_bytes st) \<and> tx_live st"

definition free_blocks :: "'a pmm_scheme \<Rightarrow> nat set" where
  "free_blocks st = {i. i < unat (max_blocks st) \<and> \<not> blk st i}"

lemma finite_free_blocks [simp]: "finite (free_blocks st)"
  by (simp add: free_blocks_def)

lemma pmm_wf_slot:
  assumes "pmm_wf st" and "i < unat (max_blocks st)"
  shows "slot_ok st i"
proof -
  have "4 * (i div 32) + 4 \<le> bitmap_bytes st"
    using assms(2) div_le_mono [of "i + 32" "unat (max_blocks st) + 31" 32]
    by (simp add: bitmap_bytes_def div_add_self2)
  then have "kregion (pmm_bitmap st + of_nat (4 * (i div 32))) 4"
    using assms(1) kregion_offset [of "pmm_bitmap st" "bitmap_bytes st" "4 * (i div 32)"]
    by (auto simp: pmm_wf_def intro: kregion_mono)
  then show ?thesis using assms by (simp add: slot_ok_def pmm_wf_def)
qed

lemma pmm_wf_mark [simp]: "pmm_wf (mark i b st) = pmm_wf st"
  by (simp add: pmm_wf_def bitmap_bytes_def tx_live_def)

lemma pmm_wf_used [simp]: "pmm_wf (st\<lparr>used_blocks := u\<rparr>) = pmm_wf st"
  "blk (st\<lparr>used_blocks := u\<rparr>) i = blk st i" "slot_ok (st\<lparr>used_blocks := u\<rparr>) i = slot_ok st i"
  by (simp_all add: pmm_wf_def bitmap_bytes_def tx_live_def blk_def slot_ok_def)

section \<open>Allocation\<close>

lemma unat_ucast_small:
  "unat (i :: u64) < 2 ^ 31 \<Longrightarrow> unat (ucast i :: u32) = unat i"
  by (simp add: unsigned_ucast_eq take_bit_nat_eq_self)

lemma alloc_loop_found:
  assumes "pmm_wf st" and "j \<in> free_blocks st" and "unat i \<le> j"
    and "\<And>k. unat i \<le> k \<Longrightarrow> k < j \<Longrightarrow> blk st k"
  shows "alloc_loop i st =
    Some (of_nat j * BLOCK_SIZE, (mark j True st)\<lparr>used_blocks := used_blocks st + 1\<rparr>)"
  using assms(3,4)
proof (induction "j - unat i" arbitrary: i)
  case 0
  then have j: "unat i = j" by simp
  have i: "i < max_blocks st" "slot_ok st (unat i)" "unat i < 2 ^ 31"
    using assms(1,2) j pmm_wf_slot [OF assms(1), of j]
    by (auto simp: free_blocks_def word_less_nat_alt pmm_wf_def)
  have x: "unat (ucast i :: u32) = unat i" using i(3) by (rule unat_ucast_small)
  then obtain t where "mmap_test (ucast i) st = Some t" "t = 0"
    using mmap_test_eq [of st "ucast i"] i assms(2) j by (auto simp: free_blocks_def)
  moreover have "of_nat j = i" using j by auto
  ultimately show ?case
    using i x j by (subst alloc_loop.simps) (simp add: mmap_set_eq Let_def)
next
  case (Suc d)
  then have lt: "unat i < j" by simp
  have i: "i < max_blocks st" "slot_ok st (unat i)" "unat i < 2 ^ 31"
    using assms(1,2) lt pmm_wf_slot [OF assms(1), of "unat i"]
    by (auto simp: free_blocks_def word_less_nat_alt pmm_wf_def)
  have x: "unat (ucast i :: u32) = unat i" using i(3) by (rule unat_ucast_small)
  then obtain t where t: "mmap_test (ucast i) st = Some t" "t \<noteq> 0"
    using mmap_test_eq [of st "ucast i"] i Suc.prems(2) [of "unat i"] lt by auto
  have "unat (i + 1) = Suc (unat i)" using i(1) by (rule unat_Suc_less)
  then have "alloc_loop (i + 1) st =
      Some (of_nat j * BLOCK_SIZE, (mark j True st)\<lparr>used_blocks := used_blocks st + 1\<rparr>)"
    using Suc by (intro Suc.hyps) auto
  then show ?case using i(1) t by (subst alloc_loop.simps) simp
qed

abbreviation oom_text :: "u8 list" where
  "oom_text \<equiv> lit (''PPM: Out of Memory!'' @ nl)"

lemma alloc_loop_none:
  assumes "pmm_wf st" and "free_blocks st = {}"
  shows "\<exists>st'. alloc_loop i st = Some (0, st') \<and> printed oom_text st st'"
proof (induction "unat (max_blocks st) - unat i" arbitrary: i)
  case 0
  then have "\<not> i < max_blocks st" by (simp add: word_less_nat_alt)
  moreover have "tx_live st" using assms(1) by (simp add: pmm_wf_def)
  ultimately show ?case
    using kprintf_live [of "''PPM: Out of Memory!'' @ nl" "[]" oom_text st]
    by (subst alloc_loop.simps) auto
next
  case (Suc d)
  then have i: "i < max_blocks st" by (simp add: word_less_nat_alt)
  have x: "unat i < unat (max_blocks st)" "unat (ucast i :: u32) = unat i"
    using i assms(1) by (auto simp: word_less_nat_alt pmm_wf_def intro: unat_ucast_small)
  then obtain t where "mmap_test (ucast i) st = Some t" "t \<noteq> 0"
    using mmap_test_eq [of st "ucast i"] pmm_wf_slot [OF assms(1), of "unat i"] assms(2)
    by (auto simp: free_blocks_def)
  moreover have "unat (i + 1) = Suc (unat i)" using i by (rule unat_Suc_less)
  ultimately show ?case
    using Suc.hyps(1) [of "i + 1"] Suc.hyps(2) i by (subst alloc_loop.simps) simp
qed

lemma free_blocks_mark:
  "free_blocks (mark i True st) = free_blocks st - {i}" if "i < 2 ^ 31" "pmm_wf st"
  using that by (auto simp: free_blocks_def blk_mark pmm_wf_def split: if_splits)

lemma free_blocks_used [simp]: "free_blocks (st\<lparr>used_blocks := u\<rparr>) = free_blocks st"
  by (simp add: free_blocks_def)

lemma pmm_alloc_lowest:
  assumes "pmm_wf st" and "free_blocks st \<noteq> {}"
  shows "pmm_alloc_block st = Some (of_nat (Min (free_blocks st)) * BLOCK_SIZE,
    (mark (Min (free_blocks st)) True st)\<lparr>used_blocks := used_blocks st + 1\<rparr>)"
  unfolding pmm_alloc_block_def
proof (rule alloc_loop_found [OF assms(1)])
  show min: "Min (free_blocks st) \<in> free_blocks st" using assms(2) by (intro Min_in) simp_all
  show "blk st k" if "unat (0 :: u64) \<le> k" "k < Min (free_blocks st)" for k
  proof (rule ccontr)
    assume "\<not> blk st k"
    then have "k \<in> free_blocks st" using that(2) min by (simp add: free_blocks_def)
    then have "Min (free_blocks st) \<le> k" by (intro Min_le) simp_all
    then show False using that(2) by simp
  qed
qed simp

lemma printed_pmm:
  assumes "printed out st st'"
  shows "pmm_wf st' = pmm_wf st" "blk st' i = blk st i" "free_blocks st' = free_blocks st"
    "max_blocks st' = max_blocks st" "pmm_bitmap st' = pmm_bitmap st"
    "used_blocks st' = used_blocks st"
  using assms
  by (auto simp: printed_def pmm_wf_def bitmap_bytes_def tx_live_def blk_def free_blocks_def)

interpretation pmm: block_allocator pmm_alloc_block free_blocks pmm_wf
proof unfold_locales
  fix s :: "'a pmm_scheme" and i
  assume wf: "pmm_wf s"
  then have max: "unat (max_blocks s) < 2 ^ 31" by (simp add: pmm_wf_def)
  show "finite (free_blocks s)" by simp
  show "i < 2 ^ 52" if "i \<in> free_blocks s" using that max by (simp add: free_blocks_def)
  show "\<exists>s'. pmm_alloc_block s = Some (of_nat (Min (free_blocks s)) * 4096, s') \<and> pmm_wf s' \<and>
      free_blocks s' = free_blocks s - {Min (free_blocks s)}" if ne: "free_blocks s \<noteq> {}"
  proof -
    have "Min (free_blocks s) \<in> free_blocks s" using ne by (intro Min_in) simp_all
    then have "Min (free_blocks s) < 2 ^ 31" using max by (simp add: free_blocks_def)
    then show ?thesis using pmm_alloc_lowest [OF wf ne] wf by (simp add: free_blocks_mark)
  qed
  show "\<exists>s'. pmm_alloc_block s = Some (0, s') \<and> pmm_wf s' \<and> free_blocks s' = {}"
    if "free_blocks s = {}"
    using alloc_loop_none [OF wf that, of 0] wf that
    by (auto simp: pmm_alloc_block_def printed_pmm)
qed

section \<open>Regions\<close>

fun mark_range :: "nat \<Rightarrow> nat \<Rightarrow> bool \<Rightarrow> 'a pmm_scheme \<Rightarrow> 'a pmm_scheme" where
  "mark_range 0 a b st = st"
| "mark_range (Suc n) a b st = mark_range n (Suc a) b (mark a b st)"

lemma mark_range_frame [frame_simps, simp]:
  "pmm_bitmap (mark_range n a b st) = pmm_bitmap st"
  "max_blocks (mark_range n a b st) = max_blocks st"
  "used_blocks (mark_range n a b st) = used_blocks st"
  "pmm_wf (mark_range n a b st) = pmm_wf st"
  "slot_ok (mark_range n a b st) i = slot_ok st i"
  by (induction n arbitrary: a st) simp_all

lemma blk_mark_range:
  "a + n \<le> 2 ^ 64 \<Longrightarrow> j < 2 ^ 64 \<Longrightarrow>
     blk (mark_range n a b st) j = (if a \<le> j \<and> j < a + n then b else blk st j)"
  by (induction n arbitrary: a st) (auto simp: blk_mark)

lemma mark_used: "mark i b (st\<lparr>used_blocks := u\<rparr>) = (mark i b st)\<lparr>used_blocks := u\<rparr>"
  by (simp add: mark_def)

lemma unat_Suc_small: "unat (x :: u32) < 2 ^ 31 \<Longrightarrow> unat (x + 1) = Suc (unat x)"
  by (rule unat_Suc_less [of x "0x80000000"]) (simp add: word_less_nat_alt)

lemma mark_range_used:
  "mark_range n a b (st\<lparr>used_blocks := u\<rparr>) = (mark_range n a b st)\<lparr>used_blocks := u\<rparr>"
  by (induction n arbitrary: a st) (simp_all add: mark_used)

lemma init_region_loop_eq:
  "(\<And>i. unat x \<le> i \<Longrightarrow> i < unat x + n \<Longrightarrow> slot_ok st i) \<Longrightarrow>
     init_region_loop n x st =
       Some ((mark_range n (unat x) False st)\<lparr>used_blocks := used_blocks st - of_nat n\<rparr>)"
proof (induction n arbitrary: x st)
  case (Suc n)
  have x: "slot_ok st (unat x)" using Suc.prems [of "unat x"] by simp
  then have "unat (x + 1) = Suc (unat x)" by (intro unat_Suc_small) (simp add: slot_ok_def)
  then show ?case
    using Suc.IH [of "x + 1" "(mark (unat x) False st)\<lparr>used_blocks := used_blocks st - 1\<rparr>"]
      Suc.prems x
    by (simp add: mmap_unset_eq diff_diff_eq mark_range_used)
qed simp

lemma deinit_region_loop_eq:
  "(\<And>i. unat x \<le> i \<Longrightarrow> i < unat x + n \<Longrightarrow> slot_ok st i) \<Longrightarrow>
     deinit_region_loop n x st =
       Some ((mark_range n (unat x) True st)\<lparr>used_blocks := used_blocks st + of_nat n\<rparr>)"
proof (induction n arbitrary: x st)
  case (Suc n)
  have x: "slot_ok st (unat x)" using Suc.prems [of "unat x"] by simp
  then have "unat (x + 1) = Suc (unat x)" by (intro unat_Suc_small) (simp add: slot_ok_def)
  then show ?case
    using Suc.IH [of "x + 1" "(mark (unat x) True st)\<lparr>used_blocks := used_blocks st + 1\<rparr>"]
      Suc.prems x
    by (simp add: mmap_set_eq mark_range_used add.assoc)
qed simp

lemma div_to_int:
  assumes "unat (x :: u64) div 4096 < 2 ^ 31"
  shows "unat (ucast (x div BLOCK_SIZE) :: u32) = unat x div 4096"
    and "nat (sint (ucast (x div BLOCK_SIZE) :: u32)) = unat x div 4096"
proof -
  show u: "unat (ucast (x div BLOCK_SIZE) :: u32) = unat x div 4096"
    using assms by (subst unat_ucast_small) (simp_all add: unat_div)
  show "nat (sint (ucast (x div BLOCK_SIZE) :: u32)) = unat x div 4096"
    using assms sint32_unat [of "ucast (x div BLOCK_SIZE) :: u32"] u by (simp del: of_nat_unat)
qed

lemma pmm_init_region_eq:
  assumes "pmm_wf st" and "0 < max_blocks st"
    and "unat base div 4096 + unat len div 4096 \<le> unat (max_blocks st)"
  shows "pmm_init_region base len st =
    Some (mark 0 True ((mark_range (unat len div 4096) (unat base div 4096) False st)
      \<lparr>used_blocks := used_blocks st - of_nat (unat len div 4096)\<rparr>))"
proof -
  have max: "unat (max_blocks st) < 2 ^ 31" using assms(1) by (simp add: pmm_wf_def)
  then have small: "unat base div 4096 < 2 ^ 31" "unat len div 4096 < 2 ^ 31"
    using assms(3) by linarith+
  have "slot_ok st i" if "i < unat base div 4096 + unat len div 4096" for i
    using that assms(1,3) by (intro pmm_wf_slot) simp_all
  moreover have "slot_ok st 0" using assms(1,2) by (intro pmm_wf_slot) (simp_all add: unat_gt_0 word_neq_0_conv)
  moreover have "init_region_loop (unat len div 4096) (ucast (base div BLOCK_SIZE)) st =
      Some ((mark_range (unat len div 4096) (unat base div 4096) False st)
        \<lparr>used_blocks := used_blocks st - of_nat (unat len div 4096)\<rparr>)"
    using init_region_loop_eq [of "ucast (base div BLOCK_SIZE)" "unat len div 4096" st] calculation(1)
    by (simp add: div_to_int [OF small(1)])
  ultimately show ?thesis
    using mmap_set_eq [of "(mark_range (unat len div 4096) (unat base div 4096) False st)
      \<lparr>used_blocks := used_blocks st - of_nat (unat len div 4096)\<rparr>" 0]
    by (simp add: pmm_init_region_def Let_def div_to_int [OF small(1)] div_to_int [OF small(2)])
qed

lemma pmm_init_region_free:
  assumes "pmm_wf st" and "0 < max_blocks st"
    and "unat base div 4096 + unat len div 4096 \<le> unat (max_blocks st)"
  shows "\<exists>st'. pmm_init_region base len st = Some st' \<and> pmm_wf st' \<and>
    max_blocks st' = max_blocks st \<and> pmm_bitmap st' = pmm_bitmap st \<and>
    used_blocks st' = used_blocks st - of_nat (unat len div 4096) \<and>
    free_blocks st' =
      (free_blocks st \<union> {unat base div 4096 ..< unat base div 4096 + unat len div 4096}) - {0}"
proof -
  have max: "unat (max_blocks st) < 2 ^ 31" using assms(1) by (simp add: pmm_wf_def)
  show ?thesis
    using pmm_init_region_eq [OF assms] assms max
    by (auto simp: free_blocks_def blk_mark blk_mark_range mark_used split: if_splits)
qed

lemma pmm_deinit_region_eq:
  assumes "pmm_wf st" and "unat len + 4095 < 2 ^ 64"
    and "unat base div 4096 + (unat len + 4095) div 4096 \<le> unat (max_blocks st)"
  shows "pmm_deinit_region base len st =
    Some ((mark_range ((unat len + 4095) div 4096) (unat base div 4096) True st)
      \<lparr>used_blocks := used_blocks st + of_nat ((unat len + 4095) div 4096)\<rparr>)"
proof -
  have max: "unat (max_blocks st) < 2 ^ 31" using assms(1) by (simp add: pmm_wf_def)
  have "len + BLOCK_SIZE - 1 = len + 4095" by (simp only: add_diff_eq [symmetric]) simp
  moreover have "unat (len + 4095) = unat len + 4095"
    using assms(2) unat_add_lem [of len 4095] by simp
  ultimately have "unat (len + BLOCK_SIZE - 1) = unat len + 4095" by (simp only:)
  then have small: "unat base div 4096 < 2 ^ 31" "unat (len + BLOCK_SIZE - 1) div 4096 < 2 ^ 31"
    and len: "unat (len + BLOCK_SIZE - 1) div 4096 = (unat len + 4095) div 4096"
    using assms(3) max by linarith+
  have "slot_ok st i" if "i < unat base div 4096 + (unat len + 4095) div 4096" for i
    using that assms(1,3) by (intro pmm_wf_slot) simp_all
  then have "deinit_region_loop ((unat len + 4095) div 4096) (ucast (base div BLOCK_SIZE)) st =
      Some ((mark_range ((unat len + 4095) div 4096) (unat base div 4096) True st)
        \<lparr>used_blocks := used_blocks st + of_nat ((unat len + 4095) div 4096)\<rparr>)"
    using deinit_region_loop_eq [of "ucast (base div BLOCK_SIZE)" "(unat len + 4095) div 4096" st]
    by (simp add: div_to_int [OF small(1)])
  then show ?thesis
    unfolding pmm_deinit_region_def Let_def div_to_int(2) [OF small(2)] len .
qed

lemma pmm_deinit_region_free:
  assumes "pmm_wf st" and "unat len + 4095 < 2 ^ 64"
    and "unat base div 4096 + (unat len + 4095) div 4096 \<le> unat (max_blocks st)"
  shows "\<exists>st'. pmm_deinit_region base len st = Some st' \<and> pmm_wf st' \<and>
    max_blocks st' = max_blocks st \<and> pmm_bitmap st' = pmm_bitmap st \<and>
    free_blocks st' =
      free_blocks st - {unat base div 4096 ..< unat base div 4096 + (unat len + 4095) div 4096}"
proof -
  have max: "unat (max_blocks st) < 2 ^ 31" using assms(1) by (simp add: pmm_wf_def)
  show ?thesis
    using pmm_deinit_region_eq [OF assms] assms max
    by (auto simp: free_blocks_def blk_mark_range split: if_splits)
qed

section \<open>Initialisation and freeing\<close>

lemma get_bit_filled:
  assumes "i div 8 < 2 ^ 64"
  shows "get_bit (filled m p n 0xFF) p i \<longleftrightarrow> i div 8 < n \<or> get_bit m p i"
proof -
  have "(0xFF :: u8) = - 1" by simp
  then have "bit (0xFF :: u8) (i mod 8)" by (simp only:) simp
  then show ?thesis using assms by (auto simp: get_bit_def filled_def)
qed

text \<open>
  After \<open>pmm_initialize\<close> the blocks of the bytes \<open>memset\<close> reached are used; the bitmap byte of
  the last \<open>max_blocks mod 8\<close> blocks keeps whatever the memory held.
\<close>

lemma printed_more: "printed out s t \<Longrightarrow> pmm.more t = pmm.more s"
  by (auto simp: printed_def)

lemma pmm_initialize_free:
  assumes "unat mem_size div 4096 < 2 ^ 31"
    and "kregion start (4 * ((unat mem_size div 4096 + 31) div 32))" and "tx_live st"
  shows "\<exists>st'. pmm_initialize mem_size start st = Some st' \<and> pmm_wf st' \<and>
    unat (max_blocks st') = unat mem_size div 4096 \<and> pmm_bitmap st' = start \<and>
    used_blocks st' = max_blocks st' \<and> cr3 st' = cr3 st \<and> hhdm_offset st' = hhdm_offset st \<and>
    pmm.more st' = pmm.more st \<and> mem st' = filled (mem st) start (unat mem_size div 4096 div 8) 0xFF \<and>
    free_blocks st' =
      {i. unat mem_size div 4096 div 8 * 8 \<le> i \<and> i < unat mem_size div 4096 \<and>
          \<not> get_bit (mem st) start i}"
proof -
  let ?n = "unat mem_size div 4096"
  let ?st = "st\<lparr>max_blocks := mem_size div BLOCK_SIZE, used_blocks := mem_size div BLOCK_SIZE,
      pmm_bitmap := start, mem := filled (mem st) start (?n div 8) 0xFF\<rparr>"
  have u: "unat (mem_size div BLOCK_SIZE) = ?n" "unat (mem_size div BLOCK_SIZE div 8) = ?n div 8"
    by (simp_all add: unat_div)
  have "kregion start (unat (mem_size div BLOCK_SIZE div 8))"
    using assms(2) by (rule kregion_mono) (unfold u, linarith)
  then have "memset start 0xFF (mem_size div BLOCK_SIZE div 8)
      (st\<lparr>max_blocks := mem_size div BLOCK_SIZE, used_blocks := mem_size div BLOCK_SIZE,
          pmm_bitmap := start\<rparr>) = Some (start, ?st)"
    by (subst memset_kernel) (simp_all add: u)
  moreover obtain out st' where p: "kprintf (''PMM: Bitmap initialized at 0x%x, tracking %d blocks.'' @ nl)
      [start, mem_size div BLOCK_SIZE] ?st = Some st'" "printed out ?st st'"
    using kprintf_plain [of "''PMM: Bitmap initialized at 0x%x, tracking %d blocks.'' @ nl"
        "[start, mem_size div BLOCK_SIZE]" ?st] assms(3) by (auto simp: tx_live_def)
  ultimately have "pmm_initialize mem_size start st = Some st'"
    by (simp add: pmm_initialize_def Let_def)
  moreover have "pmm_wf ?st"
    using assms by (simp add: pmm_wf_def bitmap_bytes_def u tx_live_def)
  moreover have "free_blocks ?st = {i. ?n div 8 * 8 \<le> i \<and> i < ?n \<and> \<not> get_bit (mem st) start i}"
    using assms(1) get_bit_filled [of _ "mem st" start "?n div 8"]
    by (auto simp: free_blocks_def blk_def u)
  ultimately show ?thesis
    using p(2) by (simp add: printed_pmm printed_frame printed_more u)
qed

lemma pmm_free_block_free:
  assumes "pmm_wf st" and "unat addr div 4096 < unat (max_blocks st)"
  shows "pmm_free_block addr st =
      Some ((mark (unat addr div 4096) False st)\<lparr>used_blocks := used_blocks st - 1\<rparr>)"
    and "free_blocks (mark (unat addr div 4096) False st) =
      insert (unat addr div 4096) (free_blocks st)"
proof -
  have max: "unat (max_blocks st) < 2 ^ 31" using assms(1) by (simp add: pmm_wf_def)
  then have small: "unat addr div 4096 < 2 ^ 31" using assms(2) by simp
  show "pmm_free_block addr st =
      Some ((mark (unat addr div 4096) False st)\<lparr>used_blocks := used_blocks st - 1\<rparr>)"
    using pmm_wf_slot [OF assms] div_to_int [OF small]
    by (simp add: pmm_free_block_def Let_def mmap_unset_eq)
  show "free_blocks (mark (unat addr div 4096) False st) =
      insert (unat addr div 4096) (free_blocks st)"
    using assms(2) max by (auto simp: free_blocks_def blk_mark split: if_splits)
qed

section \<open>Properties\<close>

text \<open>A machine whose bitmap has 64 blocks, all free.\<close>

definition demo_pmm :: pmm where
  "demo_pmm = \<lparr>mem = (\<lambda>_. 0), cr3 = 0, hhdm_offset = 0xFFFF800000000000, outlog = [],
     inputs = (\<lambda>_ _. 0xFF), in_pos = (\<lambda>_. 0),
     pmm_bitmap = 0xFFFF800000001000, used_blocks = 0, max_blocks = 64\<rparr>"

lemma demo_pmm_wf [simp]: "pmm_wf demo_pmm"
  by (simp add: demo_pmm_def pmm_wf_def bitmap_bytes_def kregion_def khalf_def)

lemma demo_pmm_free [simp]: "free_blocks demo_pmm = {..<64}"
  by (auto simp: demo_pmm_def free_blocks_def blk_def get_bit_def)

lemma demo_pmm_simps [simp]:
  "max_blocks demo_pmm = 64" "used_blocks demo_pmm = 0" "mem demo_pmm = (\<lambda>_. 0)"
  "tx_live demo_pmm"
  by (simp_all add: demo_pmm_def)

lemma Min_first: "0 < n \<Longrightarrow> Min {..<n :: nat} = 0" "0 < n \<Longrightarrow> {..<n :: nat} \<noteq> {}"
  by (auto intro: Min_eqI)

lemma bit_0xFF: "bit (0xFF :: u8) (n mod 8)"
proof -
  have "(0xFF :: u8) = - 1" by simp
  then show ?thesis by (simp only:) simp
qed

text \<open>
  C14. Frames handed out are distinct: with \<open>n\<close> free blocks, \<open>n\<close> calls of \<open>pmm_alloc_block\<close>
  in a row all succeed, return the addresses of \<open>n\<close> different blocks that were free, and
  leave all the others free.
\<close>

theorem pmm_alloc_frames_distinct:
  assumes "pmm_wf st" and "n \<le> card (free_blocks st)"
  shows "\<exists>as st'. alloc_many pmm_alloc_block n st = Some (as, st') \<and> length as = n \<and>
    distinct as \<and> set as \<subseteq> block_addr ` free_blocks st \<and> pmm_wf st' \<and>
    card (free_blocks st') = card (free_blocks st) - n"
  using assms by (rule pmm.alloc_many_distinct)

theorem pmm_alloc_frames_distinct_witness:
  "\<exists>as st'. alloc_many pmm_alloc_block 60 demo_pmm = Some (as, st') \<and> length as = 60 \<and>
    distinct as \<and> card (free_blocks st') = 4"
  using pmm_alloc_frames_distinct [of demo_pmm 60] by auto

text \<open>
  C19. \<open>pmm_alloc_block\<close> is first fit on every branch: it marks the lowest free block and returns
  its address, and with no free block it prints the message, returns 0 and changes no block.
  When block 0 is reserved, as \<open>pmm_init_region\<close> leaves it, the result 0 means just that.
\<close>

theorem pmm_alloc_block_first_fit:
  assumes "pmm_wf st"
  shows "\<exists>a st'. pmm_alloc_block st = Some (a, st') \<and> pmm_wf st' \<and>
    (if free_blocks st = {} then a = 0 \<and> free_blocks st' = {} \<and>
       printed (lit (''PPM: Out of Memory!'' @ nl)) st st'
     else a = block_addr (Min (free_blocks st)) \<and> used_blocks st' = used_blocks st + 1 \<and>
       free_blocks st' = free_blocks st - {Min (free_blocks st)}) \<and>
    (0 \<notin> free_blocks st \<longrightarrow> (a = 0 \<longleftrightarrow> free_blocks st = {}))"
proof (cases "free_blocks st = {}")
  case True
  then show ?thesis
    using alloc_loop_none [OF assms True, of 0] assms
    by (auto simp: pmm_alloc_block_def printed_pmm)
next
  case False
  have "Min (free_blocks st) \<in> free_blocks st" using False by (intro Min_in) simp_all
  moreover from this have small: "Min (free_blocks st) < 2 ^ 31"
    using assms by (simp add: free_blocks_def pmm_wf_def)
  moreover have "block_addr i = 0 \<longleftrightarrow> i = 0" if "i < 2 ^ 31" for i
    using that block_addr_inj [of i 0] by (simp add: block_addr_def)
  ultimately show ?thesis
    using False assms pmm_alloc_lowest [OF assms False]
    by (auto simp: block_addr_def free_blocks_mark)
qed

theorem pmm_alloc_block_first_fit_witness:
  "\<exists>st'. pmm_alloc_block demo_pmm = Some (0, st') \<and> free_blocks st' = {1..<64}"
  using pmm_alloc_block_first_fit [of demo_pmm]
  by (auto simp: block_addr_def Min_first)

lemma mark_undo: "\<not> blk st i \<Longrightarrow> mark i False (mark i True st) = st"
proof -
  assume free: "\<not> blk st i"
  have "unset_bit n (set_bit n w) = w" if "\<not> bit w n" for n and w :: u8
    using that by (intro bit_word_eqI) (auto simp: bit_simps)
  then have "put_bit (put_bit (mem st) (pmm_bitmap st) i True) (pmm_bitmap st) i False = mem st"
    using free by (simp add: put_bit_def blk_def get_bit_def)
  then show ?thesis by (simp add: mark_def)
qed

text \<open>
  Freeing what was just allocated undoes it: memory, counters and bitmap are those before
  the allocation.
\<close>

lemma pmm_alloc_free_roundtrip:
  assumes "pmm_wf st" and "free_blocks st \<noteq> {}"
  shows "\<exists>a st'. pmm_alloc_block st = Some (a, st') \<and> pmm_free_block a st' = Some st"
proof -
  let ?i = "Min (free_blocks st)"
  let ?st = "(mark ?i True st)\<lparr>used_blocks := used_blocks st + 1\<rparr>"
  have i: "?i \<in> free_blocks st" using assms(2) by (intro Min_in) simp_all
  then have bound: "?i < unat (max_blocks st)" "\<not> blk st ?i" by (simp_all add: free_blocks_def)
  then have "unat (block_addr ?i) div 4096 = ?i"
    using assms(1) by (subst unat_block_addr) (simp_all add: pmm_wf_def)
  then have "pmm_free_block (block_addr ?i) ?st = Some st"
    using pmm_free_block_free(1) [of ?st "block_addr ?i"] assms(1) bound mark_undo [OF bound(2)]
    by (simp add: mark_used)
  then show ?thesis using pmm_alloc_lowest [OF assms] by (simp add: block_addr_def)
qed

lemma pmm_alloc_free_roundtrip_witness:
  "\<exists>a st'. pmm_alloc_block demo_pmm = Some (a, st') \<and> pmm_free_block a st' = Some demo_pmm"
  by (rule pmm_alloc_free_roundtrip) (simp_all add: Min_first)

text \<open>
  \<open>pmm_init_region\<close> frees exactly the whole blocks its size counts from the block of its
  base, and never block 0; for an aligned base every freed block lies inside the region.
\<close>

lemma pmm_init_region_frees:
  assumes "pmm_wf st" and "0 < max_blocks st"
    and "unat base div 4096 + unat len div 4096 \<le> unat (max_blocks st)"
  shows "\<exists>st'. pmm_init_region base len st = Some st' \<and> pmm_wf st' \<and>
    free_blocks st' =
      (free_blocks st \<union> {unat base div 4096 ..< unat base div 4096 + unat len div 4096}) - {0} \<and>
    (4096 dvd unat base \<longrightarrow> (\<forall>i\<in>free_blocks st' - free_blocks st.
       unat base \<le> 4096 * i \<and> 4096 * i + 4096 \<le> unat base + unat len))"
proof -
  have "4096 * i + 4096 \<le> unat base + unat len" if dvd: "4096 dvd unat base"
    and i: "i < unat base div 4096 + unat len div 4096" for i
  proof -
    obtain b where b: "unat base = 4096 * b" using dvd by (rule dvdE)
    have "4096 * (unat len div 4096) \<le> unat len" by simp
    then show ?thesis using i b by simp
  qed
  then show ?thesis using pmm_init_region_free [OF assms] by (auto elim!: dvdE)
qed

lemma pmm_init_region_frees_witness:
  "\<exists>st'. pmm_init_region 0x3000 0x2FFF (demo_pmm\<lparr>mem := \<lambda>_. 0xFF\<rparr>) = Some st' \<and>
    free_blocks st' = {3, 4}"
proof -
  let ?st = "demo_pmm\<lparr>mem := \<lambda>_. 0xFF\<rparr>"
  have "free_blocks ?st = {}"
    unfolding free_blocks_def blk_def get_bit_def using bit_0xFF by auto
  moreover have "pmm_wf ?st" "max_blocks ?st = 64"
    by (simp_all add: demo_pmm_def pmm_wf_def bitmap_bytes_def kregion_def khalf_def)
  ultimately show ?thesis
    using pmm_init_region_frees [of ?st "0x3000" "0x2FFF"] by auto
qed

text \<open>
  \<open>pmm_deinit_region\<close> reserves the blocks its size, rounded up, counts from the block of
  its base and no other, so for an aligned base no block that meets the region stays free.
\<close>

lemma pmm_deinit_region_reserves:
  assumes "pmm_wf st" and "unat len + 4095 < 2 ^ 64"
    and "unat base div 4096 + (unat len + 4095) div 4096 \<le> unat (max_blocks st)"
  shows "\<exists>st'. pmm_deinit_region base len st = Some st' \<and> pmm_wf st' \<and>
    free_blocks st' =
      free_blocks st - {unat base div 4096 ..< unat base div 4096 + (unat len + 4095) div 4096} \<and>
    (4096 dvd unat base \<longrightarrow>
       (\<forall>i\<in>free_blocks st'. 4096 * i + 4096 \<le> unat base \<or> unat base + unat len \<le> 4096 * i))"
proof -
  have "4096 * i + 4096 \<le> unat base \<or> unat base + unat len \<le> 4096 * i"
    if dvd: "4096 dvd unat base"
      and i: "i \<notin> {unat base div 4096 ..< unat base div 4096 + (unat len + 4095) div 4096}" for i
  proof -
    obtain b where b: "unat base = 4096 * b" using dvd by (rule dvdE)
    have "unat len \<le> 4096 * ((unat len + 4095) div 4096)" by linarith
    then show ?thesis using i b by auto
  qed
  then show ?thesis using pmm_deinit_region_free [OF assms] by auto
qed

lemma pmm_deinit_region_reserves_witness:
  "\<exists>st'. pmm_deinit_region 0x1000 0x1001 demo_pmm = Some st' \<and>
    free_blocks st' = insert 0 {3..<64}"
proof -
  have arith: "unat (0x1001 :: u64) = 4097" "unat (0x1000 :: u64) div 4096 = 1"
    "(4097 + 4095) div 4096 = (2 :: nat)" "unat (64 :: u64) = 64" by simp_all
  have set: "{..<64} - {1..<1 + 2} = insert 0 {3..<64 :: nat}" by auto
  have le: "4097 + 4095 < (2 :: nat) ^ 64" "1 + 2 \<le> (64 :: nat)" by simp_all
  from pmm_deinit_region_reserves [of demo_pmm "0x1001" "0x1000",
      unfolded arith demo_pmm_simps(1) demo_pmm_free set, OF demo_pmm_wf le]
  show ?thesis by blast
qed

text \<open>
  C30. \<open>pmm_initialize\<close> reserves every block of the first \<open>max_blocks div 8\<close> bitmap bytes and
  writes nothing else; when \<open>max_blocks\<close> is not a multiple of 8, each block of the last,
  partial byte is free or not as the memory happened to be, though the counter calls it used.
\<close>

theorem pmm_initialize_reserves:
  assumes "unat mem_size div 4096 < 2 ^ 31"
    and "kregion start (4 * ((unat mem_size div 4096 + 31) div 32))" and "tx_live st"
  shows "\<exists>st'. pmm_initialize mem_size start st = Some st' \<and> pmm_wf st' \<and>
    unat (max_blocks st') = unat mem_size div 4096 \<and> used_blocks st' = max_blocks st' \<and>
    mem st' = filled (mem st) start (unat mem_size div 4096 div 8) 0xFF \<and>
    free_blocks st' = {i. unat mem_size div 4096 div 8 * 8 \<le> i \<and> i < unat mem_size div 4096 \<and>
      \<not> get_bit (mem st) start i}"
  using pmm_initialize_free [OF assms] by blast

theorem pmm_initialize_reserves_witness:
  "\<exists>st'. pmm_initialize 0xB000 0xFFFF800000001000 demo_pmm = Some st' \<and>
    used_blocks st' = max_blocks st' \<and> free_blocks st' = {8, 9, 10}"
proof -
  have 11: "unat (0xB000 :: u64) div 4096 = 11" by simp
  have set: "{i. 8 \<le> i \<and> i < (11 :: nat) \<and> \<not> get_bit (\<lambda>_. 0) p i} = {8, 9, 10}" for p
    by (auto simp: get_bit_def)
  have arith: "(11 :: nat) < 2 ^ 31" "4 * ((11 + 31) div 32) = (4 :: nat)"
    "11 div 8 * 8 = (8 :: nat)" by simp_all
  have "kregion 0xFFFF800000001000 4" by (simp add: kregion_def khalf_def)
  from pmm_initialize_reserves [of "0xB000" "0xFFFF800000001000" demo_pmm,
      unfolded 11 arith(2,3) demo_pmm_simps(1-3) set, OF arith(1) this demo_pmm_simps(4)]
  show ?thesis by blast
qed

end
