(* ===== verification/Vmm.thy ===== *)
theory Vmm
  imports Pmm
begin

text \<open>
  The virtual memory manager (kernel/arch/x86_64/vmm.c): four levels of page tables built in
  frames of the PMM and accessed through the direct map. What a mapping means is the
  hardware's walk of \<open>Machine\<close>. The invariant \<open>vm_wf I\<close> says that the tables below the
  PML4 entries of \<open>I\<close> form a tree of distinct frames that are neither free nor part of the
  PMM's bitmap; \<open>I\<close> leaves out the entries the boot loader built, which the code only copies.
\<close>

unbundle bit_operations_syntax

section \<open>vmm.c\<close>

text \<open>
  \<open>invlpg\<close> only drops a cached translation; the model's walk reads the tables themselves.
\<close>

definition vmm_flush_tlb_entry :: "u64 \<Rightarrow> 'a pmm_scheme \<Rightarrow> 'a pmm_scheme" where
  "vmm_flush_tlb_entry addr st = st"

definition get_active_page_dir :: "'a machine_scheme \<Rightarrow> u64" where
  "get_active_page_dir st = cr3 st AND 0x000FFFFFFFFFF000"

fun vmm_clear_loop :: "nat \<Rightarrow> u64 \<Rightarrow> u64 \<Rightarrow> 'a pmm_scheme \<Rightarrow> 'a pmm_scheme option" where
  "vmm_clear_loop 0 new_pml4 i st = Some st"
| "vmm_clear_loop (Suc n) new_pml4 i st =
     do {
       st \<leftarrow> st64 st (new_pml4 + 8 * i) 0;
       vmm_clear_loop n new_pml4 (i + 1) st
     }"

fun vmm_copy_loop :: "nat \<Rightarrow> u64 \<Rightarrow> u64 \<Rightarrow> u64 \<Rightarrow> 'a pmm_scheme \<Rightarrow> 'a pmm_scheme option" where
  "vmm_copy_loop 0 new_pml4 old_pml4 i st = Some st"
| "vmm_copy_loop (Suc n) new_pml4 old_pml4 i st =
     do {
       e \<leftarrow> ld64 st (old_pml4 + 8 * i);
       st \<leftarrow> st64 st (new_pml4 + 8 * i) e;
       vmm_copy_loop n new_pml4 old_pml4 (i + 1) st
     }"

definition vmm_initialize :: "'a pmm_scheme \<Rightarrow> 'a pmm_scheme option" where
  "vmm_initialize st =
     do {
       let old_pml4 = get_active_page_dir st + hhdm_offset st;
       (new_pml4_phys, st) \<leftarrow> pmm_alloc_block st;
       let new_pml4 = new_pml4_phys + hhdm_offset st;
       st \<leftarrow> vmm_clear_loop 512 new_pml4 0 st;
       st \<leftarrow> vmm_copy_loop 256 new_pml4 old_pml4 256 st;
       let st = st\<lparr>cr3 := new_pml4_phys\<rparr>;
       kprintf (''VMM: Switched to clean 64-bit page table!'' @ nl) [] st
     }"

text \<open>
  The step the function repeats for the PDPT, the PD and the PT (lines 43-49, 50-56, 57-63):
  make the entry point to a table, a new zeroed one if it is not present, and return where
  that table is accessed.
\<close>

definition vmm_next_table :: "u64 \<Rightarrow> u64 \<Rightarrow> 'a pmm_scheme \<Rightarrow> (u64 \<times> 'a pmm_scheme) option" where
  "vmm_next_table table idx st =
     do {
       e \<leftarrow> ld64 st (table + 8 * idx);
       st \<leftarrow> (if e AND 0x1 = 0 then
                do {
                  (new_table, st) \<leftarrow> pmm_alloc_block st;
                  (_, st) \<leftarrow> memset (new_table + hhdm_offset st) 0 4096 st;
                  st64 st (table + 8 * idx) (new_table OR 0x7)
                }
              else Some st);
       e \<leftarrow> ld64 st (table + 8 * idx);
       Some ((e AND 0x000FFFFFFFFFF000) + hhdm_offset st, st)
     }"

definition vmm_map_page :: "u64 \<Rightarrow> u64 \<Rightarrow> u64 \<Rightarrow> 'a pmm_scheme \<Rightarrow> 'a pmm_scheme option" where
  "vmm_map_page phys virt flags st =
     do {
       let pml4 = get_active_page_dir st + hhdm_offset st;
       let pml4_idx = drop_bit 39 virt AND 0x1FF;
       let pdpt_idx = drop_bit 30 virt AND 0x1FF;
       let pd_idx = drop_bit 21 virt AND 0x1FF;
       let pt_idx = drop_bit 12 virt AND 0x1FF;
       (pdpt, st) \<leftarrow> vmm_next_table pml4 pml4_idx st;
       (pd, st) \<leftarrow> vmm_next_table pdpt pdpt_idx st;
       (pt, st) \<leftarrow> vmm_next_table pd pd_idx st;
       st \<leftarrow> st64 st (pt + 8 * pt_idx)
              ((phys AND 0x000FFFFFFFFFF000) OR (flags AND 0xFFF) OR 0x1);
       Some (vmm_flush_tlb_entry virt st)
     }"

section \<open>Pages of the direct map\<close>

text \<open>
  \<open>pg h x\<close> is the number of the block that the direct map shows at \<open>x\<close>. A frame is an
  aligned physical address; its page in the direct map is the set of \<open>x\<close> with its number.
\<close>

definition pg :: "u64 \<Rightarrow> u64 \<Rightarrow> nat" where
  "pg h x = unat (x - h) div 4096"

definition aligned :: "u64 \<Rightarrow> bool" where
  "aligned t \<longleftrightarrow> 4096 dvd unat t"

definition bno :: "u64 \<Rightarrow> nat" where
  "bno t = unat t div 4096"

lemma aligned_unat: "aligned t \<Longrightarrow> unat t = 4096 * bno t"
  by (simp add: aligned_def bno_def)

lemma aligned_bound: "aligned t \<Longrightarrow> unat t + 4096 \<le> 2 ^ 64"
proof -
  assume "aligned t"
  then have "unat t = 4096 * bno t" by (rule aligned_unat)
  moreover have "unat t < 2 ^ 64" by simp
  ultimately show ?thesis by simp
qed

lemma within_page:
  assumes "aligned t"
  shows "within x (t + h) 4096 \<longleftrightarrow> pg h x = bno t"
proof
  assume "within x (t + h) 4096"
  then obtain i where i: "i < 4096" "x = t + h + of_nat i" by (rule withinE)
  have "unat (of_nat i :: u64) = i" using i(1) by (intro unat_of_nat64) simp
  then have "unat (t + of_nat i) = unat t + i"
    using unat_add_lem [of t "of_nat i"] aligned_bound [OF assms] i(1) by simp
  moreover have "x - h = t + of_nat i" using i(2) by simp
  ultimately show "pg h x = bno t"
    using aligned_unat [OF assms] i(1) by (simp add: pg_def)
next
  assume "pg h x = bno t"
  then have le: "unat t \<le> unat (x - h)" and lt: "unat (x - h) < unat t + 4096"
    using aligned_unat [OF assms] unfolding pg_def by linarith+
  have "unat ((x - h) - t) = unat (x - h) - unat t"
    using le by (intro unat_sub) (simp add: word_le_nat_alt)
  moreover have eq: "x - (t + h) = (x - h) - t" by simp
  ultimately show "within x (t + h) 4096"
    using le lt unfolding within_def eq by linarith
qed

lemma aligned_block [simp]: "i < 2 ^ 52 \<Longrightarrow> aligned (block_addr i)"
  and bno_block [simp]: "i < 2 ^ 52 \<Longrightarrow> bno (block_addr i) = i"
  by (simp_all add: aligned_def bno_def unat_block_addr)

lemma aligned_inj: "aligned s \<Longrightarrow> aligned t \<Longrightarrow> bno s = bno t \<Longrightarrow> s = t"
  by (metis aligned_unat word_unat_eq_iff)

section \<open>Entries\<close>

lemma entry_addr_page:
  assumes "aligned t" and "i < 512" and "within x (entry_addr h t i) 8"
  shows "pg h x = bno t"
proof -
  obtain k where k: "k < 8" "x = entry_addr h t i + of_nat k" using assms(3) by (rule withinE)
  then have x: "x = t + h + of_nat (8 * i + k)" by (simp add: entry_addr_def)
  have "8 * i + k < 4096" using k(1) assms(2) by simp
  then have "within x (t + h) 4096" unfolding x by (subst within_offset) simp_all
  then show ?thesis by (simp add: within_page [OF assms(1)])
qed

lemma entry_at_cong:
  assumes "aligned t" and "i < 512" and "\<And>x. pg h x = bno t \<Longrightarrow> m x = m' x"
  shows "entry_at m h t i = entry_at m' h t i"
  unfolding entry_at_def using assms entry_addr_page by (intro ldw_cong) blast

lemma kregion_entry:
  assumes "kregion (t + h) 4096" and "i < 512"
  shows "kregion (entry_addr h t i) 8"
proof -
  have "kregion (t + h + of_nat (8 * i)) (4096 - 8 * i)"
    using assms by (intro kregion_offset) simp_all
  then have "kregion (t + h + of_nat (8 * i)) 8" by (rule kregion_mono) (use assms(2) in simp)
  then show ?thesis by (simp add: entry_addr_def)
qed

lemma entry_at_same [simp]: "entry_at (stw 8 m (entry_addr h t i) v) h t i = (v :: u64)"
  by (simp add: entry_at_def ldw_stw_same)

lemma entry_at_other:
  assumes "i < 512" and "j < 512" and "i \<noteq> j"
  shows "entry_at (stw 8 m (entry_addr h t i) (v :: u64)) h t j = entry_at m h t j"
  unfolding entry_at_def
proof (rule ldw_stw_other)
  fix c assume "within c (entry_addr h t j) 8"
  then obtain k where k: "k < 8" "c = entry_addr h t j + of_nat k" by (rule withinE)
  show "\<not> within c (entry_addr h t i) 8"
  proof
    assume "within c (entry_addr h t i) 8"
    then obtain l where l: "l < 8" "c = entry_addr h t i + of_nat l" by (rule withinE)
    have "(of_nat (8 * j + k) :: u64) = of_nat (8 * i + l)"
      using k(2) l(2) by (simp add: entry_addr_def)
    then have "8 * j + k = 8 * i + l"
      using assms k(1) l(1) by (subst (asm) of_nat64_eq_iff) simp_all
    then show False using assms(3) k(1) l(1) by presburger
  qed
qed simp

lemma entry_at_filled:
  assumes "aligned t" and "i < 512"
  shows "entry_at (filled m (t + h) 4096 0) h t i = 0"
proof -
  have "ldw 8 (filled m (t + h) 4096 0) (entry_addr h t i) = ldw 8 (\<lambda>x. 0) (entry_addr h t i)"
    using assms entry_addr_page [OF assms] by (intro ldw_cong) (simp add: filled_def within_page)
  also have "\<dots> = (0 :: u64)" by (rule bit_word_eqI) (simp add: bit_ldw)
  finally show ?thesis by (simp add: entry_at_def)
qed

lemma bit_entry_mask: "bit entry_mask n \<longleftrightarrow> 12 \<le> n \<and> n < 52"
proof -
  have eq: "entry_mask = push_bit 12 (mask 40)" by (simp add: mask_eq_exp_minus_1)
  show ?thesis unfolding eq bit_push_bit_iff bit_mask_iff by auto
qed

lemma aligned_masked [simp]: "aligned (x AND entry_mask)"
proof -
  have "x AND entry_mask = push_bit 12 (drop_bit 12 x AND mask 40)"
    by (rule bit_word_eqI, unfold bit_and_iff bit_entry_mask bit_push_bit_iff)
      (auto simp: bit_drop_bit_eq bit_mask_iff)
  then have "unat (x AND entry_mask) = unat (push_bit 12 (drop_bit 12 x AND mask 40 :: u64))"
    by (simp only:)
  also have "\<dots> = (unat (drop_bit 12 x AND mask 40 :: u64) * 4096) mod 2 ^ 64"
    by (simp add: push_bit_eq_mult unat_word_ariths)
  finally show ?thesis unfolding aligned_def by (simp add: dvd_mod)
qed

lemma block_addr_masked:
  assumes "i < 2 ^ 40"
  shows "block_addr i AND entry_mask = block_addr i"
proof -
  have eq: "block_addr i = push_bit 12 (of_nat i)" by (simp add: block_addr_def push_bit_eq_mult)
  have small: "\<not> bit (of_nat i :: u64) n" if "40 \<le> n" for n
  proof -
    have "i < 2 ^ n" using assms power_increasing [OF that, of "2 :: nat"] by simp
    then have "\<not> bit i n" by (simp add: bit_iff_odd)
    then show ?thesis by (simp add: bit_of_nat_iff)
  qed
  show ?thesis
    unfolding eq
  proof (rule bit_word_eqI)
    fix n assume "n < LENGTH(64)"
    show "bit (push_bit 12 (of_nat i) AND entry_mask) n = bit (push_bit 12 (of_nat i) :: u64) n"
      unfolding bit_and_iff bit_entry_mask bit_push_bit_iff using small [of "n - 12"]
      by (cases "40 \<le> n - 12") auto
  qed
qed

lemma new_entry:
  assumes "i < 2 ^ 40"
  shows "present (block_addr i OR 7)" and "(block_addr i OR 7) AND entry_mask = block_addr i"
proof -
  have 7: "(7 :: u64) = mask 3" by (simp add: mask_eq_exp_minus_1)
  show "present (block_addr i OR 7)" by (simp only: 7 bit_simps) simp
  have "(7 :: u64) AND entry_mask = 0" by simp
  then show "(block_addr i OR 7) AND entry_mask = block_addr i"
    using block_addr_masked [OF assms] by (simp add: bit.conj_disj_distrib2)
qed

section \<open>The tree of tables\<close>

text \<open>
  \<open>pte m h r q\<close> is the present entry at the end of the path \<open>q\<close>: the address of the next table
  for a short path, the page's own entry for one of length four.
\<close>

fun pte :: "(u64 \<Rightarrow> u8) \<Rightarrow> u64 \<Rightarrow> u64 \<Rightarrow> nat list \<Rightarrow> u64 option" where
  "pte m h r [] = None"
| "pte m h r (i # p) =
     (case tbl m h r p of
        None \<Rightarrow> None
      | Some t \<Rightarrow> if present (entry_at m h t i) then Some (entry_at m h t i) else None)"

lemma tbl_pte: "q \<noteq> [] \<Longrightarrow> tbl m h r q = map_option (\<lambda>e. e AND entry_mask) (pte m h r q)"
  by (cases q) (auto simp: Let_def split: option.splits)

definition lpath :: "nat set \<Rightarrow> nat list \<Rightarrow> bool" where
  "lpath I p \<longleftrightarrow> length p \<le> 4 \<and> (\<forall>i\<in>set p. i < 512) \<and> (p \<noteq> [] \<longrightarrow> last p \<in> I)"

definition vpath :: "nat set \<Rightarrow> nat list \<Rightarrow> bool" where
  "vpath I p \<longleftrightarrow> lpath I p \<and> length p \<le> 3"

lemma lpath_Cons: "lpath I (j # q) \<Longrightarrow> vpath I q \<and> j < 512"
  by (auto simp: lpath_def vpath_def split: if_splits)

lemma vpath_Cons: "vpath I p \<Longrightarrow> i < 512 \<Longrightarrow> (p = [] \<longrightarrow> i \<in> I) \<Longrightarrow> lpath I (i # p)"
  by (auto simp: lpath_def vpath_def)

lemma tbl_aligned: "aligned r \<Longrightarrow> tbl m h r p = Some t \<Longrightarrow> aligned t"
  by (cases p) (auto simp: Let_def split: option.splits if_splits)

text \<open>
  Writing one entry of a table in the tree, to a fresh zeroed table or in a last-level table,
  changes what the walk finds at that path and nowhere else.
\<close>

lemma pte_set:
  assumes p: "vpath I p" "tbl m h r p = Some t"
    and inj: "\<And>q q' s. vpath I q \<Longrightarrow> vpath I q' \<Longrightarrow> tbl m h r q = Some s \<Longrightarrow>
      tbl m h r q' = Some s \<Longrightarrow> q = q'"
    and same: "\<And>q s j. vpath I q \<Longrightarrow> tbl m h r q = Some s \<Longrightarrow> j < 512 \<Longrightarrow>
      s \<noteq> t \<or> j \<noteq> i \<Longrightarrow> entry_at m' h s j = entry_at m h s j"
    and new: "entry_at m' h t i = e" "present e"
    and fresh: "length p < 3 \<Longrightarrow> pte m h r (i # p) = None \<and>
      (\<forall>j<512. entry_at m' h (e AND entry_mask) j = 0)"
    and q: "lpath I q"
  shows "pte m' h r q = (if q = i # p then Some e else pte m h r q)"
  using q
proof (induction q)
  case (Cons j q)
  then have vq: "vpath I q" "j < 512" using lpath_Cons by blast+
  have lq: "lpath I q" using vq(1) by (simp add: vpath_def)
  have IH: "tbl m' h r q = (if q = i # p then Some (e AND entry_mask) else tbl m h r q)"
    using Cons.IH [OF lq] by (cases "q = []") (auto simp: tbl_pte)
  show ?case
  proof (cases "q = i # p")
    case True
    then have "length p < 3" using vq(1) by (simp add: vpath_def)
    note fr = fresh [OF this]
    then have "tbl m h r q = None" using True tbl_pte [of q m h r] by simp
    then show ?thesis using IH True fr vq(2) by simp
  next
    case False
    then have eq: "tbl m' h r q = tbl m h r q" using IH by simp
    show ?thesis
    proof (cases "tbl m h r q")
      case None
      then show ?thesis using eq p(2) by auto
    next
      case (Some s)
      show ?thesis
      proof (cases "s = t \<and> j = i")
        case True
        then have "q = p" using inj [OF vq(1) p(1) _ p(2)] Some by simp
        then show ?thesis using True p(2) new eq by simp
      next
        case False
        then have "entry_at m' h s j = entry_at m h s j" using same [OF vq(1) Some vq(2)] by blast
        moreover have "j # q \<noteq> i # p" using False p(2) Some by auto
        ultimately show ?thesis using eq Some by auto
      qed
    qed
  qed
qed simp

section \<open>The invariant\<close>

abbreviation root :: "'a machine_scheme \<Rightarrow> u64" where
  "root st \<equiv> cr3 st AND entry_mask"

definition table :: "'a machine_scheme \<Rightarrow> nat list \<Rightarrow> u64 option" where
  "table st p = tbl (mem st) (hhdm_offset st) (root st) p"

definition entry :: "'a machine_scheme \<Rightarrow> nat list \<Rightarrow> u64 option" where
  "entry st p = pte (mem st) (hhdm_offset st) (root st) p"

definition tabs :: "nat set \<Rightarrow> 'a machine_scheme \<Rightarrow> nat set" where
  "tabs I st = {bno t | t p. vpath I p \<and> table st p = Some t}"

definition bitmap_pages :: "'a pmm_scheme \<Rightarrow> nat set" where
  "bitmap_pages st = pg (hhdm_offset st) ` {x. within x (pmm_bitmap st) (bitmap_bytes st)}"

definition reachable_page :: "'a machine_scheme \<Rightarrow> nat \<Rightarrow> bool" where
  "reachable_page st i \<longleftrightarrow> i < 2 ^ 52 \<and> kregion (block_addr i + hhdm_offset st) 4096"

definition vm_wf :: "nat set \<Rightarrow> 'a pmm_scheme \<Rightarrow> bool" where
  "vm_wf I st \<longleftrightarrow> pmm_wf st \<and>
     (\<forall>p q t. vpath I p \<longrightarrow> vpath I q \<longrightarrow> table st p = Some t \<longrightarrow> table st q = Some t \<longrightarrow> p = q) \<and>
     (\<forall>i \<in> tabs I st \<union> free_blocks st. reachable_page st i) \<and>
     tabs I st \<inter> free_blocks st = {} \<and>
     (tabs I st \<union> free_blocks st) \<inter> bitmap_pages st = {}"

text \<open>Memory the memory managers do not own: neither free, nor a table, nor the bitmap.\<close>

definition foreign :: "nat set \<Rightarrow> 'a pmm_scheme \<Rightarrow> u64 \<Rightarrow> bool" where
  "foreign I st x \<longleftrightarrow>
     pg (hhdm_offset st) x \<notin> free_blocks st \<union> tabs I st \<union> bitmap_pages st"

text \<open>
  \<open>vm_ext I n st st'\<close>: \<open>st'\<close> comes from \<open>st\<close> by operations that took at most \<open>n\<close> frames, kept
  the invariant and touched no foreign memory.
\<close>

definition vm_ext :: "nat set \<Rightarrow> nat \<Rightarrow> 'a pmm_scheme \<Rightarrow> 'a pmm_scheme \<Rightarrow> bool" where
  "vm_ext I n st st' \<longleftrightarrow> vm_wf I st' \<and>
     (\<exists>m u. st' = st\<lparr>mem := m, used_blocks := u\<rparr>) \<and>
     free_blocks st' \<subseteq> free_blocks st \<and> card (free_blocks st) \<le> card (free_blocks st') + n \<and>
     (\<forall>x. foreign I st x \<longrightarrow> mem st' x = mem st x \<and> foreign I st' x)"

lemma vm_ext_frame:
  assumes "vm_ext I n st st'"
  shows "cr3 st' = cr3 st" "hhdm_offset st' = hhdm_offset st" "pmm_bitmap st' = pmm_bitmap st"
    "max_blocks st' = max_blocks st" "outlog st' = outlog st" "vm_wf I st'"
    "bitmap_pages st' = bitmap_pages st"
  using assms by (auto simp: vm_ext_def bitmap_pages_def bitmap_bytes_def)

lemma vm_ext_refl: "vm_wf I st \<Longrightarrow> vm_ext I n st st"
proof -
  assume "vm_wf I st"
  moreover have "st = st\<lparr>mem := mem st, used_blocks := used_blocks st\<rparr>" by simp
  ultimately show ?thesis unfolding vm_ext_def by (metis le_add1 order_refl)
qed

lemma vm_ext_trans:
  "vm_ext I a st st' \<Longrightarrow> vm_ext I b st' st'' \<Longrightarrow> vm_ext I (a + b) st st''"
  unfolding vm_ext_def by (elim conjE exE, intro conjI) fastforce+

lemma vm_ext_mono: "vm_ext I a st st' \<Longrightarrow> a \<le> b \<Longrightarrow> vm_ext I b st st'"
  by (auto simp: vm_ext_def)

section \<open>Writing an entry\<close>

lemma entry_at_stw:
  assumes "aligned s" and "aligned t" and "i < 512" and "j < 512" and "s \<noteq> t \<or> j \<noteq> i"
  shows "entry_at (stw 8 m (entry_addr h t i) (v :: u64)) h s j = entry_at m h s j"
proof (cases "s = t")
  case True
  then show ?thesis using assms entry_at_other [of i j m h t v] by simp
next
  case False
  then have ne: "bno s \<noteq> bno t" using aligned_inj assms(1,2) by blast
  show ?thesis
  proof (rule entry_at_cong [OF assms(1,4)])
    fix x assume "pg h x = bno s"
    then have "\<not> within x (entry_addr h t i) 8"
      using entry_addr_page [OF assms(2,3)] ne by auto
    then show "stw 8 m (entry_addr h t i) v x = m x" by (simp add: stw_outside)
  qed
qed

lemma free_blocks_cong:
  assumes "pmm_bitmap st' = pmm_bitmap st" and "max_blocks st' = max_blocks st"
    and "\<And>x. within x (pmm_bitmap st) (bitmap_bytes st) \<Longrightarrow> mem st' x = mem st x"
  shows "free_blocks st' = free_blocks st"
proof -
  have "mem st' (pmm_bitmap st + of_nat (i div 8)) = mem st (pmm_bitmap st + of_nat (i div 8))"
    if "i < unat (max_blocks st)" for i
  proof (rule assms(3))
    have "i div 8 < bitmap_bytes st" using that unfolding bitmap_bytes_def by linarith
    moreover have "i < 2 ^ 64" using order.strict_trans [OF that unat_u64_less] by simp
    ultimately show "within (pmm_bitmap st + of_nat (i div 8)) (pmm_bitmap st) (bitmap_bytes st)"
      by (subst within_offset) simp_all
  qed
  then show ?thesis using assms(1,2) by (auto simp: free_blocks_def blk_def get_bit_def)
qed

text \<open>
  The common part of both kinds of write, an entry of a last-level table (\<open>fo = None\<close>) and a
  new table in the free block \<open>f\<close> (\<open>fo = Some f\<close>): what it takes to keep the invariant.
\<close>

lemma vm_ext_write:
  assumes wf: "vm_wf I st" and st': "st' = st\<lparr>mem := m, used_blocks := u\<rparr>"
    and sub: "set_option fo \<subseteq> free_blocks st"
    and free: "free_blocks st' = free_blocks st - set_option fo"
    and frame: "\<And>x. pg (hhdm_offset st) x \<notin> set_option fo \<union> tabs I st \<union> bitmap_pages st \<Longrightarrow>
      m x = mem st x"
    and tables: "\<And>q t. vpath I q \<Longrightarrow> table st' q = Some t \<Longrightarrow>
      table st q = Some t \<or> q = p \<and> fo = Some (bno t)"
  shows "vm_ext I (card (set_option fo)) st st'"
proof -
  have pages: "bitmap_pages st' = bitmap_pages st"
    by (simp add: st' bitmap_pages_def bitmap_bytes_def)
  have tabs: "tabs I st' \<subseteq> tabs I st \<union> set_option fo"
    using tables by (fastforce simp: tabs_def)
  have "p' = q" if eq: "vpath I p'" "vpath I q" "table st' p' = Some t" "table st' q = Some t" for p' q t
  proof -
    have no: "fo \<noteq> Some (bno t)" if vq: "vpath I q" "table st q = Some t" for q
    proof -
      have "bno t \<in> tabs I st" using vq by (auto simp: tabs_def)
      then have "bno t \<notin> free_blocks st" using wf by (auto simp: vm_wf_def)
      then show ?thesis using sub by auto
    qed
    show ?thesis
      using tables [OF eq(1,3)] tables [OF eq(2,4)] no [OF eq(1)] no [OF eq(2)] wf eq(1,2)
      by (auto simp: vm_wf_def)
  qed
  moreover have "tabs I st' \<union> free_blocks st' \<subseteq> tabs I st \<union> free_blocks st"
    using tabs free sub by auto
  moreover have "tabs I st' \<inter> free_blocks st' = {}"
    using wf tabs free by (auto simp: vm_wf_def)
  moreover have "pmm_wf st'"
    using wf by (simp add: st' vm_wf_def pmm_wf_def bitmap_bytes_def tx_live_def)
  moreover have "reachable_page st' i = reachable_page st i" for i
    by (simp add: st' reachable_page_def)
  ultimately have wf': "vm_wf I st'" unfolding vm_wf_def pages
    using wf unfolding vm_wf_def by (intro conjI) blast+
  have "mem st' x = mem st x \<and> foreign I st' x" if "foreign I st x" for x
    using that frame [of x] tabs free sub pages
    by (auto simp: foreign_def st')
  moreover have "card (free_blocks st) \<le> card (free_blocks st') + card (set_option fo)"
    unfolding free using sub by (simp add: card_Diff_subset finite_subset card_mono)
  ultimately show ?thesis unfolding vm_ext_def using wf' st' free by blast
qed

lemma table_entry: "q \<noteq> [] \<Longrightarrow> table st q = map_option (\<lambda>e. e AND entry_mask) (entry st q)"
  by (simp add: table_def entry_def tbl_pte)

lemma table_Nil [simp]: "table st [] = Some (root st)"
  by (simp add: table_def)

lemma table_aligned: "table st q = Some t \<Longrightarrow> aligned t"
  unfolding table_def by (rule tbl_aligned) simp_all

lemma table_reachable:
  assumes "vm_wf I st" and "vpath I p" and "table st p = Some t"
  shows "kregion (t + hhdm_offset st) 4096" and "bno t \<in> tabs I st"
proof -
  show t: "bno t \<in> tabs I st" using assms(2,3) by (auto simp: tabs_def)
  have "reachable_page st (bno t)" using assms(1) t by (simp add: vm_wf_def)
  moreover from this have "block_addr (bno t) = t"
    using table_aligned [OF assms(3)] by (intro aligned_inj) (simp_all add: reachable_page_def)
  ultimately show "kregion (t + hhdm_offset st) 4096" by (simp add: reachable_page_def)
qed

lemma not_present: "e AND 0x1 = 0 \<longleftrightarrow> \<not> present (e :: u64)"
  by (simp add: and_one_eq bit_0 even_iff_mod_2_eq_zero)

lemma entry_load:
  assumes "vm_wf I st" and "vpath I p" and "table st p = Some t" and "i < 512"
  shows "ld64 st (t + hhdm_offset st + 8 * of_nat i) = Some (entry_at (mem st) (hhdm_offset st) t i)"
    and "kregion (entry_addr (hhdm_offset st) t i) 8"
proof -
  show k: "kregion (entry_addr (hhdm_offset st) t i) 8"
    using kregion_entry [OF table_reachable(1) [OF assms(1-3)] assms(4)] .
  then show "ld64 st (t + hhdm_offset st + 8 * of_nat i) =
      Some (entry_at (mem st) (hhdm_offset st) t i)"
    using ld64_kernel [OF k, of st] by (simp add: entry_addr_def entry_at_def)
qed

lemma entry_Cons:
  "table st p = Some t \<Longrightarrow> entry st (i # p) =
     (if present (entry_at (mem st) (hhdm_offset st) t i)
      then Some (entry_at (mem st) (hhdm_offset st) t i) else None)"
  by (simp add: entry_def table_def)

lemma wf_inj:
  "vm_wf I st \<Longrightarrow> vpath I q \<Longrightarrow> vpath I q' \<Longrightarrow>
     tbl (mem st) (hhdm_offset st) (root st) q = Some s \<Longrightarrow>
     tbl (mem st) (hhdm_offset st) (root st) q' = Some s \<Longrightarrow> q = q'"
  unfolding vm_wf_def table_def by blast

lemma table_page:
  assumes "table st p = Some t" and "vpath I p" and "i < 512"
    and "pg (hhdm_offset st) x \<notin> tabs I st"
  shows "stw 8 m (entry_addr (hhdm_offset st) t i) (e :: u64) x = m x"
proof (rule stw_outside)
  have "bno t \<in> tabs I st" using assms(1,2) by (auto simp: tabs_def)
  then show "\<not> within x (entry_addr (hhdm_offset st) t i) 8"
    using assms(4) entry_addr_page [OF table_aligned [OF assms(1)] assms(3)] by metis
qed simp

lemma vpath_lpath: "vpath I q \<Longrightarrow> lpath I q"
  by (simp add: vpath_def)

lemma set_leaf:
  assumes wf: "vm_wf I st" and p: "vpath I p" "length p = 3" "table st p = Some t"
    and i: "i < 512" and e: "present e"
  defines "st' \<equiv> st\<lparr>mem := stw 8 (mem st) (entry_addr (hhdm_offset st) t i) e\<rparr>"
  shows "st64 st (t + hhdm_offset st + 8 * of_nat i) e = Some st'" and "vm_ext I 0 st st'"
    and "lpath I q \<Longrightarrow> entry st' q = (if q = i # p then Some e else entry st q)"
proof -
  let ?h = "hhdm_offset st"
  show "st64 st (t + ?h + 8 * of_nat i) e = Some st'"
    using st64_kernel [OF entry_load(2) [OF wf p(1,3) i], of st e]
    by (simp add: st'_def entry_addr_def)
  have al: "aligned t" using p(3) by (rule table_aligned)
  show entries: "entry st' q = (if q = i # p then Some e else entry st q)" if "lpath I q" for q
  proof -
    have t: "tbl (mem st) ?h (root st) p = Some t" using p(3) by (simp add: table_def)
    have same: "entry_at (mem st') ?h s j = entry_at (mem st) ?h s j"
      if "vpath I q" "tbl (mem st) ?h (root st) q = Some s" "j < 512" "s \<noteq> t \<or> j \<noteq> i" for q s j
      using that i al table_aligned [of st q s] by (simp add: st'_def entry_at_stw table_def)
    have new: "entry_at (mem st') ?h t i = e" by (simp add: st'_def)
    have "pte (mem st') ?h (root st) q =
        (if q = i # p then Some e else pte (mem st) ?h (root st) q)"
      using pte_set [OF p(1) t wf_inj [OF wf] same new e _ that] p(2) by simp
    then show ?thesis by (simp add: entry_def st'_def)
  qed
  have tables: "table st' q = table st q" if "vpath I q" for q
    using that entries [OF vpath_lpath [OF that]] p(2)
    by (cases "q = []") (auto simp: table_entry vpath_def, simp add: st'_def)
  have "vm_ext I (card (set_option (None :: nat option))) st st'"
  proof (rule vm_ext_write [OF wf, where m = "mem st'" and u = "used_blocks st" and p = p])
    show "st' = st\<lparr>mem := mem st', used_blocks := used_blocks st\<rparr>" by (simp add: st'_def)
    have "free_blocks st' = free_blocks st"
    proof (rule free_blocks_cong)
      fix x assume "within x (pmm_bitmap st) (bitmap_bytes st)"
      then have "pg ?h x \<notin> tabs I st"
        using wf by (auto simp: vm_wf_def bitmap_pages_def)
      then show "mem st' x = mem st x"
        using table_page [OF p(3,1) i] by (simp add: st'_def)
    qed (simp_all add: st'_def)
    then show "free_blocks st' = free_blocks st - set_option None" by simp
    show "mem st' x = mem st x" if "pg ?h x \<notin> set_option None \<union> tabs I st \<union> bitmap_pages st" for x
      using table_page [OF p(3,1) i] that by (simp add: st'_def)
    show "table st q = Some s \<or> q = p \<and> (None :: nat option) = Some (bno s)"
      if "vpath I q" "table st' q = Some s" for q s
      using tables [OF that(1)] that(2) by simp
  qed simp
  then show "vm_ext I 0 st st'" by simp
qed

subsection \<open>A new table\<close>

definition new_mem :: "nat \<Rightarrow> u64 \<Rightarrow> nat \<Rightarrow> 'a pmm_scheme \<Rightarrow> (u64 \<Rightarrow> u8)" where
  "new_mem f t i st =
     stw 8 (filled (mem (mark f True st)) (block_addr f + hhdm_offset st) 4096 0)
       (entry_addr (hhdm_offset st) t i) (block_addr f OR 7)"

definition new_state :: "nat \<Rightarrow> u64 \<Rightarrow> nat \<Rightarrow> 'a pmm_scheme \<Rightarrow> 'a pmm_scheme" where
  "new_state f t i st = st\<lparr>mem := new_mem f t i st, used_blocks := used_blocks st + 1\<rparr>"

lemma new_state_frame [simp]: "hhdm_offset (new_state f t i st) = hhdm_offset st"
  by (simp add: new_state_def)

lemma free_block_facts:
  assumes "vm_wf I st" and "f \<in> free_blocks st"
  shows "f < 2 ^ 31" "kregion (block_addr f + hhdm_offset st) 4096" "f \<notin> tabs I st"
    "f \<notin> bitmap_pages st" "f div 8 < bitmap_bytes st"
proof -
  have "f < unat (max_blocks st)" using assms(2) by (simp add: free_blocks_def)
  then show "f div 8 < bitmap_bytes st" "f < 2 ^ 31"
    using assms(1) unfolding bitmap_bytes_def vm_wf_def pmm_wf_def by linarith+
  show "kregion (block_addr f + hhdm_offset st) 4096" "f \<notin> tabs I st" "f \<notin> bitmap_pages st"
    using assms by (auto simp: vm_wf_def reachable_page_def)
qed

lemma cleared_outside:
  assumes "vm_wf I st" and "f \<in> free_blocks st"
    and "pg (hhdm_offset st) x \<noteq> f" and "pg (hhdm_offset st) x \<notin> bitmap_pages st"
  shows "filled (mem (mark f True st)) (block_addr f + hhdm_offset st) 4096 0 x = mem st x"
proof -
  note f = free_block_facts [OF assms(1,2)]
  have "\<not> within x (pmm_bitmap st) (bitmap_bytes st)"
    using assms(4) by (auto simp: bitmap_pages_def)
  then have "mem (mark f True st) x = mem st x"
    using f(1,5) by (simp add: mark_def put_bit_outside)
  moreover have "\<not> within x (block_addr f + hhdm_offset st) 4096"
    using assms(3) f(1) by (simp add: within_page)
  ultimately show ?thesis by (simp add: filled_def)
qed

lemma new_mem_frame:
  assumes "vm_wf I st" and "f \<in> free_blocks st"
    and "vpath I p" and "table st p = Some t" and "i < 512"
    and "pg (hhdm_offset st) x \<notin> {f} \<union> tabs I st \<union> bitmap_pages st"
  shows "new_mem f t i st x = mem st x"
  using table_page [OF assms(4,3,5)] cleared_outside [OF assms(1,2)] assms(6)
  by (simp add: new_mem_def)

lemma new_entries:
  assumes wf: "vm_wf I st" and f: "f \<in> free_blocks st"
    and p: "vpath I p" "length p < 3" "table st p = Some t" and i: "i < 512"
    and none: "entry st (i # p) = None" and q: "lpath I q"
  shows "entry (new_state f t i st) q =
    (if q = i # p then Some (block_addr f OR 7) else entry st q)"
proof -
  let ?h = "hhdm_offset st" and ?m' = "new_mem f t i st" and ?e = "block_addr f OR 7"
  note ff = free_block_facts [OF wf f]
  have al: "aligned t" using p(3) by (rule table_aligned)
  have e: "present ?e" "?e AND entry_mask = block_addr f"
    using ff(1) by (auto intro: new_entry)
  have t: "tbl (mem st) ?h (root st) p = Some t" using p(3) by (simp add: table_def)
  have same: "entry_at ?m' ?h s j = entry_at (mem st) ?h s j"
    if s: "vpath I q" "tbl (mem st) ?h (root st) q = Some s" "j < 512" "s \<noteq> t \<or> j \<noteq> i" for q s j
  proof -
    have als: "aligned s" and bs: "bno s \<in> tabs I st"
      using s(1,2) table_aligned [of st q s] by (auto simp: table_def tabs_def)
    then have "bno s \<noteq> f" "bno s \<notin> bitmap_pages st" using ff(3) wf by (auto simp: vm_wf_def)
    then have "entry_at (filled (mem (mark f True st)) (block_addr f + ?h) 4096 0) ?h s j =
        entry_at (mem st) ?h s j"
      by (intro entry_at_cong [OF als s(3)] cleared_outside [OF wf f]) simp_all
    then show ?thesis using s(3,4) al als i by (simp add: new_mem_def entry_at_stw)
  qed
  have new: "entry_at ?m' ?h t i = ?e" by (simp add: new_mem_def)
  have fresh: "pte (mem st) ?h (root st) (i # p) = None \<and>
      (\<forall>j<512. entry_at ?m' ?h (?e AND entry_mask) j = 0)"
  proof -
    have "block_addr f \<noteq> t"
      using ff(1,3) p(1,3) by (auto simp: tabs_def)
    then show ?thesis
      using none ff(1) al i unfolding e(2)
      by (simp add: entry_def new_mem_def entry_at_stw entry_at_filled del: pte.simps)
  qed
  have "pte ?m' ?h (root st) q = (if q = i # p then Some ?e else pte (mem st) ?h (root st) q)"
    using pte_set [OF p(1) t wf_inj [OF wf] same new e(1) fresh q] by simp
  then show ?thesis by (simp add: entry_def new_state_def)
qed

lemma new_vm_ext:
  assumes wf: "vm_wf I st" and f: "f \<in> free_blocks st"
    and p: "vpath I p" "length p < 3" "table st p = Some t" and i: "i < 512" "p = [] \<longrightarrow> i \<in> I"
    and none: "entry st (i # p) = None"
  shows "vm_ext I 1 st (new_state f t i st)"
proof -
  let ?st = "new_state f t i st" and ?h = "hhdm_offset st"
  note ff = free_block_facts [OF wf f]
  have "vm_ext I (card (set_option (Some f))) st ?st"
  proof (rule vm_ext_write [OF wf, where m = "new_mem f t i st" and u = "used_blocks st + 1"
        and p = "i # p"])
    show "?st = st\<lparr>mem := new_mem f t i st, used_blocks := used_blocks st + 1\<rparr>"
      by (simp add: new_state_def)
    show "set_option (Some f) \<subseteq> free_blocks st" using f by simp
    have "free_blocks ?st = free_blocks (mark f True st)"
    proof (rule free_blocks_cong)
      fix x assume x: "within x (pmm_bitmap (mark f True st)) (bitmap_bytes (mark f True st))"
      then have b: "pg ?h x \<in> bitmap_pages st"
        by (auto simp: bitmap_pages_def bitmap_bytes_def)
      then have "pg ?h x \<notin> tabs I st" "pg ?h x \<noteq> f" using wf ff(4) by (auto simp: vm_wf_def)
      then show "mem ?st x = mem (mark f True st) x"
        using table_page [OF p(3,1) i(1)] ff(1)
        by (simp add: new_state_def new_mem_def filled_def within_page)
    qed (simp_all add: new_state_def)
    then show "free_blocks ?st = free_blocks st - set_option (Some f)"
      using free_blocks_mark [of f st] ff(1) wf by (simp add: vm_wf_def)
    show "new_mem f t i st x = mem st x"
      if "pg ?h x \<notin> set_option (Some f) \<union> tabs I st \<union> bitmap_pages st" for x
      using new_mem_frame [OF wf f p(1,3) i(1)] that by simp
    show "table st q = Some s \<or> q = i # p \<and> Some f = Some (bno s)"
      if q: "vpath I q" "table ?st q = Some s" for q s
    proof (cases "q = []")
      case True
      then show ?thesis using q(2) by (simp add: new_state_def)
    next
      case False
      then show ?thesis
        using q new_entries [OF wf f p i(1) none vpath_lpath [OF q(1)]] ff(1) new_entry(2) [of f]
        by (auto simp: table_entry split: if_splits)
    qed
  qed
  then show ?thesis by simp
qed

lemma alloc_min:
  assumes "vm_wf I st" and "free_blocks st \<noteq> {}"
  shows "Min (free_blocks st) \<in> free_blocks st"
    and "pmm_alloc_block st = Some (block_addr (Min (free_blocks st)),
      (mark (Min (free_blocks st)) True st)\<lparr>used_blocks := used_blocks st + 1\<rparr>)"
  using assms pmm_alloc_lowest [of st] by (simp_all add: vm_wf_def block_addr_def)

lemma next_table_new:
  assumes wf: "vm_wf I st" and ne: "free_blocks st \<noteq> {}"
    and p: "vpath I p" "table st p = Some t" and i: "i < 512"
    and none: "entry st (i # p) = None"
  defines "f \<equiv> Min (free_blocks st)"
  shows "vmm_next_table (t + hhdm_offset st) (of_nat i) st =
    Some (block_addr f + hhdm_offset st, new_state f t i st)"
proof -
  let ?h = "hhdm_offset st" and ?a = "entry_addr (hhdm_offset st) t i"
  let ?st1 = "(mark f True st)\<lparr>used_blocks := used_blocks st + 1\<rparr>"
  have f: "f \<in> free_blocks st" unfolding f_def using alloc_min(1) [OF wf ne] .
  note ff = free_block_facts [OF wf f] and load = entry_load [OF wf p i]
  have old: "entry_at (mem st) ?h t i AND 1 = 0"
    using none p(2) by (simp add: entry_Cons not_present split: if_splits)
  have alloc: "pmm_alloc_block st = Some (block_addr f, ?st1)"
    unfolding f_def using alloc_min(2) [OF wf ne] .
  have clear: "memset (block_addr f + ?h) 0 4096 ?st1 =
      Some (block_addr f + ?h, ?st1\<lparr>mem := filled (mem (mark f True st)) (block_addr f + ?h) 4096 0\<rparr>)"
    using memset_kernel [of "block_addr f + ?h" 4096 0 ?st1] ff(2) by simp
  have store: "st64 (?st1\<lparr>mem := m\<rparr>) ?a e =
      Some (?st1\<lparr>mem := stw 8 m ?a e\<rparr>)" for m e
    using st64_kernel [OF load(2), of "?st1\<lparr>mem := m\<rparr>" e] by simp
  have new: "ld64 (new_state f t i st) ?a = Some (block_addr f OR 7)"
    using ld64_kernel [OF load(2), of "new_state f t i st"] entry_at_same [of _ ?h t i "block_addr f OR 7"]
    by (simp add: new_state_def new_mem_def entry_at_def)
  have state: "?st1\<lparr>mem := new_mem f t i st\<rparr> = new_state f t i st"
    by (simp add: mark_def new_state_def)
  have addr: "t + ?h + 8 * of_nat i = ?a" by (simp add: entry_addr_def)
  show ?thesis
    using load(1) old alloc clear store new state ff(1) new_entry(2) [of f]
    unfolding vmm_next_table_def addr by (simp add: new_mem_def)
qed

lemma next_table_old:
  assumes "vm_wf I st" and "vpath I p" and "table st p = Some t" and "i < 512"
    and "entry st (i # p) = Some e"
  shows "vmm_next_table (t + hhdm_offset st) (of_nat i) st =
    Some ((e AND entry_mask) + hhdm_offset st, st)"
proof -
  have "present (entry_at (mem st) (hhdm_offset st) t i)"
    "entry_at (mem st) (hhdm_offset st) t i = e"
    using assms(3,5) by (simp_all add: entry_Cons split: if_splits)
  moreover from this have "entry_at (mem st) (hhdm_offset st) t i AND 1 \<noteq> 0"
    using not_present [of e] by simp
  ultimately show ?thesis
    using entry_load(1) [OF assms(1-4)] by (simp add: vmm_next_table_def)
qed

text \<open>
  One level of \<open>vmm_map_page\<close>: whatever was there, the entry of the path then points to a table,
  nothing else the walk can reach has changed, and at most one frame is gone.
\<close>

lemma next_table_step:
  assumes wf: "vm_wf I st" and ne: "free_blocks st \<noteq> {}"
    and p: "vpath I p" "length p < 3" "table st p = Some t" and i: "i < 512" "p = [] \<longrightarrow> i \<in> I"
  shows "\<exists>t' st'. vmm_next_table (t + hhdm_offset st) (of_nat i) st =
      Some (t' + hhdm_offset st', st') \<and> vm_ext I 1 st st' \<and> vpath I (i # p) \<and>
    table st' (i # p) = Some t' \<and>
    (\<forall>q. lpath I q \<longrightarrow> length q = 4 \<longrightarrow> entry st' q = entry st q)"
proof -
  have vp: "vpath I (i # p)" using p(1,2) i vpath_Cons [OF p(1) i] by (simp add: vpath_def)
  show ?thesis
  proof (cases "entry st (i # p)")
    case (Some e)
    then show ?thesis
      using next_table_old [OF wf p(1,3) i(1) Some] vm_ext_refl [OF wf, of 1] vp
      by (auto simp: table_entry)
  next
    case None
    let ?f = "Min (free_blocks st)"
    let ?st = "new_state ?f t i st"
    have f: "?f \<in> free_blocks st" using alloc_min(1) [OF wf ne] .
    have en: "entry ?st q = (if q = i # p then Some (block_addr ?f OR 7) else entry st q)"
      if "lpath I q" for q using new_entries [OF wf f p i(1) None that] .
    have "table ?st (i # p) = Some (block_addr ?f)"
      using en [OF vpath_lpath [OF vp]] free_block_facts(1) [OF wf f] new_entry(2) [of ?f]
      by (simp add: table_entry)
    moreover have "entry ?st q = entry st q" if "lpath I q" "length q = 4" for q
      using en [OF that(1)] that(2) p(2) by auto
    moreover have "hhdm_offset ?st = hhdm_offset st" by (simp add: new_state_def)
    ultimately show ?thesis
      using next_table_new [OF wf ne p(1,3) i(1) None] new_vm_ext [OF wf f p i None] vp by metis
  qed
qed

lemma vm_ext_free:
  "vm_ext I 1 st st' \<Longrightarrow> Suc n \<le> card (free_blocks st) \<Longrightarrow> n \<le> card (free_blocks st')"
  by (simp add: vm_ext_def)

lemma leaf_entry_present: "present (x OR y OR (1 :: u64))"
  by (simp add: bit_simps)

section \<open>Mapping a page\<close>

lemma page_index_bound: "page_index sh va < 512"
proof -
  have "drop_bit sh va AND 0x1FF = take_bit 9 (drop_bit sh va)"
    by (simp add: take_bit_eq_mask mask_eq_exp_minus_1)
  then show ?thesis
    unfolding page_index_def using take_bit_nat_less_exp [of 9 "unat (drop_bit sh va)"]
    by (simp add: unsigned_take_bit_eq)
qed

lemma of_nat_page_index: "of_nat (page_index sh va) = drop_bit sh va AND 0x1FF"
  by (simp add: page_index_def)

lemma va_path_lpath: "page_index 39 va \<in> I \<Longrightarrow> lpath I (va_path va) \<and> length (va_path va) = 4"
  by (simp add: lpath_def va_path_def page_index_bound)

lemma walk_entry:
  "walk st va = map_option (\<lambda>e. (e AND entry_mask) + (va AND 0xFFF)) (entry st (va_path va))"
proof -
  have "va_path va \<noteq> []" by (simp add: va_path_def)
  then show ?thesis by (simp add: walk_def entry_def tbl_pte option.map_comp o_def)
qed

definition leaf_entry :: "u64 \<Rightarrow> u64 \<Rightarrow> u64" where
  "leaf_entry phys flags = (phys AND 0x000FFFFFFFFFF000) OR (flags AND 0xFFF) OR 0x1"

lemma leaf_entry_frame: "leaf_entry phys flags AND entry_mask = phys AND entry_mask"
proof -
  have "(0xFFF :: u64) AND entry_mask = 0" "(1 :: u64) AND entry_mask = 0" by simp_all
  then have "(flags AND 0xFFF) AND entry_mask = 0" "(1 :: u64) AND entry_mask = 0"
    by (simp_all only: and.assoc and_zero_eq)
  then show ?thesis
    unfolding leaf_entry_def by (simp only: bit.conj_disj_distrib2) (simp add: and.assoc)
qed

lemma map_page_tables:
  assumes wf: "vm_wf I st" and free: "3 \<le> card (free_blocks st)" and I: "page_index 39 virt \<in> I"
  shows "\<exists>t st'.
    do { (pdpt, st) \<leftarrow> vmm_next_table (root st + hhdm_offset st) (drop_bit 39 virt AND 0x1FF) st;
         (pd, st) \<leftarrow> vmm_next_table pdpt (drop_bit 30 virt AND 0x1FF) st;
         vmm_next_table pd (drop_bit 21 virt AND 0x1FF) st } = Some (t + hhdm_offset st', st') \<and>
    vm_ext I 3 st st' \<and> vpath I (tl (va_path virt)) \<and> table st' (tl (va_path virt)) = Some t \<and>
    (\<forall>q. lpath I q \<longrightarrow> length q = 4 \<longrightarrow> entry st' q = entry st q)"
proof -
  let ?i = "\<lambda>sh. page_index sh virt"
  have ne: "free_blocks s \<noteq> {}" if "1 \<le> card (free_blocks s)" for s :: "'a pmm_scheme"
    using that by auto
  have "vpath I []" by (simp add: vpath_def lpath_def)
  then obtain t1 st1 where 1: "vmm_next_table (root st + hhdm_offset st) (of_nat (?i 39)) st =
        Some (t1 + hhdm_offset st1, st1)" "vm_ext I 1 st st1" "vpath I [?i 39]"
      "table st1 [?i 39] = Some t1"
      "\<forall>q. lpath I q \<longrightarrow> length q = 4 \<longrightarrow> entry st1 q = entry st q"
    using next_table_step [OF wf ne, of "[]" "root st" "?i 39"] free I page_index_bound by auto
  have f1: "2 \<le> card (free_blocks st1)" using vm_ext_free [OF 1(2), of 2] free by simp
  obtain t2 st2 where 2: "vmm_next_table (t1 + hhdm_offset st1) (of_nat (?i 30)) st1 =
        Some (t2 + hhdm_offset st2, st2)" "vm_ext I 1 st1 st2" "vpath I [?i 30, ?i 39]"
      "table st2 [?i 30, ?i 39] = Some t2"
      "\<forall>q. lpath I q \<longrightarrow> length q = 4 \<longrightarrow> entry st2 q = entry st1 q"
    using next_table_step [OF vm_ext_frame(6) [OF 1(2)] ne 1(3) _ 1(4), of "?i 30"] f1
      page_index_bound by auto
  have f2: "1 \<le> card (free_blocks st2)" using vm_ext_free [OF 2(2), of 1] f1 by simp
  obtain t3 st3 where 3: "vmm_next_table (t2 + hhdm_offset st2) (of_nat (?i 21)) st2 =
        Some (t3 + hhdm_offset st3, st3)" "vm_ext I 1 st2 st3" "vpath I [?i 21, ?i 30, ?i 39]"
      "table st3 [?i 21, ?i 30, ?i 39] = Some t3"
      "\<forall>q. lpath I q \<longrightarrow> length q = 4 \<longrightarrow> entry st3 q = entry st2 q"
    using next_table_step [OF vm_ext_frame(6) [OF 2(2)] ne 2(3) _ 2(4), of "?i 21"] f2
      page_index_bound by auto
  have "vm_ext I 3 st st3"
    using vm_ext_trans [OF vm_ext_trans [OF 1(2) 2(2)] 3(2)] by (simp add: eval_nat_numeral)
  then show ?thesis
    using 1(1,5) 2(1,5) 3(1,3,4,5) by (simp add: of_nat_page_index va_path_def)
qed

lemma vmm_map_page_ok:
  assumes wf: "vm_wf I st" and free: "3 \<le> card (free_blocks st)" and I: "page_index 39 virt \<in> I"
  shows "\<exists>st'. vmm_map_page phys virt flags st = Some st' \<and> vm_ext I 3 st st' \<and>
    (\<forall>q. lpath I q \<longrightarrow> length q = 4 \<longrightarrow>
       entry st' q = (if q = va_path virt then Some (leaf_entry phys flags) else entry st q))"
proof -
  let ?p = "tl (va_path virt)"
  obtain t st1 where 1: "do { (pdpt, st) \<leftarrow> vmm_next_table (root st + hhdm_offset st) (drop_bit 39 virt AND 0x1FF) st;
         (pd, st) \<leftarrow> vmm_next_table pdpt (drop_bit 30 virt AND 0x1FF) st;
         vmm_next_table pd (drop_bit 21 virt AND 0x1FF) st } = Some (t + hhdm_offset st1, st1)"
      "vm_ext I 3 st st1" "vpath I ?p" "table st1 ?p = Some t"
      "\<forall>q. lpath I q \<longrightarrow> length q = 4 \<longrightarrow> entry st1 q = entry st q"
    using map_page_tables [OF wf free I] by blast
  have len: "length ?p = 3" and path: "page_index 12 virt # ?p = va_path virt"
    by (simp_all add: va_path_def)
  have e: "present (leaf_entry phys flags)" by (simp only: leaf_entry_def leaf_entry_present)
  note leaf = set_leaf [OF vm_ext_frame(6) [OF 1(2)] 1(3) len 1(4)
      page_index_bound [of 12 virt] e]
  let ?st = "st1\<lparr>mem := stw 8 (mem st1)
    (entry_addr (hhdm_offset st1) t (page_index 12 virt)) (leaf_entry phys flags)\<rparr>"
  obtain a sa b sb where steps:
      "vmm_next_table (root st + hhdm_offset st) (drop_bit 39 virt AND 0x1FF) st = Some (a, sa)"
      "vmm_next_table a (drop_bit 30 virt AND 0x1FF) sa = Some (b, sb)"
      "vmm_next_table b (drop_bit 21 virt AND 0x1FF) sb = Some (t + hhdm_offset st1, st1)"
    using 1(1) by (auto simp: bind_eq_Some_conv)
  have "vmm_map_page phys virt flags st = Some ?st"
    using steps leaf(1)
    by (simp add: vmm_map_page_def get_active_page_dir_def leaf_entry_def of_nat_page_index
        vmm_flush_tlb_entry_def)
  moreover have "vm_ext I 3 st ?st" using vm_ext_trans [OF 1(2) leaf(2)] by simp
  ultimately show ?thesis using leaf(3) 1(5) unfolding path by auto
qed

section \<open>Switching to a clean page table\<close>

lemma entry_addr_loop: "t + h + 8 * of_nat i = entry_addr h t i"
  by (simp add: entry_addr_def)

lemma stw_entry_frame:
  assumes "aligned t" and "i < 512" and "pg h x \<noteq> bno t"
  shows "stw 8 m (entry_addr h t i) (v :: u64) x = m x"
  using assms entry_addr_page [OF assms(1,2)] by (intro stw_outside) auto

lemma clear_loop:
  assumes t: "aligned t" "kregion (t + h) 4096"
  shows "i + n \<le> 512 \<Longrightarrow> \<exists>m. vmm_clear_loop n (t + h) (of_nat i) st = Some (st\<lparr>mem := m\<rparr>) \<and>
    (\<forall>j<512. entry_at m h t j = (if i \<le> j \<and> j < i + n then 0 else entry_at (mem st) h t j)) \<and>
    (\<forall>x. pg h x \<noteq> bno t \<longrightarrow> m x = mem st x)"
proof (induction n arbitrary: i st)
  case 0
  have "st = st\<lparr>mem := mem st\<rparr>" by simp
  then show ?case by (intro exI [of _ "mem st"]) auto
next
  case (Suc n)
  let ?m = "stw 8 (mem st) (entry_addr h t i) (0 :: u64)"
  have i: "i < 512" using Suc.prems by simp
  have step: "vmm_clear_loop (Suc n) (t + h) (of_nat i) st =
      vmm_clear_loop n (t + h) (of_nat (Suc i)) (st\<lparr>mem := ?m\<rparr>)"
    using st64_kernel [OF kregion_entry [OF t(2) i], of st 0]
    unfolding vmm_clear_loop.simps entry_addr_loop of_nat_Suc add.commute [of 1] by simp
  obtain m where m: "vmm_clear_loop n (t + h) (of_nat (Suc i)) (st\<lparr>mem := ?m\<rparr>) = Some (st\<lparr>mem := m\<rparr>)"
      "\<forall>j<512. entry_at m h t j = (if Suc i \<le> j \<and> j < Suc i + n then 0 else entry_at ?m h t j)"
      "\<forall>x. pg h x \<noteq> bno t \<longrightarrow> m x = ?m x"
    using Suc.IH [of "Suc i" "st\<lparr>mem := ?m\<rparr>"] Suc.prems by auto
  have "entry_at m h t j = (if i \<le> j \<and> j < i + Suc n then 0 else entry_at (mem st) h t j)"
    if "j < 512" for j
    using that m(2) entry_at_other [OF i that, of "mem st" h t 0] by (cases "j = i") auto
  then show ?case using step m(1,3) stw_entry_frame [OF t(1) i] by auto
qed

lemma copy_loop:
  assumes t: "aligned t" "kregion (t + h) 4096" and s: "aligned s" "kregion (s + h) 4096"
    and ne: "s \<noteq> t"
  shows "i + n \<le> 512 \<Longrightarrow>
    \<exists>m. vmm_copy_loop n (t + h) (s + h) (of_nat i) st = Some (st\<lparr>mem := m\<rparr>) \<and>
    (\<forall>j<512. entry_at m h t j =
       (if i \<le> j \<and> j < i + n then entry_at (mem st) h s j else entry_at (mem st) h t j)) \<and>
    (\<forall>x. pg h x \<noteq> bno t \<longrightarrow> m x = mem st x)"
proof (induction n arbitrary: i st)
  case 0
  have "st = st\<lparr>mem := mem st\<rparr>" by simp
  then show ?case by (intro exI [of _ "mem st"]) auto
next
  case (Suc n)
  let ?e = "entry_at (mem st) h s i"
  let ?m = "stw 8 (mem st) (entry_addr h t i) ?e"
  have i: "i < 512" using Suc.prems by simp
  have step: "vmm_copy_loop (Suc n) (t + h) (s + h) (of_nat i) st =
      vmm_copy_loop n (t + h) (s + h) (of_nat (Suc i)) (st\<lparr>mem := ?m\<rparr>)"
    using st64_kernel [OF kregion_entry [OF t(2) i], of st ?e] ld64_kernel [OF kregion_entry [OF s(2) i], of st]
    unfolding vmm_copy_loop.simps entry_addr_loop of_nat_Suc add.commute [of 1] entry_at_def
    by simp
  obtain m where m: "vmm_copy_loop n (t + h) (s + h) (of_nat (Suc i)) (st\<lparr>mem := ?m\<rparr>) =
        Some (st\<lparr>mem := m\<rparr>)"
      "\<forall>j<512. entry_at m h t j =
         (if Suc i \<le> j \<and> j < Suc i + n then entry_at ?m h s j else entry_at ?m h t j)"
      "\<forall>x. pg h x \<noteq> bno t \<longrightarrow> m x = ?m x"
    using Suc.IH [of "Suc i" "st\<lparr>mem := ?m\<rparr>"] Suc.prems by auto
  have "entry_at m h t j =
      (if i \<le> j \<and> j < i + Suc n then entry_at (mem st) h s j else entry_at (mem st) h t j)"
    if "j < 512" for j
    using that m(2) entry_at_other [OF i that, of "mem st" h t ?e] ne
      entry_at_stw [OF s(1) t(1) i that, of "mem st" h ?e] by (cases "j = i") auto
  then show ?case using step m(1,3) stw_entry_frame [OF t(1) i] by auto
qed

lemma vpath_empty: "vpath {} q \<longleftrightarrow> q = []"
  by (cases q) (auto simp: vpath_def lpath_def)

lemma tabs_empty: "tabs {} st = {bno (root st)}"
  by (auto simp: tabs_def vpath_empty)

text \<open>The entries of the root table, and the indices the code may use after the switch.\<close>

definition fresh_indices :: "'a machine_scheme \<Rightarrow> nat set" where
  "fresh_indices st = {i. i < 512 \<and> (i < 256 \<or> entry st [i] = None)}"

lemma no_tables:
  assumes "\<And>i. i \<in> I \<Longrightarrow> entry st [i] = None"
  shows "vpath I q \<Longrightarrow> table st q = (if q = [] then Some (root st) else None)"
proof (induction q)
  case (Cons j q)
  have "vpath I q" using Cons.prems lpath_Cons [of I j q] by (simp add: vpath_def)
  then have IH: "table st q = (if q = [] then Some (root st) else None)" by (rule Cons.IH)
  show ?case
  proof (cases "q = []")
    case True
    then have "j \<in> I" using Cons.prems by (simp add: vpath_def lpath_def)
    then show ?thesis using assms True by (simp add: table_entry)
  next
    case False
    then show ?thesis using IH by (simp add: table_def)
  qed
qed simp

lemma mark_frame_page:
  assumes "vm_wf I st" and "f \<in> free_blocks st" and "pg (hhdm_offset st) x \<notin> bitmap_pages st"
  shows "mem (mark f True st) x = mem st x"
proof -
  note ff = free_block_facts [OF assms(1,2)]
  have "\<not> within x (pmm_bitmap st) (bitmap_bytes st)"
    using assms(3) by (auto simp: bitmap_pages_def)
  then show ?thesis using ff(1,5) by (simp add: mark_def put_bit_outside)
qed

lemma printed_vm:
  assumes "printed out st st'"
  shows "table st' q = table st q" "entry st' q = entry st q" "hhdm_offset st' = hhdm_offset st"
    "free_blocks st' = free_blocks st" "bitmap_pages st' = bitmap_pages st"
    "cr3 st' = cr3 st" "mem st' = mem st" "pmm_wf st' = pmm_wf st"
  using assms printed_pmm [OF assms]
  by (simp_all add: table_def entry_def bitmap_pages_def bitmap_bytes_def printed_frame)

lemma vmm_initialize_ok:
  assumes wf: "vm_wf {} st" and ne: "free_blocks st \<noteq> {}"
  defines "f \<equiv> Min (free_blocks st)"
  shows "\<exists>st'. vmm_initialize st = Some st' \<and> cr3 st' = block_addr f \<and> pmm_wf st' \<and>
    hhdm_offset st' = hhdm_offset st \<and> bitmap_pages st' = bitmap_pages st \<and>
    free_blocks st' = free_blocks st - {f} \<and> pmm.more st' = pmm.more st \<and>
    (\<forall>j<512. entry st' [j] = (if j < 256 then None else entry st [j])) \<and>
    (\<forall>x. pg (hhdm_offset st) x \<notin> {f} \<union> bitmap_pages st \<longrightarrow> mem st' x = mem st x)"
proof -
  let ?h = "hhdm_offset st" and ?r = "root st" and ?t = "block_addr f"
  let ?st1 = "(mark f True st)\<lparr>used_blocks := used_blocks st + 1\<rparr>"
  have f: "f \<in> free_blocks st" unfolding f_def using alloc_min(1) [OF wf ne] .
  note ff = free_block_facts [OF wf f]
  have al: "aligned ?t" "bno ?t = f" "?t AND entry_mask = ?t"
    using ff(1) block_addr_masked [of f] by simp_all
  have r: "bno ?r \<noteq> f" "bno ?r \<notin> bitmap_pages st" "kregion (?r + ?h) 4096"
    using ff(3) wf table_reachable(1) [OF wf, of "[]" ?r]
    by (auto simp: tabs_empty vm_wf_def vpath_empty)
  then have rt: "?r \<noteq> ?t" using al(2) by auto
  obtain m1 where m1: "vmm_clear_loop 512 (?t + ?h) 0 ?st1 = Some (?st1\<lparr>mem := m1\<rparr>)"
      "\<forall>j<512. entry_at m1 ?h ?t j = 0"
      "\<forall>x. pg ?h x \<noteq> f \<longrightarrow> m1 x = mem (mark f True st) x"
    using clear_loop [OF al(1) ff(2), of 0 512 ?st1] al(2) by auto
  obtain m2 where m2: "vmm_copy_loop 256 (?t + ?h) (?r + ?h) 256 (?st1\<lparr>mem := m1\<rparr>) =
        Some (?st1\<lparr>mem := m2\<rparr>)"
      "\<forall>j<512. entry_at m2 ?h ?t j = (if 256 \<le> j then entry_at m1 ?h ?r j else 0)"
      "\<forall>x. pg ?h x \<noteq> f \<longrightarrow> m2 x = m1 x"
    using copy_loop [OF al(1) ff(2) aligned_masked r(3) rt, of 256 256 "?st1\<lparr>mem := m1\<rparr>"] al(2) m1(2)
    by auto
  let ?st2 = "?st1\<lparr>mem := m2, cr3 := ?t\<rparr>"
  have tx: "tx_live ?st2" using wf by (simp add: vm_wf_def pmm_wf_def tx_live_def)
  obtain out st' where out: "kprintf (''VMM: Switched to clean 64-bit page table!'' @ nl) [] ?st2 = Some st'"
      "printed out ?st2 st'"
    using kprintf_plain [of "''VMM: Switched to clean 64-bit page table!'' @ nl" "[]" ?st2] tx by auto
  have same: "m2 x = mem st x" if "pg ?h x \<notin> {f} \<union> bitmap_pages st" for x
    using that m1(3) m2(3) mark_frame_page [OF wf f] by simp
  have "entry_at m1 ?h ?r j = entry_at (mem st) ?h ?r j" if "j < 512" for j
    using that r(1,2) m1(3) mark_frame_page [OF wf f] by (intro entry_at_cong) simp_all
  then have entries: "entry ?st2 [j] = (if j < 256 then None else entry st [j])" if "j < 512" for j
    using that m2(2) al(3) by (simp add: entry_def)
  have "free_blocks ?st2 = free_blocks (mark f True st)"
  proof (rule free_blocks_cong)
    fix x assume "within x (pmm_bitmap (mark f True st)) (bitmap_bytes (mark f True st))"
    then have "pg ?h x \<in> bitmap_pages st" by (auto simp: bitmap_pages_def bitmap_bytes_def)
    then have "pg ?h x \<noteq> f" using ff(4) by auto
    then show "mem ?st2 x = mem (mark f True st) x" using m1(3) m2(3) by simp
  qed simp_all
  then have free: "free_blocks ?st2 = free_blocks st - {f}"
    using free_blocks_mark [of f st] ff(1) wf by (simp add: vm_wf_def)
  have "vmm_initialize st = Some st'"
    using alloc_min(2) [OF wf ne] m1(1) m2(1) out(1)
    by (simp add: vmm_initialize_def get_active_page_dir_def f_def)
  moreover have "pmm_wf ?st2"
    using wf by (simp add: vm_wf_def pmm_wf_def bitmap_bytes_def tx_live_def)
  moreover have "bitmap_pages ?st2 = bitmap_pages st"
    by (simp add: bitmap_pages_def bitmap_bytes_def)
  ultimately show ?thesis
    using entries free same by (intro exI [of _ st']) (simp add: printed_vm [OF out(2)] printed_more [OF out(2)] mark_def)
qed

lemma vmm_initialize_fresh:
  assumes "vm_wf {} st" and "free_blocks st \<noteq> {}"
  shows "\<exists>st'. vmm_initialize st = Some st' \<and> vm_wf (fresh_indices st) st' \<and>
    cr3 st' = block_addr (Min (free_blocks st)) \<and> hhdm_offset st' = hhdm_offset st \<and>
    bitmap_pages st' = bitmap_pages st \<and>
    free_blocks st' = free_blocks st - {Min (free_blocks st)} \<and> pmm.more st' = pmm.more st \<and>
    tabs (fresh_indices st) st' = {Min (free_blocks st)} \<and>
    (\<forall>j<512. entry st' [j] = (if j < 256 then None else entry st [j])) \<and>
    (\<forall>x. pg (hhdm_offset st) x \<notin> {Min (free_blocks st)} \<union> bitmap_pages st \<longrightarrow>
       mem st' x = mem st x)"
proof -
  let ?f = "Min (free_blocks st)" and ?I = "fresh_indices st"
  have f: "?f \<in> free_blocks st" using alloc_min(1) [OF assms] .
  note ff = free_block_facts [OF assms(1) f]
  obtain st' where st': "vmm_initialize st = Some st'" "cr3 st' = block_addr ?f" "pmm_wf st'"
      "hhdm_offset st' = hhdm_offset st" "bitmap_pages st' = bitmap_pages st"
      "free_blocks st' = free_blocks st - {?f}"
      "\<forall>j<512. entry st' [j] = (if j < 256 then None else entry st [j])" "pmm.more st' = pmm.more st"
      "\<forall>x. pg (hhdm_offset st) x \<notin> {?f} \<union> bitmap_pages st \<longrightarrow> mem st' x = mem st x"
    using vmm_initialize_ok [OF assms] by blast
  have "entry st' [i] = None" if "i \<in> ?I" for i
    using that st'(7) by (auto simp: fresh_indices_def)
  then have tab: "table st' q = (if q = [] then Some (block_addr ?f) else None)" if "vpath ?I q" for q
    using no_tables [of ?I st' q] that st'(2) ff(1) by (simp add: block_addr_masked)
  have "vpath ?I []" by (simp add: vpath_def lpath_def)
  moreover from this have "table st' [] = Some (block_addr ?f)" using tab by (simp del: table_Nil)
  ultimately have "?f \<in> tabs ?I st'"
    unfolding tabs_def using ff(1) by (intro CollectI exI [of _ "block_addr ?f"]) auto
  then have tabs: "tabs ?I st' = {?f}"
    using tab ff(1) by (auto simp: tabs_def split: if_splits)
  have "reachable_page st' i = reachable_page st i" for i
    by (simp add: reachable_page_def st'(4))
  then have wf: "vm_wf ?I st'"
    using assms(1) f ff st' tab by (auto simp: vm_wf_def tabs split: if_splits)
  with st' tabs show ?thesis by (intro exI [of _ st']) simp
qed

section \<open>Properties\<close>

lemma va_path_frame: "walk st va = walk st' va" if "entry st (va_path va) = entry st' (va_path va)"
  using that by (simp add: walk_entry)

text \<open>
  C8. \<open>vmm_map_page\<close> with three free frames at hand: afterwards the hardware's walk translates
  every address of the page to the frame, every other page below the entries of \<open>I\<close> is
  translated as before, the table invariant holds, at most three frames are used, and no
  memory changed but the tables, the frames taken and the bitmap.
\<close>

theorem vmm_map_page_maps:
  assumes "vm_wf I st" and "3 \<le> card (free_blocks st)" and "page_index 39 virt \<in> I"
  shows "\<exists>st'. vmm_map_page phys virt flags st = Some st' \<and> vm_ext I 3 st st' \<and>
    (\<forall>va. page_index 39 va \<in> I \<longrightarrow> walk st' va =
       (if va_path va = va_path virt then Some ((phys AND 0x000FFFFFFFFFF000) + (va AND 0xFFF))
        else walk st va))"
proof -
  obtain st' where 1: "vmm_map_page phys virt flags st = Some st'" "vm_ext I 3 st st'"
      "\<forall>q. lpath I q \<longrightarrow> length q = 4 \<longrightarrow>
         entry st' q = (if q = va_path virt then Some (leaf_entry phys flags) else entry st q)"
    using vmm_map_page_ok [OF assms] by blast
  have "walk st' va =
      (if va_path va = va_path virt then Some ((phys AND entry_mask) + (va AND 0xFFF))
       else walk st va)" if "page_index 39 va \<in> I" for va
    using 1(3) va_path_lpath [OF that] leaf_entry_frame by (simp add: walk_entry)
  with 1 show ?thesis by blast
qed

subsection \<open>A concrete address space\<close>

definition demo_vmm :: pmm where
  "demo_vmm = demo_pmm\<lparr>pmm_bitmap := 0xFFFF800000100000, cr3 := 0x200000\<rparr>"

lemma demo_vmm_simps [simp]:
  "mem demo_vmm = (\<lambda>_. 0)" "hhdm_offset demo_vmm = 0xFFFF800000000000"
  "max_blocks demo_vmm = 64" "pmm_bitmap demo_vmm = 0xFFFF800000100000"
  "cr3 demo_vmm = 0x200000"
  by (simp_all add: demo_vmm_def demo_pmm_def)

lemma entry_at_zero [simp]: "entry_at (\<lambda>_. 0) h t i = 0"
  by (rule bit_word_eqI) (simp add: entry_at_def bit_ldw)

lemma demo_vmm_table: "table demo_vmm q = (if q = [] then Some 0x200000 else None)"
  by (cases q) (simp_all add: table_def split: option.splits)

lemma demo_vmm_tabs: "tabs I demo_vmm = {512}"
proof -
  have "vpath I []" by (simp add: vpath_def lpath_def)
  then show ?thesis by (auto simp: tabs_def demo_vmm_table bno_def split: if_splits)
qed

lemma demo_vmm_bitmap: "bitmap_pages demo_vmm \<subseteq> {256}"
proof -
  have al: "aligned 0x100000" "bno 0x100000 = 256" by (simp_all add: aligned_def bno_def)
  have "pg 0xFFFF800000000000 x = 256" if "within x 0xFFFF800000100000 8" for x
  proof -
    have "within x (0x100000 + 0xFFFF800000000000) 4096"
      using within_mono [OF that, of 4096] by simp
    then show ?thesis using within_page [OF al(1)] al(2) by metis
  qed
  then show ?thesis by (auto simp: bitmap_pages_def bitmap_bytes_def)
qed

lemma demo_vmm_free: "free_blocks demo_vmm = {..<64}"
  by (auto simp: free_blocks_def blk_def get_bit_def)

lemma demo_vmm_reachable: "i < 1024 \<Longrightarrow> reachable_page demo_vmm i"
proof -
  assume i: "i < 1024"
  then have "unat (block_addr i) = 4096 * i" by (intro unat_block_addr) simp
  then have "unat (block_addr i + 0xFFFF800000000000) = 4096 * i + 0xFFFF800000000000"
    using i by (subst unat_add_lem [THEN iffD1]) simp_all
  then show ?thesis
    using i by (simp add: reachable_page_def kregion_def khalf_unat)
qed

lemma demo_vmm_wf: "vm_wf I demo_vmm"
proof -
  have "pmm_wf demo_vmm"
    by (simp add: pmm_wf_def bitmap_bytes_def kregion_def khalf_def)
      (simp add: demo_vmm_def demo_pmm_def tx_live_demo)
  then show ?thesis
    using demo_vmm_bitmap demo_vmm_reachable
    by (auto simp: vm_wf_def demo_vmm_table demo_vmm_tabs demo_vmm_free split: if_splits)
qed

theorem vmm_map_page_maps_witness:
  "\<exists>st'. vmm_map_page 0x7000 0x80000000 7 demo_vmm = Some st' \<and>
    walk st' 0x80000123 = Some 0x7123 \<and> walk st' 0x80001123 = None"
proof -
  let ?v = "0x80000000 :: u64"
  have I: "page_index 39 ?v \<in> {0}" "page_index 39 (?v + 0x123) \<in> {0}"
    "page_index 39 (?v + 0x1123) \<in> {0}" by (simp_all add: page_index_def)
  have same: "va_path (?v + 0x123) = va_path ?v" and other: "va_path (?v + 0x1123) \<noteq> va_path ?v"
    by (simp_all add: va_path_def page_index_def)
  have none: "walk demo_vmm va = None" for va
    by (simp add: walk_def demo_vmm_table [unfolded table_def] va_path_def)
  show ?thesis
    using vmm_map_page_maps [OF demo_vmm_wf _ I(1), of "0x7000" 7] I(2,3) same other none
    by (fastforce simp: demo_vmm_free)
qed

text \<open>
  C31. \<open>vmm_initialize\<close> switches to a page table that maps nothing in the lower half and keeps
  the boot loader's upper half: entries 256 to 511 are the old ones, every lower-half address
  is unmapped, the only memory touched is the new frame and the bitmap, and the table
  invariant of \<open>vmm_map_page\<close> holds for every index that is not the boot loader's.
\<close>

theorem vmm_initialize_clean:
  assumes "vm_wf {} st" and "free_blocks st \<noteq> {}"
  shows "\<exists>st'. vmm_initialize st = Some st' \<and> vm_wf (fresh_indices st) st' \<and>
    cr3 st' = block_addr (Min (free_blocks st)) \<and>
    free_blocks st' = free_blocks st - {Min (free_blocks st)} \<and>
    (\<forall>va. page_index 39 va < 256 \<longrightarrow> walk st' va = None) \<and>
    (\<forall>i\<in>{256..<512}. entry st' [i] = entry st [i]) \<and>
    (\<forall>x. pg (hhdm_offset st) x \<notin> {Min (free_blocks st)} \<union> bitmap_pages st \<longrightarrow>
       mem st' x = mem st x)"
proof -
  obtain st' where st': "vmm_initialize st = Some st'" "vm_wf (fresh_indices st) st'"
      "cr3 st' = block_addr (Min (free_blocks st))"
      "free_blocks st' = free_blocks st - {Min (free_blocks st)}"
      "\<forall>j<512. entry st' [j] = (if j < 256 then None else entry st [j])"
      "\<forall>x. pg (hhdm_offset st) x \<notin> {Min (free_blocks st)} \<union> bitmap_pages st \<longrightarrow>
         mem st' x = mem st x"
    using vmm_initialize_fresh [OF assms] by blast
  have "walk st' va = None" if "page_index 39 va < 256" for va
  proof -
    have "entry st' [page_index 39 va] = None" using st'(5) that by simp
    then have "table st' [page_index 39 va] = None" by (simp add: table_entry)
    then show ?thesis by (simp add: walk_def table_def va_path_def)
  qed
  with st' show ?thesis by (intro exI [of _ st']) simp
qed

theorem vmm_initialize_clean_witness:
  "\<exists>st'. vmm_initialize demo_vmm = Some st' \<and> cr3 st' = 0 \<and> walk st' 0x80000000 = None"
proof -
  have "page_index 39 0x80000000 < 256" by (simp add: page_index_def)
  then show ?thesis
    using vmm_initialize_clean [OF demo_vmm_wf] by (auto simp: demo_vmm_free Min_first block_addr_def)
qed

end
