(* ===== verification/Kheap.thy ===== *)
theory Kheap
  imports Vmm
begin

text \<open>
  The kernel heap (kernel/kernel/kheap.c): blocks with a 24-byte header (the next block, the
  size with the header, the free flag) in one list that covers the heap without gaps. The
  abstract heap is the list of the blocks' sizes and flags; \<open>alloc_list\<close> and \<open>free_at\<close> are
  what \<open>kmalloc\<close> and \<open>kfree\<close> do to it, and \<open>live\<close> the payloads it has handed out.
\<close>

unbundle bit_operations_syntax

section \<open>kheap.c\<close>

text \<open>\<open>struct kheap_block\<close>: \<open>next\<close> at 0, \<open>size\<close> at 8, \<open>is_free\<close> at 16.\<close>

abbreviation HDR :: u64 where "HDR \<equiv> 24"

record kheap = pmm +
  free_list :: u64

definition kheap_initialize :: "u64 \<Rightarrow> u64 \<Rightarrow> 'a kheap_scheme \<Rightarrow> 'a kheap_scheme option" where
  "kheap_initialize start_addr total_size st =
     do {
       let st = st\<lparr>free_list := start_addr\<rparr>;
       st \<leftarrow> st64 st (free_list st + 8) total_size;
       st \<leftarrow> st32 st (free_list st + 16) 1;
       st64 st (free_list st) 0
     }"

definition kmalloc_take :: "u64 \<Rightarrow> u64 \<Rightarrow> 'a kheap_scheme \<Rightarrow> (u64 \<times> 'a kheap_scheme) option" where
  "kmalloc_take total_size current st =
     do {
       sz \<leftarrow> ld64 st (current + 8);
       st \<leftarrow> (if sz > total_size + HDR then
                do {
                  let new_block = current + total_size;
                  st \<leftarrow> st64 st (new_block + 8) (sz - total_size);
                  st \<leftarrow> st32 st (new_block + 16) 1;
                  n \<leftarrow> ld64 st current;
                  st \<leftarrow> st64 st new_block n;
                  st \<leftarrow> st64 st (current + 8) total_size;
                  st64 st current new_block
                }
              else Some st);
       st \<leftarrow> st32 st (current + 16) 0;
       Some (current + HDR, st)
     }"

partial_function (option) kmalloc_loop ::
  "u64 \<Rightarrow> u64 \<Rightarrow> 'a kheap_scheme \<Rightarrow> (u64 \<times> 'a kheap_scheme) option" where
  "kmalloc_loop total_size current st =
     (if current = 0 then
        do {
          st \<leftarrow> kprintf (''KHEAP: OOM (Out of Memory)'' @ nl) [] st;
          Some (0, st)
        }
      else
        do {
          is_free \<leftarrow> ld32 st (current + 16);
          fits \<leftarrow> (if is_free \<noteq> 0 then map_option (\<lambda>sz. sz \<ge> total_size) (ld64 st (current + 8))
                    else Some False);
          if fits then kmalloc_take total_size current st
          else do {
            n \<leftarrow> ld64 st current;
            kmalloc_loop total_size n st
          }
        })"

definition kmalloc :: "u64 \<Rightarrow> 'a kheap_scheme \<Rightarrow> (u64 \<times> 'a kheap_scheme) option" where
  "kmalloc sz st =
     do {
       let total_size = sz + HDR;
       kmalloc_loop total_size (free_list st) st
     }"

definition kfree :: "u64 \<Rightarrow> 'a kheap_scheme \<Rightarrow> 'a kheap_scheme option" where
  "kfree ptr st =
     (if ptr = 0 then Some st
      else
        do {
          let block = ptr - HDR;
          st \<leftarrow> st32 st (block + 16) 1;
          n \<leftarrow> ld64 st block;
          nfree \<leftarrow> (if n \<noteq> 0 then ld32 st (n + 16) else Some 0);
          if nfree \<noteq> 0 then
            do {
              sz \<leftarrow> ld64 st (block + 8);
              nsz \<leftarrow> ld64 st (n + 8);
              st \<leftarrow> st64 st (block + 8) (sz + nsz);
              nn \<leftarrow> ld64 st n;
              st64 st block nn
            }
          else Some st
        })"

section \<open>The abstract heap\<close>

type_synonym blocks = "(nat \<times> bool) list"

fun total :: "blocks \<Rightarrow> nat" where
  "total [] = 0"
| "total ((n, fr) # bs) = n + total bs"

definition sizes_ok :: "blocks \<Rightarrow> bool" where
  "sizes_ok bs \<longleftrightarrow> (\<forall>(n, fr) \<in> set bs. 24 \<le> n)"

fun alloc_list :: "nat \<Rightarrow> blocks \<Rightarrow> (nat \<times> blocks) option" where
  "alloc_list t [] = None"
| "alloc_list t ((n, fr) # bs) =
     (if fr \<and> t \<le> n then
        Some (0, if t + 24 < n then (t, False) # (n - t, True) # bs else (n, False) # bs)
      else map_option (\<lambda>(off, bs'). (n + off, (n, fr) # bs')) (alloc_list t bs))"

fun merge :: "nat \<Rightarrow> blocks \<Rightarrow> blocks" where
  "merge n ((k, True) # bs) = (n + k, True) # bs"
| "merge n bs = (n, True) # bs"

fun free_at :: "nat \<Rightarrow> blocks \<Rightarrow> blocks" where
  "free_at off [] = []"
| "free_at off ((n, fr) # bs) =
     (if off = 0 then merge n bs else (n, fr) # free_at (off - n) bs)"

text \<open>The payloads in use, as offset and length, and the offsets that belong to headers.\<close>

fun live :: "blocks \<Rightarrow> (nat \<times> nat) set" where
  "live [] = {}"
| "live ((n, fr) # bs) = (if fr then {} else {(24, n - 24)}) \<union> (\<lambda>(off, k). (n + off, k)) ` live bs"

fun hdr :: "blocks \<Rightarrow> nat \<Rightarrow> bool" where
  "hdr [] d \<longleftrightarrow> False"
| "hdr ((n, fr) # bs) d \<longleftrightarrow> d < 24 \<or> n \<le> d \<and> hdr bs (d - n)"

text \<open>How the blocks lie in memory from \<open>a\<close> on.\<close>

fun heap_at :: "(u64 \<Rightarrow> u8) \<Rightarrow> u64 \<Rightarrow> blocks \<Rightarrow> bool" where
  "heap_at m a [] \<longleftrightarrow> True"
| "heap_at m a ((n, fr) # bs) \<longleftrightarrow>
     ldw 8 m a = (if bs = [] then 0 else a + of_nat n) \<and> ldw 8 m (a + 8) = (of_nat n :: u64) \<and>
     (fr \<longleftrightarrow> ldw 4 m (a + 16) \<noteq> (0 :: u32)) \<and> heap_at m (a + of_nat n) bs"

subsection \<open>What the abstract operations do\<close>

lemma sizes_ok_simps [simp]:
  "sizes_ok []" "sizes_ok ((n, fr) # bs) \<longleftrightarrow> 24 \<le> n \<and> sizes_ok bs"
  by (simp_all add: sizes_ok_def)

lemma merge_props:
  "total (merge n bs) = n + total bs" "24 \<le> n \<Longrightarrow> sizes_ok bs \<Longrightarrow> sizes_ok (merge n bs)"
  "live (merge n bs) = (\<lambda>(off, k). (n + off, k)) ` live bs"
  by (induction n bs rule: merge.induct) (auto simp: image_iff add.assoc)

lemma alloc_list_total:
  "alloc_list t bs = Some (off, bs') \<Longrightarrow> total bs' = total bs"
  by (induction bs arbitrary: off bs' rule: live.induct) (auto split: if_splits)

lemma alloc_list_sizes:
  "alloc_list t bs = Some (off, bs') \<Longrightarrow> sizes_ok bs \<Longrightarrow> 24 \<le> t \<Longrightarrow> sizes_ok bs'"
  by (induction bs arbitrary: off bs' rule: live.induct) (auto split: if_splits)

lemma live_bound: "(off, k) \<in> live bs \<Longrightarrow> sizes_ok bs \<Longrightarrow> 24 \<le> off \<and> off + k \<le> total bs"
  by (induction bs arbitrary: off rule: live.induct) (fastforce split: if_splits)+

lemma hdr_bound: "hdr bs d \<Longrightarrow> sizes_ok bs \<Longrightarrow> d < total bs"
  by (induction bs d rule: hdr.induct) auto

lemma live_not_hdr:
  "(off, k) \<in> live bs \<Longrightarrow> sizes_ok bs \<Longrightarrow> off \<le> d \<Longrightarrow> d < off + k \<Longrightarrow> \<not> hdr bs d"
proof (induction bs arbitrary: off d rule: live.induct)
  case (2 n fr bs)
  then show ?case by (fastforce split: if_splits dest: live_bound)
qed simp

lemma live_disjoint:
  "(off, k) \<in> live bs \<Longrightarrow> (off', k') \<in> live bs \<Longrightarrow> sizes_ok bs \<Longrightarrow> off < off' \<Longrightarrow> off + k \<le> off'"
proof (induction bs arbitrary: off off' rule: live.induct)
  case (2 n fr bs)
  then show ?case by (fastforce split: if_splits dest: live_bound)
qed simp

lemma live_unique:
  "(off, k) \<in> live bs \<Longrightarrow> (off, k') \<in> live bs \<Longrightarrow> sizes_ok bs \<Longrightarrow> k = k'"
proof (induction bs arbitrary: off rule: live.induct)
  case (2 n fr bs)
  then show ?case by (fastforce split: if_splits dest: live_bound)
qed simp

lemma alloc_list_live:
  "alloc_list t bs = Some (off, bs') \<Longrightarrow> sizes_ok bs \<Longrightarrow> 24 \<le> t \<Longrightarrow>
     \<exists>k. t \<le> k + 24 \<and> live bs' = insert (off + 24, k) (live bs) \<and> off + 24 \<notin> fst ` live bs"
proof (induction bs arbitrary: off bs' rule: live.induct)
  case (2 n fr bs)
  show ?case
  proof (cases "fr \<and> t \<le> n")
    case True
    let ?sh = "\<lambda>n. (\<lambda>(off, k). (n + off, k)) :: nat \<times> nat \<Rightarrow> nat \<times> nat"
    have sh: "?sh t ` ?sh (n - t) ` live bs = ?sh n ` live bs"
      using True by (force simp: image_image split_beta)
    have off: "off = 0" and new: "24 \<notin> fst ` live ((n, fr) # bs)"
      using True 2 live_bound by fastforce+
    show ?thesis
    proof (cases "t + 24 < n")
      case split: True
      then have bs': "bs' = (t, False) # (n - t, True) # bs" using 2 True by simp
      show ?thesis
        unfolding bs' using True off new sh by (intro exI [of _ "t - 24"]) simp
    next
      case False
      then show ?thesis
        using 2 True off new by (intro exI [of _ "n - 24"]) auto
    qed
  next
    case False
    then obtain off0 bs0 where 0: "alloc_list t bs = Some (off0, bs0)" "off = n + off0"
        "bs' = (n, fr) # bs0" using 2 by (auto split: if_splits)
    then obtain k where "t \<le> k + 24" "live bs0 = insert (off0 + 24, k) (live bs)"
        "off0 + 24 \<notin> fst ` live bs" using 2 by auto
    then show ?thesis
      using 0 2 by (intro exI [of _ k]) (auto simp: image_iff split: if_splits)
  qed
qed simp

lemma free_at_live:
  "(off + 24, k) \<in> live bs \<Longrightarrow> sizes_ok bs \<Longrightarrow>
     live (free_at off bs) = live bs - {(off + 24, k)} \<and> sizes_ok (free_at off bs) \<and>
     total (free_at off bs) = total bs"
proof (induction bs arbitrary: off rule: live.induct)
  case (2 n fr bs)
  show ?case
  proof (cases "off = 0")
    case True
    then have "\<not> fr" "k = n - 24"
      using 2 live_bound by (fastforce split: if_splits)+
    moreover have "(24, n - 24) \<notin> (\<lambda>(off, k). (n + off, k)) ` live bs"
      using 2 live_bound by fastforce
    ultimately show ?thesis using True 2 by (simp add: merge_props)
  next
    case False
    then have "(off + 24, k) \<in> (\<lambda>(off, k). (n + off, k)) ` live bs"
      using 2 by (auto split: if_splits)
    then obtain off0 where 0: "off + 24 = n + off0" "(off0, k) \<in> live bs" by auto
    have "24 \<le> off0" using live_bound [OF 0(2)] 2 by simp
    then have off: "off - n + 24 = off0" "n \<le> off" using 0(1) by simp_all
    then have IH: "live (free_at (off - n) bs) = live bs - {(off0, k)} \<and>
        sizes_ok (free_at (off - n) bs) \<and> total (free_at (off - n) bs) = total bs"
      using 2 0 by simp
    have "(\<lambda>(off, k). (n + off, k)) ` (live bs - {(off0, k)}) =
        (\<lambda>(off, k). (n + off, k)) ` live bs - {(off + 24, k)}"
      using 0(1) by auto
    then show ?thesis using IH False 2 0(1) by auto
  qed
qed simp

section \<open>The heap in memory\<close>

lemma hdr_shift:
  fixes x a :: u64
  assumes "n + total bs \<le> 2 ^ 64" and "sizes_ok bs"
  shows "hdr bs (unat (x - (a + of_nat n))) \<longleftrightarrow> n \<le> unat (x - a) \<and> hdr bs (unat (x - a) - n)"
proof -
  let ?d = "unat (x - (a + of_nat n))"
  have w: "?d < total bs \<longleftrightarrow> n \<le> unat (x - a) \<and> unat (x - a) < n + total bs"
    using within_offset_iff [OF assms(1), of x a] by (simp add: within_def)
  have eq: "?d = unat (x - a) - n" if "?d < total bs"
  proof -
    have lt: "n < 2 ^ 64" using that assms(1) by linarith
    then have "of_nat n \<le> x - a" using that w by (simp add: word_le_nat_alt unat_of_nat64)
    then have "unat (x - a - of_nat n) = unat (x - a) - n"
      using lt by (simp add: unat_sub unat_of_nat64)
    then show ?thesis by (simp add: diff_diff_add)
  qed
  show ?thesis
  proof
    assume "hdr bs ?d"
    then show "n \<le> unat (x - a) \<and> hdr bs (unat (x - a) - n)"
      using hdr_bound [OF _ assms(2)] w eq by metis
  next
    assume r: "n \<le> unat (x - a) \<and> hdr bs (unat (x - a) - n)"
    then have "unat (x - a) - n < total bs" using hdr_bound [OF _ assms(2)] by blast
    then have "?d < total bs" using w r by linarith
    then show "hdr bs ?d" using r eq by simp
  qed
qed

lemma ldw_cong_off:
  assumes "\<And>x. unat (x - a) < 24 \<Longrightarrow> m' x = m x" and "off + k \<le> 24"
  shows "ldw k m' (a + of_nat off) = ldw k m (a + of_nat off)"
  using assms within_offset_iff [of off k _ a] by (intro ldw_cong) simp

lemma heap_at_cong:
  assumes "sizes_ok bs" and "total bs \<le> 2 ^ 64"
    and "\<And>x. hdr bs (unat (x - a)) \<Longrightarrow> m' x = m x"
  shows "heap_at m' a bs = heap_at m a bs"
  using assms
proof (induction bs arbitrary: a rule: live.induct)
  case (2 n fr bs)
  have hd: "m' x = m x" if "unat (x - a) < 24" for x using 2(4) that by simp
  have "ldw 8 m' a = (ldw 8 m a :: u64)" "ldw 8 m' (a + 8) = (ldw 8 m (a + 8) :: u64)"
    "ldw 4 m' (a + 16) = (ldw 4 m (a + 16) :: u32)"
    using ldw_cong_off [OF hd, where off = 0 and k = 8] ldw_cong_off [OF hd, where off = 8 and k = 8]
      ldw_cong_off [OF hd, where off = 16 and k = 4]
    by simp_all
  moreover have "heap_at m' (a + of_nat n) bs = heap_at m (a + of_nat n) bs"
    using 2 hdr_shift [of n bs _ a] by (intro "2.IH") auto
  ultimately show ?case by simp
qed simp

text \<open>
  \<open>heap st bs\<close>: the heap of \<open>st\<close> is laid out as \<open>bs\<close>, in the kernel half and short of the
  last address, so that no pointer into it is null.
\<close>

definition heap :: "'a kheap_scheme \<Rightarrow> blocks \<Rightarrow> bool" where
  "heap st bs \<longleftrightarrow> bs \<noteq> [] \<and> sizes_ok bs \<and> kregion (free_list st) (Suc (total bs)) \<and>
     heap_at (mem st) (free_list st) bs"

lemma kregion_header:
  assumes "kregion a (n + k)" and "24 \<le> n"
  shows "kregion a 8" "kregion (a + 8) 8" "kregion (a + 16) 4" "a \<noteq> 0"
proof -
  have "kregion (a + of_nat 8) (n + k - 8)" "kregion (a + of_nat 16) (n + k - 16)"
    using assms by (intro kregion_offset; simp)+
  then show "kregion (a + 8) 8" "kregion (a + 16) 4"
    using assms(2) by (auto intro: kregion_mono)
  show "kregion a 8" using assms by (auto intro: kregion_mono)
  show "a \<noteq> 0" using assms by (auto simp: kregion_def khalf_def)
qed

lemma kregion_next: "kregion a (n + k) \<Longrightarrow> kregion (a + of_nat n) k"
  using kregion_offset [of a "n + k" n] by simp

text \<open>Stores to the three fields of a header, and loads through them.\<close>

lemma header_stores:
  fixes v w :: u64 and f :: u32
  shows "ldw 8 (stw 8 m a v) (a + 8) = (ldw 8 m (a + 8) :: u64)"
    "ldw 4 (stw 8 m a v) (a + 16) = (ldw 4 m (a + 16) :: u32)"
    "ldw 8 (stw 8 m (a + 8) v) a = (ldw 8 m a :: u64)"
    "ldw 4 (stw 8 m (a + 8) v) (a + 16) = (ldw 4 m (a + 16) :: u32)"
    "ldw 8 (stw 4 m (a + 16) f) a = (ldw 8 m a :: u64)"
    "ldw 8 (stw 4 m (a + 16) f) (a + 8) = (ldw 8 m (a + 8) :: u64)"
    "ldw 8 (stw 8 m a v) a = v" "ldw 8 (stw 8 m (a + 8) v) (a + 8) = v"
    "ldw 4 (stw 4 m (a + 16) f) (a + 16) = f"
  using within_offset_iff [of 0 8 _ a] within_offset_iff [of 8 8 _ a] within_offset_iff [of 16 4 _ a]
  by (simp_all add: ldw_stw_same) (rule ldw_stw_other; simp; linarith)+

lemma header_frame:
  fixes v :: u64 and f :: u32
  assumes "\<not> unat (x - a) < 24"
  shows "stw 8 m a v x = m x" "stw 8 m (a + 8) v x = m x" "stw 4 m (a + 16) f x = m x"
  using assms within_offset_iff [of 0 8 x a] within_offset_iff [of 8 8 x a]
    within_offset_iff [of 16 4 x a] by (simp_all add: stw_outside)

section \<open>kmalloc\<close>

lemma of_nat64_less_iff:
  "i < 2 ^ 64 \<Longrightarrow> j < 2 ^ 64 \<Longrightarrow> (of_nat i :: u64) < of_nat j \<longleftrightarrow> i < j"
  by (simp add: word_less_nat_alt unat_of_nat64)

lemma kregion_small: "kregion a n \<Longrightarrow> n + 48 < 2 ^ 64"
  by (auto simp: kregion_def khalf_unat)

text \<open>Splitting: a new header at \<open>t\<close> behind \<open>a\<close>, then the old header rewritten.\<close>

lemma split_mem:
  fixes m :: "u64 \<Rightarrow> u8" and a :: u64
  assumes heap: "heap_at m a ((n, fr) # bs)" and sz: "sizes_ok bs" "24 \<le> t" "t + 24 < n"
    and bound: "n + total bs \<le> 2 ^ 64"
  defines "b \<equiv> a + of_nat t"
  defines "m' \<equiv> stw 4 (stw 8 (stw 8 (stw 8 (stw 4 (stw 8 m (b + 8) (of_nat n - of_nat t :: u64))
    (b + 16) (1 :: u32)) b (ldw 8 m a :: u64)) (a + 8) (of_nat t :: u64)) a b) (a + 16) (0 :: u32)"
  shows "heap_at m' a ((t, False) # (n - t, True) # bs)"
    and "\<not> hdr ((t, False) # (n - t, True) # bs) (unat (x - a)) \<Longrightarrow> m' x = m x"
proof -
  let ?m3 = "stw 8 (stw 4 (stw 8 m (b + 8) (of_nat n - of_nat t :: u64)) (b + 16) (1 :: u32))
    b (ldw 8 m a :: u64)"
  have b: "unat (x - b) < 24 \<longleftrightarrow> t \<le> unat (x - a) \<and> unat (x - a) < t + 24" for x
    using within_offset_iff [of t 24 x a] sz(3) bound by (simp add: within_def b_def)
  have new: "?m3 x = m x" if "\<not> unat (x - b) < 24" for x
    using that by (simp add: header_frame)
  have old: "m' x = ?m3 x" if "\<not> unat (x - a) < 24" for x
    unfolding m'_def using that by (simp add: header_frame)
  show frame: "m' x = m x" if "\<not> hdr ((t, False) # (n - t, True) # bs) (unat (x - a))" for x
    using that old [of x] new [of x] b [of x] by auto
  have "heap_at m' (b + of_nat (n - t)) bs = heap_at m (b + of_nat (n - t)) bs"
  proof (rule heap_at_cong [OF sz(1)])
    fix x assume "hdr bs (unat (x - (b + of_nat (n - t))))"
    then have "hdr bs (unat (x - (a + of_nat n)))" using sz(3) by (simp add: b_def of_nat_diff)
    then have "n \<le> unat (x - a)" using hdr_shift [OF bound sz(1), of x a] by simp
    then show "m' x = m x" using old [of x] new [of x] b [of x] sz(2,3) by simp
  qed (use bound in simp)
  moreover have "b + of_nat (n - t) = a + of_nat n" using sz(3) by (simp add: b_def of_nat_diff)
  ultimately have rest: "heap_at m' (a + of_nat n) bs" using heap by simp
  have hb: "m' x = ?m3 x" if "unat (x - b) < 24" for x
    using old [of x] that b [of x] sz(2) by simp
  have "ldw 8 m' b = (ldw 8 ?m3 b :: u64)" "ldw 8 m' (b + 8) = (ldw 8 ?m3 (b + 8) :: u64)"
    "ldw 4 m' (b + 16) = (ldw 4 ?m3 (b + 16) :: u32)"
    using ldw_cong_off [OF hb, where off = 0 and k = 8] ldw_cong_off [OF hb, where off = 8 and k = 8]
      ldw_cong_off [OF hb, where off = 16 and k = 4] by simp_all
  then have hdr_b: "ldw 8 m' b = (ldw 8 m a :: u64)"
    "ldw 8 m' (b + 8) = (of_nat (n - t) :: u64)" "ldw 4 m' (b + 16) = (1 :: u32)"
    using sz(3) by (simp_all add: header_stores of_nat_diff)
  have hdr_a: "ldw 8 m' a = b" "ldw 8 m' (a + 8) = (of_nat t :: u64)" "ldw 4 m' (a + 16) = (0 :: u32)"
    unfolding m'_def by (simp_all add: header_stores)
  have eq: "b + of_nat (n - t) = a + of_nat n" using sz(3) by (simp add: b_def of_nat_diff)
  show "heap_at m' a ((t, False) # (n - t, True) # bs)"
    using hdr_a hdr_b rest heap sz(3) unfolding heap_at.simps b_def [symmetric] eq by simp
qed

lemma take_mem:
  fixes m :: "u64 \<Rightarrow> u8" and a :: u64 and f :: u32
  assumes heap: "heap_at m a ((n, fr) # bs)" and sz: "sizes_ok bs" "24 \<le> n"
    and bound: "n + total bs \<le> 2 ^ 64"
  defines "m' \<equiv> stw 4 m (a + 16) f"
  shows "heap_at m' a ((n, f \<noteq> 0) # bs)"
    and "\<not> unat (x - a) < 24 \<Longrightarrow> m' x = m x"
proof -
  show frame: "m' x = m x" if "\<not> unat (x - a) < 24" for x
    using that by (simp add: m'_def header_frame)
  have "heap_at m' (a + of_nat n) bs = heap_at m (a + of_nat n) bs"
  proof (rule heap_at_cong [OF sz(1)])
    fix x assume "hdr bs (unat (x - (a + of_nat n)))"
    then have "n \<le> unat (x - a)" using hdr_shift [OF bound sz(1), of x a] by simp
    then show "m' x = m x" using frame sz(2) by simp
  qed (use bound in simp)
  then show "heap_at m' a ((n, f \<noteq> 0) # bs)"
    using heap by (simp add: m'_def header_stores)
qed

lemma kmalloc_take_ok:
  fixes st :: "'a kheap_scheme"
  assumes heap: "heap_at (mem st) a ((n, fr) # bs)" and sz: "sizes_ok bs" "24 \<le> t" "t \<le> n"
    and reg: "kregion a (n + total bs)"
  defines "bs' \<equiv> if t + 24 < n then (t, False) # (n - t, True) # bs else (n, False) # bs"
  shows "\<exists>m. kmalloc_take (of_nat t) a st = Some (a + 24, st\<lparr>mem := m\<rparr>) \<and> heap_at m a bs' \<and>
    (\<forall>x. \<not> hdr bs' (unat (x - a)) \<longrightarrow> m x = mem st x)"
proof -
  have small: "n + total bs + 48 < 2 ^ 64" using reg by (rule kregion_small)
  note ka = kregion_header [OF reg]
  have n: "ldw 8 (mem st) (a + 8) = (of_nat n :: u64)" using heap by simp
  have cond: "(of_nat n :: u64) > of_nat t + 24 \<longleftrightarrow> t + 24 < n"
    using of_nat64_less_iff [of "t + 24" n] small sz(3) by simp
  show ?thesis
  proof (cases "t + 24 < n")
    case True
    let ?b = "a + of_nat t"
    have "kregion (a + of_nat t) (n - t + total bs)"
      using kregion_offset [OF reg, of t] sz(3) by simp
    note kb = kregion_header [OF this]
    let ?m = "stw 4 (stw 8 (stw 8 (stw 8 (stw 4 (stw 8 (mem st) (?b + 8) (of_nat n - of_nat t :: u64))
      (?b + 16) (1 :: u32)) ?b (ldw 8 (mem st) a :: u64)) (a + 8) (of_nat t :: u64)) a ?b) (a + 16) (0 :: u32)"
    have apart: "\<not> unat (x - ?b) < 24" if "unat (x - a) < 24" for x
      using that within_offset_iff [of t 24 x a] True small sz(2) by (simp add: within_def)
    have next_: "ldw 8 (stw 4 (stw 8 (mem st) (?b + 8) v) (?b + 16) w) a = (ldw 8 (mem st) a :: u64)"
      for v :: u64 and w :: u32
    proof (rule ldw_cong)
      fix x assume "within x a 8"
      then show "stw 4 (stw 8 (mem st) (?b + 8) v) (?b + 16) w x = mem st x"
        using apart [of x] by (simp add: within_def header_frame)
    qed
    show ?thesis
      using True ka kb sz n cond next_ split_mem [OF heap sz(1,2) True] small
      by (intro exI [of _ ?m]) (simp add: kmalloc_take_def kernel_mem Let_def bs'_def)
  next
    case False
    then show ?thesis
      using ka sz n cond take_mem [OF heap sz(1), where f = 0] small
      by (intro exI [of _ "stw 4 (mem st) (a + 16) (0 :: u32)"])
        (simp add: kmalloc_take_def kernel_mem bs'_def)
  qed
qed

lemma kmalloc_loop_ok:
  fixes st :: "'a kheap_scheme"
  shows "heap_at (mem st) a bs \<Longrightarrow> sizes_ok bs \<Longrightarrow> kregion a (total bs) \<Longrightarrow> 24 \<le> t \<Longrightarrow> t < 2 ^ 64 \<Longrightarrow>
    (case alloc_list t bs of
       None \<Rightarrow> kmalloc_loop (of_nat t) (if bs = [] then 0 else a) st = kmalloc_loop (of_nat t) 0 st
     | Some (off, bs') \<Rightarrow>
         \<exists>m. kmalloc_loop (of_nat t) (if bs = [] then 0 else a) st =
             Some (a + of_nat off + 24, st\<lparr>mem := m\<rparr>) \<and>
           heap_at m a bs' \<and> (\<forall>x. \<not> hdr bs' (unat (x - a)) \<longrightarrow> m x = mem st x))"
proof (induction bs arbitrary: a rule: live.induct)
  case (2 n fr bs)
  have reg: "kregion a (n + total bs)" and szs: "24 \<le> n" "sizes_ok bs" using 2 by simp_all
  have small: "n + total bs + 48 < 2 ^ 64" using reg by (rule kregion_small)
  note ka = kregion_header [OF reg szs(1)]
  have hd: "ldw 8 (mem st) (a + 8) = (of_nat n :: u64)"
    "ldw 8 (mem st) a = (if bs = [] then 0 else a + of_nat n :: u64)"
    "(ldw 4 (mem st) (a + 16) \<noteq> (0 :: u32)) = fr" using 2(2) by auto
  have cmp: "(of_nat t :: u64) \<le> of_nat n \<longleftrightarrow> t \<le> n"
    using small 2(6) by (simp add: word_le_nat_alt unat_of_nat64)
  show ?case
  proof (cases "fr \<and> t \<le> n")
    case True
    then have "kmalloc_loop (of_nat t) a st = kmalloc_take (of_nat t) a st"
      using ka hd cmp by (subst kmalloc_loop.simps) (simp add: kernel_mem)
    then show ?thesis
      using kmalloc_take_ok [OF 2(2) szs(2) 2(5) _ reg] True by auto
  next
    case False
    have step: "kmalloc_loop (of_nat t) a st =
        kmalloc_loop (of_nat t) (if bs = [] then 0 else a + of_nat n) st"
      using False ka hd cmp by (subst kmalloc_loop.simps) (auto simp: kernel_mem)
    have rest: "heap_at (mem st) (a + of_nat n) bs" using 2(2) by simp
    note IH = "2.IH" [OF rest szs(2) kregion_next [OF reg] 2(5,6)]
    show ?thesis
    proof (cases "alloc_list t bs")
      case None
      then have "alloc_list t ((n, fr) # bs) = None" using False by auto
      then show ?thesis using None IH step by simp
    next
      case (Some r)
      obtain off bs' where r: "r = (off, bs')" by (cases r)
      then obtain m where m: "kmalloc_loop (of_nat t) (if bs = [] then 0 else a + of_nat n) st =
            Some (a + of_nat n + of_nat off + 24, st\<lparr>mem := m\<rparr>)"
          "heap_at m (a + of_nat n) bs'"
          "\<forall>x. \<not> hdr bs' (unat (x - (a + of_nat n))) \<longrightarrow> m x = mem st x"
        using IH Some by auto
      have ok: "total bs' = total bs" "sizes_ok bs'"
        using Some r alloc_list_total alloc_list_sizes szs(2) 2(5) by blast+
      have sh: "hdr bs' (unat (x - (a + of_nat n))) \<longleftrightarrow> n \<le> unat (x - a) \<and> hdr bs' (unat (x - a) - n)" for x
        using small ok by (intro hdr_shift) simp_all
      have frame: "m x = mem st x" if "\<not> hdr ((n, fr) # bs') (unat (x - a))" for x
        using m(3) sh [of x] that by auto
      have low: "m x = mem st x" if "unat (x - a) < 24" for x
        using m(3) sh [of x] that szs(1) by auto
      have "ldw 8 m a = (ldw 8 (mem st) a :: u64)" "ldw 8 m (a + 8) = (ldw 8 (mem st) (a + 8) :: u64)"
        "ldw 4 m (a + 16) = (ldw 4 (mem st) (a + 16) :: u32)"
        using ldw_cong_off [OF low, where off = 0 and k = 8]
          ldw_cong_off [OF low, where off = 8 and k = 8]
          ldw_cong_off [OF low, where off = 16 and k = 4] by simp_all
      moreover have "bs \<noteq> []" "bs' \<noteq> []" using Some r by (cases bs; auto split: if_splits)+
      ultimately have "heap_at m a ((n, fr) # bs')" using m(2) hd by auto
      moreover have "alloc_list t ((n, fr) # bs) = Some (n + off, (n, fr) # bs')"
        using Some r False by auto
      ultimately show ?thesis
        using step m(1) frame by (simp add: add.assoc del: alloc_list.simps heap_at.simps hdr.simps)
          blast
    qed
  qed
qed simp

lemma kmalloc_none:
  assumes "tx_live (st :: 'a kheap_scheme)"
  shows "\<exists>st'. kmalloc_loop t 0 st = Some (0, st') \<and>
    printed (lit (''KHEAP: OOM (Out of Memory)'' @ nl)) st st'"
proof -
  obtain out st' where "render Map.empty (''KHEAP: OOM (Out of Memory)'' @ nl) [] = Some out"
      "kprintf (''KHEAP: OOM (Out of Memory)'' @ nl) [] st = Some st'" "printed out st st'"
    using kprintf_plain [of "''KHEAP: OOM (Out of Memory)'' @ nl" "[]" st] assms by auto
  then show ?thesis by (subst kmalloc_loop.simps) simp
qed

lemma kmalloc_ok:
  fixes st :: "'a kheap_scheme"
  assumes "heap st bs" and "unat n + 24 < 2 ^ 64" and "tx_live st"
  shows "case alloc_list (unat n + 24) bs of
      None \<Rightarrow> \<exists>st'. kmalloc n st = Some (0, st') \<and>
        printed (lit (''KHEAP: OOM (Out of Memory)'' @ nl)) st st'
    | Some (off, bs') \<Rightarrow> \<exists>m. kmalloc n st = Some (free_list st + of_nat (off + 24), st\<lparr>mem := m\<rparr>) \<and>
        heap (st\<lparr>mem := m\<rparr>) bs' \<and>
        (\<forall>x. \<not> hdr bs' (unat (x - free_list st)) \<longrightarrow> m x = mem st x)"
proof -
  let ?t = "unat n + 24"
  have h: "bs \<noteq> []" "sizes_ok bs" "kregion (free_list st) (total bs)"
    "heap_at (mem st) (free_list st) bs"
    using assms(1) by (auto simp: heap_def intro: kregion_mono)
  have t: "n + HDR = of_nat ?t" by simp
  note loop = kmalloc_loop_ok [OF h(4,2,3), of ?t]
  show ?thesis
  proof (cases "alloc_list ?t bs")
    case None
    then have "kmalloc n st = kmalloc_loop (of_nat ?t) 0 st"
      using loop h(1) assms(2) unfolding kmalloc_def Let_def t by simp
    then show ?thesis using None kmalloc_none [OF assms(3)] by simp
  next
    case (Some r)
    obtain off bs' where r: "r = (off, bs')" by (cases r)
    have "total bs' = total bs" "sizes_ok bs'" "bs' \<noteq> []"
      using Some r alloc_list_total alloc_list_sizes [of ?t] h(2)
      by (auto) (cases bs; auto split: if_splits)
    then show ?thesis
      using Some r loop h assms(1,2) unfolding kmalloc_def Let_def t
      by (auto simp: heap_def add.assoc)
  qed
qed

section \<open>kfree\<close>

text \<open>A heap whose first header is rewritten and nothing else.\<close>

lemma heap_at_head:
  assumes "heap_at m a ((n, fr) # bs)" and "sizes_ok bs" and "24 \<le> n" and "n + total bs \<le> 2 ^ 64"
    and "\<And>x. \<not> unat (x - a) < 24 \<Longrightarrow> m' x = m x"
  shows "heap_at m' (a + of_nat n) bs"
proof -
  have "heap_at m' (a + of_nat n) bs = heap_at m (a + of_nat n) bs"
  proof (rule heap_at_cong [OF assms(2)])
    fix x assume "hdr bs (unat (x - (a + of_nat n)))"
    then have "n \<le> unat (x - a)" using hdr_shift [OF assms(4,2), of x a] by simp
    then show "m' x = m x" using assms(3,5) by simp
  qed (use assms(4) in simp)
  then show ?thesis using assms(1) by simp
qed

lemma heap_at_head_load:
  fixes a :: u64
  assumes "n + k + total bs \<le> 2 ^ 64" and "24 \<le> n" and "24 \<le> k"
    and "\<And>x. \<not> unat (x - a) < 24 \<Longrightarrow> m' x = m x" and "off + i \<le> 24"
  shows "ldw i m' (a + of_nat n + of_nat off) = ldw i m (a + of_nat n + of_nat off)"
proof (rule ldw_cong_off [OF _ assms(5)])
  fix x assume "unat (x - (a + of_nat n)) < 24"
  then show "m' x = m x"
    using within_offset_iff [of n 24 x a] assms by (simp add: within_def)
qed

lemma kfree_head:
  fixes st :: "'a kheap_scheme"
  assumes heap: "heap_at (mem st) a ((n, fr) # bs)" and sz: "sizes_ok bs" "24 \<le> n"
    and reg: "kregion a (n + total bs)" and ptr: "a + 24 \<noteq> 0"
  shows "\<exists>m. kfree (a + 24) st = Some (st\<lparr>mem := m\<rparr>) \<and> heap_at m a (merge n bs) \<and>
    (\<forall>x. \<not> unat (x - a) < 24 \<longrightarrow> m x = mem st x)"
proof -
  have small: "n + total bs + 48 < 2 ^ 64" using reg by (rule kregion_small)
  note ka = kregion_header [OF reg sz(2)]
  let ?m1 = "stw 4 (mem st) (a + 16) (1 :: u32)"
  have fr1: "?m1 x = mem st x" if "\<not> unat (x - a) < 24" for x
    using that by (simp add: header_frame)
  have h1: "heap_at ?m1 a ((n, True) # bs)"
    using take_mem(1) [OF heap sz, of 1] small by simp
  show ?thesis
  proof (cases "\<exists>k bs2. bs = (k, True) # bs2")
    case False
    have "merge n bs = (n, True) # bs" using False by (cases "(n, bs)" rule: merge.cases) auto
    moreover have "kfree (a + 24) st = Some (st\<lparr>mem := ?m1\<rparr>)"
    proof (cases bs)
      case Nil
      then show ?thesis using ptr ka h1 by (simp add: kfree_def kernel_mem Let_def)
    next
      case (Cons b bs2)
      then obtain k where b: "b = (k, False)" using False by (cases b) auto
      have "kregion (a + of_nat n) (k + total bs2)" using kregion_next [OF reg] Cons b by simp
      then have "kregion (a + of_nat n + 16) 4" "a + of_nat n \<noteq> 0"
        using sz(1) Cons b by (auto dest: kregion_header)
      then show ?thesis using ptr ka h1 Cons b by (simp add: kfree_def kernel_mem Let_def)
    qed
    ultimately show ?thesis using h1 fr1 by (intro exI [of _ ?m1]) simp
  next
    case True
    then obtain k bs2 where bs: "bs = (k, True) # bs2" by blast
    have k: "24 \<le> k" "sizes_ok bs2" using sz(1) bs by simp_all
    have "kregion (a + of_nat n) (k + total bs2)" using kregion_next [OF reg] bs by simp
    note kb = kregion_header [OF this k(1)]
    let ?nn = "ldw 8 (mem st) (a + of_nat n) :: u64"
    let ?m2 = "stw 8 ?m1 (a + 8) (of_nat n + of_nat k :: u64)"
    let ?m3 = "stw 8 ?m2 a ?nn"
    have fr3: "?m3 x = mem st x" if "\<not> unat (x - a) < 24" for x
      using that by (simp add: header_frame)
    have fr2: "?m2 x = mem st x" if "\<not> unat (x - a) < 24" for x
      using that by (simp add: header_frame)
    have b: "n + k + total bs2 \<le> 2 ^ 64" using small bs by simp
    have loads: "ldw 8 ?m2 (a + of_nat n) = ?nn"
      using heap_at_head_load [OF b sz(2) k(1) fr2, where off = 0 and i = 8] by simp
    have "kfree (a + 24) st = Some (st\<lparr>mem := ?m3\<rparr>)"
      using ptr h1 ka kb loads bs by (simp add: kfree_def kernel_mem Let_def)
    moreover have "heap_at ?m3 a ((n + k, True) # bs2)"
    proof -
      have "heap_at ?m3 (a + of_nat n) bs"
        using heap_at_head [OF heap sz _ fr3] small by simp
      then have "heap_at ?m3 (a + of_nat (n + k)) bs2" "?nn = (if bs2 = [] then 0 else a + of_nat (n + k))"
        using bs heap by (simp_all add: add.assoc)
      then show ?thesis by (simp add: header_stores)
    qed
    ultimately show ?thesis using bs fr3 by (intro exI [of _ ?m3]) simp
  qed
qed

lemma block_pointer:
  assumes "kregion a (Suc k)" and "off \<le> k"
  shows "a + of_nat off \<noteq> 0" "unat (a + of_nat off) = unat a + off"
proof -
  show u: "unat (a + of_nat off) = unat a + off"
    using assms by (intro kregion_unat_add [of a "Suc k"]) simp_all
  have "0 < unat a" using assms(1) by (auto simp: kregion_def khalf_unat)
  then show "a + of_nat off \<noteq> 0" using u by (metis add_is_0 less_irrefl unat_0)
qed

lemma kfree_at:
  fixes st :: "'a kheap_scheme"
  shows "heap_at (mem st) a bs \<Longrightarrow> sizes_ok bs \<Longrightarrow> kregion a (Suc (total bs)) \<Longrightarrow>
    (off + 24, k) \<in> live bs \<Longrightarrow>
    \<exists>m. kfree (a + of_nat off + 24) st = Some (st\<lparr>mem := m\<rparr>) \<and> heap_at m a (free_at off bs) \<and>
      (\<forall>x. \<not> hdr bs (unat (x - a)) \<longrightarrow> m x = mem st x)"
proof (induction bs arbitrary: a off rule: live.induct)
  case (2 n fr bs)
  have reg: "kregion a (n + total bs)" and szs: "24 \<le> n" "sizes_ok bs"
    using 2 by (auto intro: kregion_mono)
  have small: "n + total bs + 48 < 2 ^ 64" using reg by (rule kregion_small)
  show ?case
  proof (cases "off = 0")
    case True
    have "a + 24 \<noteq> 0" using block_pointer(1) [OF 2(4), of 24] szs by simp
    then show ?thesis
      using kfree_head [OF 2(2) szs(2,1) reg] True by auto
  next
    case False
    have "(off + 24, k) \<in> (\<lambda>(off, k). (n + off, k)) ` live bs"
      using 2(5) False by (auto split: if_splits)
    then obtain off0 where 0: "off + 24 = n + off0" "(off0, k) \<in> live bs" by auto
    have "24 \<le> off0" using live_bound [OF 0(2) szs(2)] by simp
    then have off: "off - n + 24 = off0" "n \<le> off" using 0(1) by simp_all
    have reg': "kregion (a + of_nat n) (Suc (total bs))"
      using 2(4) kregion_offset [of a "Suc (n + total bs)" n] by simp
    have rest: "heap_at (mem st) (a + of_nat n) bs" using 2(2) by simp
    have ptr: "a + of_nat n + of_nat (off - n) + 24 = a + of_nat off + 24"
      using off(2) by (simp add: of_nat_diff)
    obtain m where m: "kfree (a + of_nat off + 24) st = Some (st\<lparr>mem := m\<rparr>)"
        "heap_at m (a + of_nat n) (free_at (off - n) bs)"
        "\<forall>x. \<not> hdr bs (unat (x - (a + of_nat n))) \<longrightarrow> m x = mem st x"
      using "2.IH" [OF rest szs(2) reg', of "off - n"] 0(2) off(1) ptr by auto
    have sh: "hdr bs (unat (x - (a + of_nat n))) \<longleftrightarrow> n \<le> unat (x - a) \<and> hdr bs (unat (x - a) - n)" for x
      using small szs by (intro hdr_shift) simp_all
    have low: "m x = mem st x" if "unat (x - a) < 24" for x
      using m(3) sh [of x] that szs(1) by auto
    have "ldw 8 m a = (ldw 8 (mem st) a :: u64)" "ldw 8 m (a + 8) = (ldw 8 (mem st) (a + 8) :: u64)"
      "ldw 4 m (a + 16) = (ldw 4 (mem st) (a + 16) :: u32)"
      using ldw_cong_off [OF low, where off = 0 and k = 8]
        ldw_cong_off [OF low, where off = 8 and k = 8]
        ldw_cong_off [OF low, where off = 16 and k = 4] by simp_all
    moreover have "free_at (off - n) bs = [] \<longleftrightarrow> bs = []"
      by (cases "(off - n, bs)" rule: free_at.cases) (auto, (cases bs; auto elim: merge.elims)?)
    ultimately have "heap_at m a ((n, fr) # free_at (off - n) bs)" using m(2) 2(2) by simp
    moreover have "m x = mem st x" if "\<not> hdr ((n, fr) # bs) (unat (x - a))" for x
      using m(3) sh [of x] that by auto
    ultimately show ?thesis using m(1) False by auto
  qed
qed simp

lemma kfree_ok:
  fixes st :: "'a kheap_scheme"
  assumes "heap st bs" and "(off + 24, k) \<in> live bs"
  shows "\<exists>m. kfree (free_list st + of_nat (off + 24)) st = Some (st\<lparr>mem := m\<rparr>) \<and>
    heap (st\<lparr>mem := m\<rparr>) (free_at off bs) \<and>
    (\<forall>x. \<not> hdr bs (unat (x - free_list st)) \<longrightarrow> m x = mem st x)"
proof -
  have h: "bs \<noteq> []" "sizes_ok bs" "kregion (free_list st) (Suc (total bs))"
    "heap_at (mem st) (free_list st) bs" using assms(1) by (simp_all add: heap_def)
  have "free_at off bs \<noteq> []"
    using h(1) by (cases "(off, bs)" rule: free_at.cases) (auto elim: merge.elims)
  then show ?thesis
    using kfree_at [OF h(4,2,3) assms(2)] h free_at_live [OF assms(2) h(2)]
    by (auto simp: heap_def add.assoc)
qed

section \<open>The heap as an allocator\<close>

lemma heap_at_unique:
  "heap_at m a bs \<Longrightarrow> heap_at m a bs' \<Longrightarrow> bs \<noteq> [] \<Longrightarrow> bs' \<noteq> [] \<Longrightarrow> sizes_ok bs \<Longrightarrow> sizes_ok bs' \<Longrightarrow>
   kregion a (Suc (total bs)) \<Longrightarrow> kregion a (Suc (total bs')) \<Longrightarrow> bs = bs'"
proof (induction bs arbitrary: a bs' rule: live.induct)
  case (2 n fr bs)
  obtain n' fr' cs where bs': "bs' = (n', fr') # cs" using 2(5) by (cases bs') auto
  have "n < 2 ^ 64" "n' < 2 ^ 64" using 2(8,9) bs' kregion_small by fastforce+
  then have n: "n' = n" and fr: "fr' = fr"
    using 2(2,3) bs' of_nat64_eq_iff [of n n'] by auto
  have ptr: "a + of_nat n \<noteq> 0" using block_pointer(1) [OF 2(8), of n] by simp
  have "bs = cs"
  proof (cases "bs = []")
    case True
    then show ?thesis using 2(2,3) bs' n ptr by (auto split: if_splits)
  next
    case False
    then have "cs \<noteq> []" using 2(2,3) bs' n ptr by (auto split: if_splits)
    moreover have "kregion (a + of_nat n) (Suc (total bs))" "kregion (a + of_nat n) (Suc (total cs))"
      using kregion_offset [OF 2(8), of n] kregion_offset [OF 2(9), of n] bs' n by simp_all
    moreover have "heap_at m (a + of_nat n) bs" "heap_at m (a + of_nat n) cs"
      "sizes_ok bs" "sizes_ok cs" using 2(2,3,6,7) bs' n by simp_all
    ultimately show ?thesis using "2.IH" False by blast
  qed
  then show ?case using bs' n fr by simp
qed simp

lemma heap_unique: "heap st bs \<Longrightarrow> heap st bs' \<Longrightarrow> bs = bs'"
  unfolding heap_def using heap_at_unique by blast

definition heap_wf :: "'a kheap_scheme \<Rightarrow> bool" where
  "heap_wf st \<longleftrightarrow> tx_live st \<and> (\<exists>bs. heap st bs)"

definition owned :: "'a kheap_scheme \<Rightarrow> (u64 \<times> nat) set" where
  "owned st = {(free_list st + of_nat off, k) | off k. \<exists>bs. heap st bs \<and> (off, k) \<in> live bs}"

lemma owned_eq: "heap st bs \<Longrightarrow> owned st = (\<lambda>(off, k). (free_list st + of_nat off, k)) ` live bs"
proof -
  assume "heap st bs"
  then have eq: "heap st bs' \<longleftrightarrow> bs' = bs" for bs' using heap_unique by blast
  show ?thesis unfolding owned_def eq by force
qed

text \<open>Within a heap, offsets below its size and addresses correspond.\<close>

lemma heap_offset:
  assumes "heap st bs" and "(off, k) \<in> live bs"
  shows "off \<le> total bs" "off + k \<le> total bs" "24 \<le> off" "off < 2 ^ 64" "off + k \<le> 2 ^ 64"
    "within x (free_list st + of_nat off) k \<longleftrightarrow>
       off \<le> unat (x - free_list st) \<and> unat (x - free_list st) < off + k"
proof -
  have ok: "sizes_ok bs" "Suc (total bs) + 48 < 2 ^ 64"
    using assms(1) kregion_small [of "free_list st" "Suc (total bs)"] by (auto simp: heap_def)
  show b: "off + k \<le> total bs" "24 \<le> off" using live_bound [OF assms(2) ok(1)] by auto
  then show "off \<le> total bs" "off < 2 ^ 64" "off + k \<le> 2 ^ 64" using ok(2) by linarith+
  then show "within x (free_list st + of_nat off) k \<longleftrightarrow>
      off \<le> unat (x - free_list st) \<and> unat (x - free_list st) < off + k"
    by (intro within_offset_iff)
qed

lemma heap_pointer_inj:
  assumes "heap st bs" and "off \<le> total bs" and "off' \<le> total bs"
  shows "free_list st + of_nat off = free_list st + of_nat off' \<longleftrightarrow> off = off'"
    and "free_list st + of_nat off \<noteq> 0"
proof -
  have "kregion (free_list st) (Suc (total bs))" using assms(1) by (simp add: heap_def)
  note ptr = block_pointer [OF this]
  show "free_list st + of_nat off \<noteq> 0" using ptr(1) [OF assms(2)] .
  show "free_list st + of_nat off = free_list st + of_nat off' \<longleftrightarrow> off = off'"
    using ptr(2) [OF assms(2)] ptr(2) [OF assms(3)] by (metis add_left_cancel)
qed

lemma live_bytes_kept:
  assumes "heap st bs" and "(off, k) \<in> live bs" and "within x (free_list st + of_nat off) k"
  shows "\<not> hdr bs (unat (x - free_list st))"
  using assms(3) heap_offset(6) [OF assms(1,2)] live_not_hdr [OF assms(2)] assms(1)
  by (simp add: heap_def)

interpretation kheap: heap_allocator kmalloc kfree heap_wf owned mem "2 ^ 64 - 24"
proof unfold_locales
  fix s :: "'a kheap_scheme" and p j q k x
  assume "heap_wf s" and p: "(p, j) \<in> owned s" and q: "(q, k) \<in> owned s" and ne: "p \<noteq> q"
    and x: "within x p j"
  then obtain bs where bs: "heap s bs" by (auto simp: heap_wf_def)
  then obtain i i' where i: "(i, j) \<in> live bs" "p = free_list s + of_nat i"
      "(i', k) \<in> live bs" "q = free_list s + of_nat i'"
    using p q owned_eq [OF bs] by auto
  have "i \<noteq> i'" using ne i by auto
  moreover have "sizes_ok bs" using bs by (simp add: heap_def)
  ultimately have "i + j \<le> i' \<or> i' + k \<le> i"
    using live_disjoint [OF i(1,3)] live_disjoint [OF i(3,1)] by (cases "i < i'") auto
  then show "\<not> within x q k"
    using x heap_offset(6) [OF bs i(1), of x] heap_offset(6) [OF bs i(3), of x] i(2,4) by auto
next
  fix s :: "'a kheap_scheme" and n :: u64
  assume wf: "heap_wf s" and n: "unat n < 2 ^ 64 - 24"
  then obtain bs where bs: "heap s bs" and tx: "tx_live s" by (auto simp: heap_wf_def)
  have ok: "sizes_ok bs" using bs by (simp add: heap_def)
  note m = kmalloc_ok [OF bs _ tx, of n]
  show "\<exists>p s'. kmalloc n s = Some (p, s') \<and> heap_wf s' \<and>
      (\<forall>q k x. (q, k) \<in> owned s \<longrightarrow> within x q k \<longrightarrow> mem s' x = mem s x) \<and>
      (if p = 0 then owned s' = owned s
       else p \<notin> fst ` owned s \<and> (\<exists>k\<ge>unat n. owned s' = insert (p, k) (owned s)))"
  proof (cases "alloc_list (unat n + 24) bs")
    case None
    then obtain s' where s': "kmalloc n s = Some (0, s')"
        "printed (lit (''KHEAP: OOM (Out of Memory)'' @ nl)) s s'"
      using m n by auto
    have "heap s' bs" "tx_live s'" "free_list s' = free_list s"
      using bs tx s'(2) by (auto simp: heap_def printed_def tx_live_def)
    then show ?thesis
      using s'(1) owned_eq [OF bs] owned_eq [of s' bs] printed_frame(1) [OF s'(2)]
      by (auto simp: heap_wf_def)
  next
    case (Some r)
    obtain off bs' where r: "r = (off, bs')" by (cases r)
    then obtain mm where mm: "kmalloc n s = Some (free_list s + of_nat (off + 24), s\<lparr>mem := mm\<rparr>)"
        "heap (s\<lparr>mem := mm\<rparr>) bs'" "\<forall>x. \<not> hdr bs' (unat (x - free_list s)) \<longrightarrow> mm x = mem s x"
      using m n Some by auto
    obtain k where k: "unat n \<le> k" "live bs' = insert (off + 24, k) (live bs)"
        "off + 24 \<notin> fst ` live bs"
      using alloc_list_live [of "unat n + 24" bs off bs'] Some r ok by auto
    let ?s = "s\<lparr>mem := mm\<rparr>" and ?p = "free_list s + of_nat (off + 24)"
    have off: "off + 24 \<le> total bs" and nz: "?p \<noteq> 0"
      using heap_offset(1) [OF mm(2), of "off + 24" k] k(2) alloc_list_total [of _ bs off bs'] Some r
        heap_pointer_inj(2) [OF bs, of "off + 24"] by auto
    have "?p \<notin> fst ` owned s"
    proof
      assume "?p \<in> fst ` owned s"
      then obtain i j where "(i, j) \<in> live bs" "?p = free_list s + of_nat i"
        using owned_eq [OF bs] by auto
      then have "i = off + 24"
        using heap_pointer_inj(1) [OF bs off, of i] heap_offset(1) [OF bs] by auto
      then show False using k(3) \<open>(i, j) \<in> live bs\<close> by force
    qed
    moreover have "owned ?s = insert (?p, k) (owned s)"
      using owned_eq [OF bs] owned_eq [OF mm(2)] k(2) by simp
    moreover have "mm x = mem s x" if q: "(q, j) \<in> owned s" and x: "within x q j" for q j x
    proof -
      obtain i where i: "(i, j) \<in> live bs" "q = free_list s + of_nat i"
        using q owned_eq [OF bs] by auto
      then have "\<not> hdr bs' (unat (x - free_list s))"
        using live_bytes_kept [OF mm(2), of i j x] k(2) x by simp
      then show ?thesis using mm(3) by blast
    qed
    moreover have "heap_wf ?s" using mm(2) tx by (auto simp: heap_wf_def tx_live_def)
    ultimately show ?thesis using mm(1) nz k(1) by auto
  qed
next
  fix s :: "'a kheap_scheme" and p j
  assume wf: "heap_wf s" and p: "(p, j) \<in> owned s"
  then obtain bs where bs: "heap s bs" and tx: "tx_live s" by (auto simp: heap_wf_def)
  have ok: "sizes_ok bs" using bs by (simp add: heap_def)
  obtain i where i: "(i, j) \<in> live bs" "p = free_list s + of_nat i"
    using p owned_eq [OF bs] by auto
  have "24 \<le> i" using heap_offset(3) [OF bs i(1)] .
  then obtain off where off: "i = off + 24" by (metis add.commute le_Suc_ex)
  obtain mm where mm: "kfree p s = Some (s\<lparr>mem := mm\<rparr>)" "heap (s\<lparr>mem := mm\<rparr>) (free_at off bs)"
      "\<forall>x. \<not> hdr bs (unat (x - free_list s)) \<longrightarrow> mm x = mem s x"
    using kfree_ok [OF bs, of off j] i off by auto
  have lv: "live (free_at off bs) = live bs - {(i, j)}"
    using free_at_live [of off j bs] i(1) off ok by simp
  let ?f = "\<lambda>(off, k). (free_list s + of_nat off :: u64, k :: nat)"
  have inj: "inj_on ?f (live bs)"
    using heap_pointer_inj(1) [OF bs] heap_offset(1) [OF bs] by (auto intro!: inj_onI)
  have "owned (s\<lparr>mem := mm\<rparr>) = owned s - {(p, j)}"
    using owned_eq [OF bs] owned_eq [OF mm(2)] lv i inj_on_image_set_diff [OF inj, of "live bs" "{(i, j)}"]
    by simp
  moreover have "mm x = mem s x" if q: "(q, k) \<in> owned s" and x: "within x q k" for q k x
  proof -
    obtain i' where "(i', k) \<in> live bs" "q = free_list s + of_nat i'"
      using q owned_eq [OF bs] by auto
    then show ?thesis using live_bytes_kept [OF bs] x mm(3) by blast
  qed
  moreover have "heap_wf (s\<lparr>mem := mm\<rparr>)" using mm(2) tx by (auto simp: heap_wf_def tx_live_def)
  ultimately show "\<exists>s'. kfree p s = Some s' \<and> heap_wf s' \<and> owned s' = owned s - {(p, j)} \<and>
      (\<forall>q k x. (q, k) \<in> owned s' \<longrightarrow> within x q k \<longrightarrow> mem s' x = mem s x)"
    using mm(1) by auto
qed

section \<open>Initialisation, undoing and overflow\<close>

lemma kheap_initialize_ok:
  fixes st :: "'a kheap_scheme"
  assumes "kregion a (Suc (unat n))" and "24 \<le> unat n"
  shows "\<exists>m. kheap_initialize a n st = Some (st\<lparr>free_list := a, mem := m\<rparr>) \<and>
    heap (st\<lparr>free_list := a, mem := m\<rparr>) [(unat n, True)] \<and>
    (\<forall>x. \<not> within x a 24 \<longrightarrow> m x = mem st x)"
proof -
  have "kregion a (unat n + 0)" using assms(1) by (rule kregion_mono) simp
  note k = kregion_header [OF this assms(2)]
  let ?m = "stw 8 (stw 4 (stw 8 (mem st) (a + 8) n) (a + 16) (1 :: u32)) a (0 :: u64)"
  have "kheap_initialize a n st = Some (st\<lparr>free_list := a, mem := ?m\<rparr>)"
    using k by (simp add: kheap_initialize_def kernel_mem)
  moreover have "heap (st\<lparr>free_list := a, mem := ?m\<rparr>) [(unat n, True)]"
    using assms by (simp add: heap_def header_stores)
  moreover have "?m x = mem st x" if "\<not> within x a 24" for x
  proof -
    have "\<not> within x a 8" using that within_mono [of x a 8 24] by auto
    moreover have "\<not> within x (a + of_nat 8) 8" "\<not> within x (a + of_nat 16) 4"
      using that within_part [of 8 8 24 x a] within_part [of 16 4 24 x a] by auto
    ultimately show ?thesis by (simp add: stw_outside)
  qed
  ultimately show ?thesis by blast
qed

fun no_adjacent :: "blocks \<Rightarrow> bool" where
  "no_adjacent ((n, True) # (k, True) # bs) \<longleftrightarrow> False"
| "no_adjacent (b # bs) \<longleftrightarrow> no_adjacent bs"
| "no_adjacent [] \<longleftrightarrow> True"

lemma no_adjacent_Cons: "no_adjacent (b # bs) \<Longrightarrow> no_adjacent bs"
  by (induction "b # bs" rule: no_adjacent.induct) auto

lemma merge_alone: "no_adjacent ((n, True) # bs) \<Longrightarrow> merge n bs = (n, True) # bs"
  by (cases "(n, bs)" rule: merge.cases) auto

lemma alloc_free_undo:
  "alloc_list t bs = Some (off, bs') \<Longrightarrow> no_adjacent bs \<Longrightarrow> sizes_ok bs \<Longrightarrow> free_at off bs' = bs"
proof (induction bs arbitrary: off bs' rule: live.induct)
  case (2 n fr bs)
  show ?case
  proof (cases "fr \<and> t \<le> n")
    case True
    then show ?thesis using 2(2,3) merge_alone [of n bs] by (auto split: if_splits)
  next
    case False
    then obtain off0 bs0 where "alloc_list t bs = Some (off0, bs0)" "off = n + off0"
        "bs' = (n, fr) # bs0" using 2(2) by auto
    then show ?thesis using "2.IH" [of off0 bs0] 2(3,4) no_adjacent_Cons [of "(n, fr)" bs] by simp
  qed
qed simp

text \<open>A used block whose successor is itself: every search from it runs for ever.\<close>

definition self_loop :: "u64 \<Rightarrow> 'a machine_scheme \<Rightarrow> bool" where
  "self_loop a st \<longleftrightarrow> kregion a 8 \<and> kregion (a + 16) 4 \<and> a \<noteq> 0 \<and>
     ldw 8 (mem st) a = a \<and> ldw 4 (mem st) (a + 16) = (0 :: u32)"

lemma kmalloc_self_loop:
  fixes st :: "'a kheap_scheme"
  assumes "self_loop a st"
  shows "kmalloc_loop t a st = None"
proof (rule ccontr)
  assume "kmalloc_loop t a st \<noteq> None"
  then obtain r where ret: "kmalloc_loop t a st = Some r" by blast
  have "\<not> self_loop a st"
  proof (rule kmalloc_loop.raw_induct [where P = "\<lambda>t a st r. \<not> self_loop a st", OF _ ret])
    fix f :: "u64 \<Rightarrow> u64 \<Rightarrow> 'a kheap_scheme \<Rightarrow> (u64 \<times> 'a kheap_scheme) option"
    fix t a and st :: "'a kheap_scheme" and r
    assume IH: "\<And>t a st r. f t a st = Some r \<Longrightarrow> \<not> self_loop a st"
      and eq: "(if a = 0 then kprintf (''KHEAP: OOM (Out of Memory)'' @ nl) [] st \<bind> (\<lambda>st. Some (0, st))
        else ld32 st (a + 16) \<bind> (\<lambda>is_free.
          (if is_free \<noteq> 0 then map_option (\<lambda>sz. t \<le> sz) (ld64 st (a + 8)) else Some False) \<bind>
          (\<lambda>fits. if fits then kmalloc_take t a st else ld64 st a \<bind> (\<lambda>n. f t n st)))) = Some r"
    show "\<not> self_loop a st"
    proof
      assume loop: "self_loop a st"
      then have "f t a st = Some r" using eq by (simp add: self_loop_def kernel_mem)
      then show False using IH loop by blast
    qed
  qed
  with assms show False by blast
qed

section \<open>Properties\<close>

text \<open>A heap of one page with nothing allocated.\<close>

definition demo_kheap :: kheap where
  "demo_kheap = the (kheap_initialize 0xFFFF900000000000 4096 (pmm.extend demo_pmm \<lparr>free_list = 0\<rparr>))"

lemma demo_kheap [simp]: "heap demo_kheap [(4096, True)]" "tx_live demo_kheap"
  "free_list demo_kheap = 0xFFFF900000000000"
proof -
  let ?st = "pmm.extend demo_pmm \<lparr>free_list = 0\<rparr>"
  have "kregion 0xFFFF900000000000 (Suc (unat (4096 :: u64)))" by (simp add: kregion_def khalf_def)
  from kheap_initialize_ok [OF this, of ?st] obtain m where
    m: "demo_kheap = ?st\<lparr>free_list := 0xFFFF900000000000, mem := m\<rparr>"
      "heap (?st\<lparr>free_list := 0xFFFF900000000000, mem := m\<rparr>) [(4096, True)]"
    by (auto simp: demo_kheap_def)
  then show "heap demo_kheap [(4096, True)]" by simp
  show "free_list demo_kheap = 0xFFFF900000000000" unfolding m(1) by simp
  show "tx_live demo_kheap"
    unfolding m(1) by (rule tx_live_demo) (simp add: pmm.defs demo_pmm_def)
qed

text \<open>
  C9. \<open>kmalloc\<close> refines the abstract first-fit allocator: in a heap laid out as \<open>bs\<close> it takes
  the first free block that holds the request and its header, splits off the rest when that
  leaves more than a header, and changes only header bytes; with no such block it prints the
  message and returns NULL with memory unchanged.
\<close>

theorem kmalloc_first_fit:
  assumes "heap st bs" and "unat n + 24 < 2 ^ 64" and "tx_live st"
  shows "case alloc_list (unat n + 24) bs of
      None \<Rightarrow> \<exists>st'. kmalloc n st = Some (0, st') \<and>
        printed (lit (''KHEAP: OOM (Out of Memory)'' @ nl)) st st'
    | Some (off, bs') \<Rightarrow> \<exists>m. kmalloc n st = Some (free_list st + of_nat (off + 24), st\<lparr>mem := m\<rparr>) \<and>
        heap (st\<lparr>mem := m\<rparr>) bs' \<and>
        (\<forall>x. \<not> hdr bs' (unat (x - free_list st)) \<longrightarrow> m x = mem st x)"
  using assms by (rule kmalloc_ok)

theorem kmalloc_first_fit_witness:
  "\<exists>m. kmalloc 100 demo_kheap = Some (0xFFFF900000000018, demo_kheap\<lparr>mem := m\<rparr>) \<and>
    heap (demo_kheap\<lparr>mem := m\<rparr>) [(124, False), (3972, True)]"
  using kmalloc_first_fit [of demo_kheap "[(4096, True)]" 100] by auto

text \<open>
  C20. \<open>kfree\<close> of a pointer that is in use refines the abstract release: the block becomes free
  and absorbs the next block if that is free; only old header bytes change.
\<close>

theorem kfree_releases:
  assumes "heap st bs" and "(off + 24, k) \<in> live bs"
  shows "\<exists>m. kfree (free_list st + of_nat (off + 24)) st = Some (st\<lparr>mem := m\<rparr>) \<and>
    heap (st\<lparr>mem := m\<rparr>) (free_at off bs) \<and>
    live (free_at off bs) = live bs - {(off + 24, k)} \<and>
    (\<forall>x. \<not> hdr bs (unat (x - free_list st)) \<longrightarrow> m x = mem st x)"
  using kfree_ok [OF assms] free_at_live [OF assms(2)] assms(1) by (auto simp: heap_def)

lemma demo_kheap_block: "\<exists>st. heap st [(124, False), (3972, True)] \<and> tx_live (st :: kheap)"
proof -
  obtain m where m: "heap (demo_kheap\<lparr>mem := m\<rparr>) [(124, False), (3972, True)]"
    using kmalloc_ok [of demo_kheap "[(4096, True)]" 100] by auto
  have "tx_live (demo_kheap\<lparr>mem := m\<rparr>)"
    using demo_kheap(2) by (simp add: tx_live_def del: demo_kheap)
  with m show ?thesis by blast
qed

theorem kfree_releases_witness:
  "\<exists>(st :: kheap) m. kfree (free_list st + 24) st = Some (st\<lparr>mem := m\<rparr>) \<and>
    heap (st\<lparr>mem := m\<rparr>) [(4096, True)]"
proof -
  obtain st :: kheap where st: "heap st [(124, False), (3972, True)]"
    using demo_kheap_block by blast
  show ?thesis using kfree_releases [OF st, of 0 100] by auto
qed

text \<open>
  C15. Heap blocks are stable: a block in use keeps its place and every byte of its contents
  through any sequence of \<open>kmalloc\<close> and \<open>kfree\<close> calls that frees only blocks in use and not
  this one; every such sequence runs to its end.
\<close>

theorem kheap_block_stable:
  assumes "heap_wf st" and "(p, k) \<in> owned st"
    and "spares kmalloc kfree owned (2 ^ 64 - 24) p ops st"
  shows "\<exists>st'. run_ops kmalloc kfree ops st = Some st' \<and> heap_wf st' \<and> (p, k) \<in> owned st' \<and>
    (\<forall>x. within x p k \<longrightarrow> mem st' x = mem st x)"
  using assms by (rule kheap.run_ops_keeps)

theorem kheap_block_stable_witness:
  "\<exists>(st :: kheap) st'. run_ops kmalloc kfree [Malloc 8, Malloc 5000] st = Some st' \<and>
    (free_list st + 24, 100) \<in> owned st'"
proof -
  obtain st :: kheap where st: "heap st [(124, False), (3972, True)]" "tx_live st"
    using demo_kheap_block by blast
  then have "heap_wf st" "(free_list st + 24, 100) \<in> owned st"
    by (auto simp: heap_wf_def owned_eq)
  moreover have "spares kmalloc kfree owned (2 ^ 64 - 24) (free_list st + 24)
      [Malloc 8, Malloc 5000] st" by (auto split: option.splits)
  ultimately show ?thesis using kheap_block_stable [of st "free_list st + 24" 100] by blast
qed

text \<open>
  Two blocks obtained one after the other are apart: no byte of the first request lies in
  the second.
\<close>

lemma kmalloc_blocks_apart:
  assumes "heap_wf st" and "unat n < 2 ^ 64 - 24" and "unat n' < 2 ^ 64 - 24"
    and "kmalloc n st = Some (p, st1)" and "kmalloc n' st1 = Some (q, st2)" and "p \<noteq> 0" and "q \<noteq> 0"
    and "within x p (unat n)"
  shows "\<not> within x q (unat n')"
  using assms by (rule kheap.two_blocks_apart)

lemma kmalloc_blocks_apart_witness:
  "\<exists>p q st1 st2. kmalloc 100 demo_kheap = Some (p, st1) \<and> kmalloc 50 st1 = Some (q, st2) \<and>
    \<not> within p q 50"
proof -
  obtain m where m: "kmalloc 100 demo_kheap = Some (0xFFFF900000000018, demo_kheap\<lparr>mem := m\<rparr>)"
      "heap (demo_kheap\<lparr>mem := m\<rparr>) [(124, False), (3972, True)]"
    using kmalloc_ok [of demo_kheap "[(4096, True)]" 100] by auto
  let ?st = "demo_kheap\<lparr>mem := m\<rparr>"
  have "tx_live ?st" using demo_kheap(2) by (simp add: tx_live_def del: demo_kheap)
  then obtain q st2 where q: "kmalloc 50 ?st = Some (q, st2)" "q = 0xFFFF900000000094"
    using kmalloc_ok [OF m(2), of 50] by auto
  have "heap_wf demo_kheap" unfolding heap_wf_def using demo_kheap(1,2) by blast
  from kmalloc_blocks_apart [OF this _ _ m(1) q(1), of "0xFFFF900000000018"] show ?thesis
    using m(1) q by auto
qed

text \<open>
  Freeing what was just allocated restores the heap: from a heap without two free
  neighbours, \<open>kmalloc\<close> and then \<open>kfree\<close> of its result lead back to the same layout, the
  split undone.
\<close>

lemma kmalloc_kfree_roundtrip:
  assumes "heap st bs" and "no_adjacent bs" and "unat n + 24 < 2 ^ 64" and "tx_live st"
  shows "\<exists>p st1 st2. kmalloc n st = Some (p, st1) \<and> kfree p st1 = Some st2 \<and> heap st2 bs"
proof (cases "alloc_list (unat n + 24) bs")
  case None
  then obtain st1 where st1: "kmalloc n st = Some (0, st1)"
      "printed (lit (''KHEAP: OOM (Out of Memory)'' @ nl)) st st1"
    using kmalloc_ok [OF assms(1,3,4)] by auto
  then have "heap st1 bs" using assms(1) by (auto simp: heap_def printed_def)
  then show ?thesis using st1(1) by (auto simp: kfree_def)
next
  case (Some r)
  obtain off bs' where r: "r = (off, bs')" by (cases r)
  then obtain m where m: "kmalloc n st = Some (free_list st + of_nat (off + 24), st\<lparr>mem := m\<rparr>)"
      "heap (st\<lparr>mem := m\<rparr>) bs'" using kmalloc_ok [OF assms(1,3,4)] Some by auto
  have ok: "sizes_ok bs" using assms(1) by (simp add: heap_def)
  obtain k where "(off + 24, k) \<in> live bs'"
    using alloc_list_live [OF _ ok, of "unat n + 24" off bs'] Some r by auto
  from kfree_ok [OF m(2) this] obtain m2 where
    "kfree (free_list st + of_nat (off + 24)) (st\<lparr>mem := m\<rparr>) = Some (st\<lparr>mem := m2\<rparr>)"
    "heap (st\<lparr>mem := m2\<rparr>) (free_at off bs')" by auto
  then show ?thesis using m(1) alloc_free_undo [OF _ assms(2) ok] Some r by auto
qed

lemma kmalloc_kfree_roundtrip_witness:
  "\<exists>p st1 st2. kmalloc 64 demo_kheap = Some (p, st1) \<and> kfree p st1 = Some st2 \<and>
    heap st2 [(4096, True)]"
  by (rule kmalloc_kfree_roundtrip) simp_all

text \<open>
  C37. The size computation of \<open>kmalloc\<close> wraps: asked for 2^64 - 24 bytes, it finds that zero
  bytes are enough, links the first block to itself and returns a pointer; every later
  \<open>kmalloc\<close> then searches for ever.
\<close>

theorem kmalloc_wraps:
  assumes "heap st ((n, True) # bs)" and "24 < n"
  shows "\<exists>m. kmalloc (- 24) st = Some (free_list st + 24, st\<lparr>mem := m\<rparr>) \<and>
    kmalloc n' (st\<lparr>mem := m\<rparr>) = None"
proof -
  let ?a = "free_list st"
  have h: "heap_at (mem st) ?a ((n, True) # bs)" and reg: "kregion ?a (n + total bs)"
    using assms(1) by (auto simp: heap_def intro: kregion_mono)
  note k = kregion_header [OF reg less_imp_le [OF assms(2)]]
  have "24 < (of_nat n :: u64)"
    using of_nat64_less_iff [of 24 n] kregion_small [OF reg] assms(2) by simp
  then obtain m where "kmalloc (- 24) st = Some (?a + 24, st\<lparr>mem := m\<rparr>)" "self_loop ?a (st\<lparr>mem := m\<rparr>)"
    using k h by (auto simp: kmalloc_def kmalloc_loop.simps [of 0 "free_list st"] kmalloc_take_def
        kernel_mem self_loop_def header_stores Let_def)
  then show ?thesis
    using kmalloc_self_loop [of ?a "st\<lparr>mem := m\<rparr>"] by (auto simp: kmalloc_def)
qed

theorem kmalloc_wraps_witness:
  "\<exists>m. kmalloc (- 24) demo_kheap = Some (0xFFFF900000000018, demo_kheap\<lparr>mem := m\<rparr>) \<and>
    kmalloc 8 (demo_kheap\<lparr>mem := m\<rparr>) = None"
  using kmalloc_wraps [of demo_kheap 4096 "[]" 8] by simp

end
