(* ===== verification/Tty.thy ===== *)
theory Tty
  imports Serial Interfaces
begin

text \<open>
  Keyboard input: the ring buffer of kernel/arch/x86_64/tty.c, the keyboard interrupt of idt.c
  that fills it, and \<open>gets\<close> of libc/stdio/gets.c that empties it. The buffer is an instance of
  \<open>bounded_queue\<close> with capacity 255; a step relation shows that the order survives every
  interleaving of the interrupt with the two steps of the reader. A \<open>hlt\<close> that waits for a
  key is the next keyboard interrupt: no other interrupt touches this state, and the loop goes
  back to sleep after it.
\<close>

unbundle bit_operations_syntax

section \<open>tty.c: the ring buffer\<close>

text \<open>The array has 256 cells, one for each value of its \<open>uint8_t\<close> indices.\<close>

record keyboard = machine +
  keyboard_buffer :: "u8 \<Rightarrow> u8"
  write_ptr :: u8
  read_ptr :: u8
  shift_pressed :: bool

definition keyboard_push :: "u8 \<Rightarrow> 'a keyboard_scheme \<Rightarrow> 'a keyboard_scheme" where
  "keyboard_push c st =
     (let next_write = write_ptr st + 1 in
      if next_write = read_ptr st then st
      else st\<lparr>keyboard_buffer := (keyboard_buffer st)(write_ptr st := c), write_ptr := next_write\<rparr>)"

text \<open>Lines 42 to 44 of \<open>keyboard_getchar\<close>, after its wait.\<close>

definition keyboard_take :: "'a keyboard_scheme \<Rightarrow> u8 \<times> 'a keyboard_scheme" where
  "keyboard_take st =
     (let c = keyboard_buffer st (read_ptr st) in (c, st\<lparr>read_ptr := read_ptr st + 1\<rparr>))"

section \<open>idt.c: the keyboard interrupt\<close>

abbreviation ascii :: "string \<Rightarrow> u8 list" where "ascii s \<equiv> map of_char s"

definition kbd_us :: "u8 list" where
  "kbd_us =
     [0, 27] @ ascii ''1234567890-='' @ [8] @
     [9] @ ascii ''qwertyuiop[]'' @ [10] @
     [0] @ ascii ''asdfghjkl;'' @ [39] @ [96] @
     [0] @ [92] @ ascii ''zxcvbnm,./'' @ [0] @
     ascii ''*'' @ [0] @ ascii '' '' @ replicate 10 0 @
     replicate 6 0 @ ascii ''-'' @ replicate 3 0 @ ascii ''+'' @ replicate 2 0 @
     replicate 9 0 @ replicate 38 0"

definition kbd_us_shift :: "u8 list" where
  "kbd_us_shift =
     [0, 27] @ ascii ''!@#$%^&*()_+'' @ [8] @
     [9] @ ascii ''QWERTYUIOP{}'' @ [10] @
     [0] @ ascii ''ASDFGHJKL:'' @ [34] @ ascii ''~'' @
     [0] @ ascii ''|ZXCVBNM<>?'' @ [0] @ replicate 73 0"

definition isr33_handler :: "'a keyboard_scheme \<Rightarrow> 'a keyboard_scheme option" where
  "isr33_handler st =
     (let (scancode, st) = inb 0x60 st in
      if scancode = 0x2A \<or> scancode = 0x36 then
        (let st = st\<lparr>shift_pressed := True\<rparr> in Some (outb 0x20 0x20 st))
      else if scancode = 0xAA \<or> scancode = 0xB6 then
        (let st = st\<lparr>shift_pressed := False\<rparr> in Some (outb 0x20 0x20 st))
      else do {
        st \<leftarrow> (if scancode AND 0x80 = 0 then
                 (let c = (if shift_pressed st then kbd_us_shift ! unat scancode
                           else kbd_us ! unat scancode) in
                  if c \<noteq> 0 then terminal_putchar c (keyboard_push c st) else Some st)
               else Some st);
        Some (outb 0x20 0x20 st)
      })"

partial_function (option) keyboard_getchar ::
  "'a keyboard_scheme \<Rightarrow> (u8 \<times> 'a keyboard_scheme) option" where
  "keyboard_getchar st =
     (if read_ptr st = write_ptr st then
        do {
          st \<leftarrow> isr33_handler st;
          keyboard_getchar st
        }
      else Some (keyboard_take st))"

section \<open>gets.c\<close>

partial_function (option) gets_loop ::
  "u64 \<Rightarrow> int \<Rightarrow> int \<Rightarrow> 'a keyboard_scheme \<Rightarrow> 'a keyboard_scheme option" where
  "gets_loop buffer max_len i st =
     (if i < max_len - 1 then
        do {
          (c, st) \<leftarrow> keyboard_getchar st;
          if c = 10 then
            do {
              st \<leftarrow> st8 st (buffer + word_of_int i) 0;
              terminal_putchar 10 st
            }
          else if c = 8 then
            gets_loop buffer max_len (if i > 0 then i - 1 else i) st
          else
            do {
              st \<leftarrow> st8 st (buffer + word_of_int i) c;
              gets_loop buffer max_len (i + 1) st
            }
        }
      else st8 st (buffer + word_of_int i) 0)"

definition gets :: "u64 \<Rightarrow> u32 \<Rightarrow> 'a keyboard_scheme \<Rightarrow> 'a keyboard_scheme option" where
  "gets buffer max_len st = gets_loop buffer (sint max_len) 0 st"

section \<open>The buffer as a queue\<close>

definition contents :: "'a keyboard_scheme \<Rightarrow> u8 list" where
  "contents st =
     map (\<lambda>i. keyboard_buffer st (read_ptr st + of_nat i)) [0..<unat (write_ptr st - read_ptr st)]"

lemma length_contents: "length (contents st) = unat (write_ptr st - read_ptr st)"
  by (simp add: contents_def)

lemma u8_bound: "unat (x :: u8) < 256"
  using unsigned_less [of x] by simp

lemma full_iff: "write_ptr st + 1 = read_ptr st \<longleftrightarrow> length (contents st) = 255"
proof -
  have "write_ptr st + 1 = read_ptr st \<longleftrightarrow> write_ptr st - read_ptr st = - 1"
    by (auto simp: algebra_simps eq_neg_iff_add_eq_0)
  also have "\<dots> \<longleftrightarrow> unat (write_ptr st - read_ptr st) = unat (- 1 :: u8)"
    by (simp only: word_unat_eq_iff)
  also have "unat (- 1 :: u8) = 255" by (simp add: unsigned_minus_1_eq_mask mask_eq_exp_minus_1)
  finally show ?thesis by (simp add: length_contents)
qed

lemma contents_push:
  assumes "length (contents st) < 255"
  shows "contents (keyboard_push c st) = contents st @ [c]"
proof -
  let ?n = "unat (write_ptr st - read_ptr st)"
  have n: "?n < 255" using assms by (simp add: length_contents)
  have "write_ptr st + 1 - read_ptr st = write_ptr st - read_ptr st + 1" by (simp add: algebra_simps)
  moreover have "unat (write_ptr st - read_ptr st + 1) = Suc ?n"
    using n by (intro unat_Suc_less [of _ 255]) (simp add: word_less_nat_alt)
  ultimately have len: "unat (write_ptr st + 1 - read_ptr st) = Suc ?n" by (simp only:)
  have "read_ptr st + of_nat i \<noteq> write_ptr st" if "i < ?n" for i
  proof
    assume "read_ptr st + of_nat i = write_ptr st"
    then have "write_ptr st - read_ptr st = of_nat i" by (auto simp: algebra_simps)
    then have "?n = i mod 256" by (simp add: unat_of_nat)
    moreover have "i mod 256 \<le> i" by (rule mod_less_eq_dividend)
    ultimately show False using that by linarith
  qed
  then show ?thesis
    using n len full_iff [of st] by (simp add: keyboard_push_def contents_def length_contents)
qed

lemma contents_full: "length (contents st) = 255 \<Longrightarrow> keyboard_push c st = st"
  using full_iff [of st] by (simp add: keyboard_push_def)

lemma contents_take:
  assumes "contents st = c # cs"
  shows "\<exists>st'. keyboard_take st = (c, st') \<and> contents st' = cs"
proof -
  let ?d = "write_ptr st - read_ptr st"
  have n: "unat ?d = Suc (length cs)" using assms length_contents [of st] by simp
  then have "?d \<noteq> 0" by auto
  then have "unat (?d - 1) = length cs" using n by (simp add: unat_minus_one)
  then have len: "unat (write_ptr st - (read_ptr st + 1)) = length cs"
    by (simp add: diff_diff_add)
  have upt: "[0..<Suc (length cs)] = 0 # map Suc [0..<length cs]"
    by (subst upt_conv_Cons) (simp_all add: map_Suc_upt del: upt_Suc)
  have "c = keyboard_buffer st (read_ptr st)"
    "cs = map (\<lambda>i. keyboard_buffer st (read_ptr st + of_nat (Suc i))) [0..<length cs]"
    using assms unfolding contents_def n upt by (simp_all add: o_def)
  then show ?thesis
    by (simp add: keyboard_take_def contents_def len add.assoc)
qed

interpretation kbd: bounded_queue keyboard_push keyboard_take contents 255
proof unfold_locales
  show "length (contents s) \<le> 255" for s :: "'a keyboard_scheme"
    using u8_bound [of "write_ptr s - read_ptr s"] by (simp add: length_contents)
qed (simp_all add: contents_push contents_full contents_take)

lemma empty_iff: "read_ptr st = write_ptr st \<longleftrightarrow> contents st = []"
  using length_contents [of st] by (auto simp: unat_eq_0)

section \<open>The reader and the interrupt interleaved\<close>

text \<open>
  Between any two steps of the reader the interrupt may push a character. The reader takes a
  character in two steps: it loads the cell (line 42), then advances the index (line 43). The
  two lists are ghosts: what \<open>keyboard_push\<close> accepted, and what the reader returned.
\<close>

inductive kbd_step :: "keyboard \<times> u8 option \<times> u8 list \<times> u8 list \<Rightarrow>
    keyboard \<times> u8 option \<times> u8 list \<times> u8 list \<Rightarrow> bool" where
  interrupt: "kbd_step (st, r, acc, del)
    (keyboard_push c st, r,
     if write_ptr (keyboard_push c st) = write_ptr st then acc else acc @ [c], del)"
| load: "read_ptr st \<noteq> write_ptr st \<Longrightarrow>
    kbd_step (st, None, acc, del) (st, Some (keyboard_buffer st (read_ptr st)), acc, del)"
| advance: "kbd_step (st, Some c, acc, del)
    (st\<lparr>read_ptr := read_ptr st + 1\<rparr>, None, acc, del @ [c])"

inductive kbd_reach :: "keyboard \<Rightarrow> keyboard \<times> u8 option \<times> u8 list \<times> u8 list \<Rightarrow> bool" for st0 where
  start: "kbd_reach st0 (st0, None, [], [])"
| step: "kbd_reach st0 s \<Longrightarrow> kbd_step s s' \<Longrightarrow> kbd_reach st0 s'"

inductive_cases kbd_stepE: "kbd_step s s'"

definition kbd_inv :: "keyboard \<times> u8 option \<times> u8 list \<times> u8 list \<Rightarrow> bool" where
  "kbd_inv = (\<lambda>(st, r, acc, del). acc = del @ contents st \<and>
     (case r of None \<Rightarrow> True | Some c \<Rightarrow> \<exists>cs. contents st = c # cs))"

lemma push_accepted:
  "contents (keyboard_push c st) =
     (if write_ptr (keyboard_push c st) = write_ptr st then contents st else contents st @ [c])"
proof (cases "write_ptr st + 1 = read_ptr st")
  case True
  then show ?thesis by (simp add: keyboard_push_def)
next
  case False
  then have "length (contents st) < 255"
    using full_iff [of st] kbd.bounded [of st] by simp
  moreover have "write_ptr (keyboard_push c st) \<noteq> write_ptr st"
    using False by (simp add: keyboard_push_def)
  ultimately show ?thesis using contents_push by simp
qed

lemma contents_hd: "read_ptr st \<noteq> write_ptr st \<Longrightarrow>
    \<exists>cs. contents st = keyboard_buffer st (read_ptr st) # cs"
  using contents_take [of st] empty_iff [of st]
  by (cases "contents st") (auto simp: keyboard_take_def)

lemma kbd_step_inv: "kbd_step s s' \<Longrightarrow> kbd_inv s \<Longrightarrow> kbd_inv s'"
proof (induction rule: kbd_step.induct)
  case (interrupt st r acc del c)
  then show ?case by (auto simp: kbd_inv_def push_accepted split: option.splits)
next
  case (load st acc del)
  then show ?case using contents_hd [of st] by (simp add: kbd_inv_def)
next
  case (advance st c acc del)
  then show ?case
    using contents_take [of st c] by (auto simp: kbd_inv_def keyboard_take_def Let_def)
qed

lemma kbd_reach_inv: "kbd_reach st0 s \<Longrightarrow> contents st0 = [] \<Longrightarrow> kbd_inv s"
proof (induction rule: kbd_reach.induct)
  case start
  then show ?case by (simp add: kbd_inv_def)
next
  case (step s s')
  then show ?case using kbd_step_inv by blast
qed

section \<open>The keyboard interrupt\<close>

definition key_of :: "bool \<Rightarrow> u8 \<Rightarrow> u8" where
  "key_of sh sc =
     (if sc \<in> {0x2A, 0x36} \<or> 0x80 \<le> sc then 0
      else if sh then kbd_us_shift ! unat sc else kbd_us ! unat sc)"

definition next_shift :: "bool \<Rightarrow> u8 \<Rightarrow> bool" where
  "next_shift sh sc =
     (if sc \<in> {0x2A, 0x36} then True else if sc \<in> {0xAA, 0xB6} then False else sh)"

definition echo :: "u8 \<Rightarrow> (u16 \<times> u8) list" where
  "echo c = (if c = 0 then [] else [(PORT, c)])"

lemma key_tables: "length kbd_us = 128" "length kbd_us_shift = 128"
  by (simp_all add: kbd_us_def kbd_us_shift_def)

lemma high_bit: "sc AND 0x80 = 0 \<longleftrightarrow> \<not> 0x80 \<le> (sc :: u8)"
proof -
  have "sc AND 0x80 = 0 \<longleftrightarrow> \<not> bit sc 7"
    using and_exp_eq_0_iff_not_bit [of sc 7] by simp
  also have "bit sc 7 \<longleftrightarrow> odd (unat sc div 128)"
  proof -
    have "bit n 7 \<longleftrightarrow> odd (n div 128)" for n :: nat by (simp add: bit_iff_odd)
    then have "bit (unat sc) 7 \<longleftrightarrow> odd (unat sc div 128)" .
    moreover have "bit (unat sc) 7 \<longleftrightarrow> bit sc 7" by (simp add: bit_unsigned_iff)
    ultimately show ?thesis by blast
  qed
  also have "odd (unat sc div 128) \<longleftrightarrow> 128 \<le> unat sc"
  proof -
    have "unat sc div 128 < 2" using u8_bound [of sc] by (simp add: div_less_iff_less_mult)
    then have "unat sc div 128 = 0 \<or> unat sc div 128 = 1" by linarith
    then show ?thesis by (auto simp: div_eq_0_iff) 
  qed
  finally show ?thesis by (simp add: word_le_nat_alt)
qed

lemma printed_keyboard:
  assumes "printed out st st'"
  shows "keyboard_buffer st' = keyboard_buffer st" "write_ptr st' = write_ptr st"
    "read_ptr st' = read_ptr st" "shift_pressed st' = shift_pressed st"
    "contents st' = contents st" "in_pos st' 0x60 = in_pos st 0x60"
  using assms by (auto simp: printed_def contents_def)

lemma push_frame [simp]:
  "mem (keyboard_push c st) = mem st" "inputs (keyboard_push c st) = inputs st"
  "in_pos (keyboard_push c st) = in_pos st" "outlog (keyboard_push c st) = outlog st"
  "shift_pressed (keyboard_push c st) = shift_pressed st"
  "cr3 (keyboard_push c st) = cr3 st" "hhdm_offset (keyboard_push c st) = hhdm_offset st"
  by (simp_all add: keyboard_push_def Let_def)

lemma contents_frame [simp]:
  "contents (outb p v st) = contents st" "contents (st\<lparr>shift_pressed := b\<rparr>) = contents st"
  "contents (st\<lparr>in_pos := f\<rparr>) = contents st" "contents (st\<lparr>mem := m\<rparr>) = contents st"
  "shift_pressed (outb p v st) = shift_pressed st"
  by (simp_all add: contents_def outb_def)

definition scancode :: "'a machine_scheme \<Rightarrow> u8" where
  "scancode st = inputs st 0x60 (in_pos st 0x60)"

lemma isr33_step:
  fixes st :: "'a keyboard_scheme"
  assumes "tx_live st"
  defines "c \<equiv> key_of (shift_pressed st) (scancode st)"
  shows "\<exists>st'. isr33_handler st = Some st' \<and>
    shift_pressed st' = next_shift (shift_pressed st) (scancode st) \<and>
    contents st' = (if c = 0 then contents st else contents (keyboard_push c st)) \<and>
    outlog st' = outlog st @ echo c @ [(0x20, 0x20)] \<and>
    in_pos st' 0x60 = Suc (in_pos st 0x60) \<and> inputs st' = inputs st \<and> mem st' = mem st"
proof -
  let ?st = "st\<lparr>in_pos := (in_pos st)(0x60 := Suc (in_pos st 0x60))\<rparr>"
  have tx: "tx_live (keyboard_push c ?st)" using assms(1) by (simp add: tx_live_def)
  have push: "contents (keyboard_push c ?st) = contents (keyboard_push c st)"
    by (simp add: keyboard_push_def contents_def Let_def)
  obtain st1 where st1: "terminal_putchar c (keyboard_push c ?st) = Some st1"
      "printed [c] (keyboard_push c ?st) st1"
    using serial_putchar_live [OF tx] by (auto simp: terminal_putchar_def)
  note fr = printed_frame [OF st1(2)] printed_keyboard [OF st1(2)]
  consider "scancode st \<in> {0x2A, 0x36}" | "scancode st \<in> {0xAA, 0xB6}"
    | "scancode st \<notin> {0x2A, 0x36, 0xAA, 0xB6}" by blast
  then show ?thesis
  proof cases
    case 1
    then show ?thesis
      by (auto simp: isr33_handler_def inb_def scancode_def c_def key_of_def next_shift_def echo_def)
  next
    case 2
    then show ?thesis
      by (auto simp: isr33_handler_def inb_def scancode_def c_def key_of_def next_shift_def echo_def)
  next
    case 3
    then show ?thesis
      using st1(1) fr push
      by (auto simp: isr33_handler_def inb_def scancode_def [symmetric] c_def key_of_def
          next_shift_def echo_def high_bit)
  qed
qed

text \<open>What a sequence of scan codes types, and the state of the shift key after it.\<close>

fun typed :: "bool \<Rightarrow> u8 list \<Rightarrow> u8 list \<times> bool" where
  "typed sh [] = ([], sh)"
| "typed sh (sc # scs) =
     (let (cs, sh') = typed (next_shift sh sc) scs in
      (if key_of sh sc = 0 then cs else key_of sh sc # cs, sh'))"

fun interrupts :: "nat \<Rightarrow> 'a keyboard_scheme \<Rightarrow> 'a keyboard_scheme option" where
  "interrupts 0 st = Some st"
| "interrupts (Suc n) st = do { st \<leftarrow> isr33_handler st; interrupts n st }"

definition scancodes :: "'a machine_scheme \<Rightarrow> nat \<Rightarrow> u8 list" where
  "scancodes st n = map (\<lambda>i. inputs st 0x60 (in_pos st 0x60 + i)) [0..<n]"

lemma scancodes_Suc:
  "inputs st' = inputs st \<Longrightarrow> in_pos st' 0x60 = Suc (in_pos st 0x60) \<Longrightarrow>
     scancodes st (Suc n) = scancode st # scancodes st' n"
  unfolding scancodes_def upt_rec [of 0 "Suc n"]
  by (simp add: scancode_def map_Suc_upt [symmetric] o_def del: upt_Suc)

lemma interrupts_typed:
  fixes st :: "'a keyboard_scheme"
  shows "tx_live st \<Longrightarrow> \<exists>st'. interrupts n st = Some st' \<and>
    contents st' = contents (fold keyboard_push (fst (typed (shift_pressed st) (scancodes st n))) st) \<and>
    shift_pressed st' = snd (typed (shift_pressed st) (scancodes st n)) \<and>
    length (outlog st') = length (outlog st) + n +
      length (fst (typed (shift_pressed st) (scancodes st n))) \<and>
    filter (\<lambda>(p, _). p = PORT) (outlog st') = filter (\<lambda>(p, _). p = PORT) (outlog st) @
      map (Pair PORT) (fst (typed (shift_pressed st) (scancodes st n)))"
proof (induction n arbitrary: st)
  case (Suc n)
  let ?c = "key_of (shift_pressed st) (scancode st)"
  obtain st1 where 1: "isr33_handler st = Some st1"
      "shift_pressed st1 = next_shift (shift_pressed st) (scancode st)"
      "contents st1 = (if ?c = 0 then contents st else contents (keyboard_push ?c st))"
      "outlog st1 = outlog st @ echo ?c @ [(0x20, 0x20)]"
      "in_pos st1 0x60 = Suc (in_pos st 0x60)" "inputs st1 = inputs st"
    using isr33_step [OF Suc.prems] by blast
  have same: "contents (fold keyboard_push cs s) = contents (fold keyboard_push cs s')"
    if "contents s = contents s'" for cs and s s' :: "'a keyboard_scheme"
    using that by (simp add: kbd.push_all)
  have tx: "tx_live st1" using Suc.prems 1(6) by (simp add: tx_live_def)
  let ?t = "typed (shift_pressed st1) (scancodes st1 n)"
  have typed: "typed (shift_pressed st) (scancodes st (Suc n)) =
      (if ?c = 0 then fst ?t else ?c # fst ?t, snd ?t)"
    using 1(2) by (simp add: scancodes_Suc [OF 1(6,5)] split_beta Let_def)
  obtain st' where 2: "interrupts n st1 = Some st'"
      "contents st' = contents (fold keyboard_push (fst ?t) st1)" "shift_pressed st' = snd ?t"
      "length (outlog st') = length (outlog st1) + n + length (fst ?t)"
      "filter (\<lambda>(p, _). p = PORT) (outlog st') =
         filter (\<lambda>(p, _). p = PORT) (outlog st1) @ map (Pair PORT) (fst ?t)"
    using Suc.IH [OF tx] by blast
  show ?case
  proof (cases "?c = 0")
    case True
    then show ?thesis using 1 2 typed same [of st1 st] by (simp add: echo_def)
  next
    case False
    then show ?thesis
      using 1 2 typed same [of st1 "keyboard_push ?c st"] by (simp add: echo_def)
  qed
qed (simp add: scancodes_def)

section \<open>Reading characters\<close>

lemma getchar_ready:
  "contents st = c # cs \<Longrightarrow> \<exists>st'. keyboard_getchar st = Some (c, st') \<and> contents st' = cs \<and>
     mem st' = mem st \<and> inputs st' = inputs st"
  using contents_take [of st c cs] empty_iff [of st]
  by (subst keyboard_getchar.simps) (auto simp: keyboard_take_def Let_def)

text \<open>
  A reader that waits gets the first character that is typed, as soon as some later scan code
  is a character key.
\<close>

lemma getchar_waits:
  fixes st :: "'a keyboard_scheme"
  shows "tx_live st \<Longrightarrow> contents st = [] \<Longrightarrow> fst (typed (shift_pressed st) (scancodes st n)) \<noteq> [] \<Longrightarrow>
    \<exists>st'. keyboard_getchar st = Some (hd (fst (typed (shift_pressed st) (scancodes st n))), st') \<and>
      contents st' = []"
proof (induction n arbitrary: st)
  case (Suc n)
  let ?c = "key_of (shift_pressed st) (scancode st)"
  obtain st1 where 1: "isr33_handler st = Some st1"
      "shift_pressed st1 = next_shift (shift_pressed st) (scancode st)"
      "contents st1 = (if ?c = 0 then contents st else contents (keyboard_push ?c st))"
      "in_pos st1 0x60 = Suc (in_pos st 0x60)" "inputs st1 = inputs st"
    using isr33_step [OF Suc.prems(1)] by blast
  have step: "keyboard_getchar st = keyboard_getchar st1"
    using Suc.prems(2) empty_iff [of st] 1(1) by (subst keyboard_getchar.simps) simp
  have sc: "scancodes st (Suc n) = scancode st # scancodes st1 n"
    using scancodes_Suc 1(4,5) by blast
  show ?case
  proof (cases "?c = 0")
    case True
    have "tx_live st1" using Suc.prems(1) 1(5) by (simp add: tx_live_def)
    then show ?thesis
      using Suc.IH [of st1] Suc.prems(2,3) True 1(2,3) step sc by (simp add: split_beta Let_def)
  next
    case False
    then have "contents st1 = [?c]" using 1(3) Suc.prems(2) contents_push [of st ?c] by simp
    then show ?thesis
      using getchar_ready [of st1 ?c "[]"] False step sc by (auto simp: split_beta Let_def)
  qed
qed (simp add: scancodes_def)

section \<open>Reading a line\<close>

text \<open>
  The line editor on a list of characters: \<open>acc\<close> is the line so far. It ends at a newline or
  when only the cell for the NUL is left, and yields the line and the characters not read.
\<close>

fun edit_line :: "nat \<Rightarrow> u8 list \<Rightarrow> u8 list \<Rightarrow> (u8 list \<times> u8 list) option" where
  "edit_line m acc cs =
     (if m \<le> Suc (length acc) then Some (acc, cs)
      else case cs of
        [] \<Rightarrow> None
      | c # cs \<Rightarrow>
          if c = 10 then Some (acc, cs)
          else if c = 8 then edit_line m (butlast acc) cs
          else edit_line m (acc @ [c]) cs)"

declare edit_line.simps [simp del]

lemma edit_line_length: "edit_line m acc cs = Some (line, rest) \<Longrightarrow> length acc < m \<Longrightarrow> length line < m"
proof (induction m acc cs rule: edit_line.induct)
  case (1 m acc cs)
  then show ?case
    by (subst (asm) (3) edit_line.simps) (auto split: if_splits list.splits)
qed

lemma bytes_snoc: "bytes m p (Suc n) = bytes m p n @ [m (p + of_nat n)]"
proof (induction n arbitrary: p)
  case (Suc n)
  have "bytes m p (Suc (Suc n)) = m p # bytes m (p + 1) (Suc n)" by (rule bytes.simps(2))
  also have "bytes m (p + 1) (Suc n) = bytes m (p + 1) n @ [m (p + 1 + of_nat n)]" by (rule Suc.IH)
  finally show ?case by (simp add: add.assoc)
qed simp

lemma bytes_cong:
  "(\<And>i. i < n \<Longrightarrow> m (p + of_nat i) = m' (p + of_nat i)) \<Longrightarrow> bytes m p n = bytes m' p n"
  by (simp add: bytes_eq_iff)

lemma kregion_cell:
  assumes "kregion p n" and "i < n"
  shows "khalf (p + of_nat i)" and "j < n \<Longrightarrow> p + of_nat i = p + of_nat j \<longleftrightarrow> i = j"
    and "within (p + of_nat i) p n"
proof -
  show "khalf (p + of_nat i)" using kregion_offset [OF assms(1), of i] assms(2) by (simp add: kregion_def)
  show "p + of_nat i = p + of_nat j \<longleftrightarrow> i = j" if "j < n"
    using kregion_unat_add [OF assms] kregion_unat_add [OF assms(1) that] by (metis add_left_cancel)
  have "i < 2 ^ 64" using assms by (auto simp: kregion_def)
  then show "within (p + of_nat i) p n" using assms(2) by simp
qed

lemma gets_loop_edit:
  fixes st :: "'a keyboard_scheme"
  shows "contents st = cs \<Longrightarrow> edit_line m acc cs = Some (line, rest) \<Longrightarrow> length acc < m \<Longrightarrow>
    kregion buffer m \<Longrightarrow> tx_live st \<Longrightarrow> bytes (mem st) buffer (length acc) = acc \<Longrightarrow>
    \<exists>st'. gets_loop buffer (int m) (int (length acc)) st = Some st' \<and> contents st' = rest \<and>
      bytes (mem st') buffer (length line) = line \<and> mem st' (buffer + of_nat (length line)) = 0 \<and>
      (\<forall>x. \<not> within x buffer m \<longrightarrow> mem st' x = mem st x)"
proof (induction m acc cs arbitrary: st rule: edit_line.induct)
  case (1 m acc cs)
  let ?p = "buffer + of_nat (length acc)"
  note cell = kregion_cell [OF 1(6) 1(5)]
  have keep: "bytes (f(?p := v)) buffer (length acc) = bytes f buffer (length acc)" for f v
    using cell(2) 1(5) by (intro bytes_cong) (metis fun_upd_other less_irrefl less_trans)
  have store: "st8 s ?p v = Some (s\<lparr>mem := (mem s)(?p := v)\<rparr>)" for s :: "'a keyboard_scheme" and v
    using cell(1) by (rule st8_kernel)
  show ?case
  proof (cases "m \<le> Suc (length acc)")
    case True
    then have "line = acc" "rest = cs" using 1(4) by (simp_all add: edit_line.simps [of m acc])
    then show ?thesis
      using True 1(3,8) store cell(3) keep by (subst gets_loop.simps) auto
  next
    case False
    then obtain c cs' where cs: "cs = c # cs'" using 1(4)
      by (cases cs) (simp_all add: edit_line.simps [of m acc])
    obtain st1 where 2: "keyboard_getchar st = Some (c, st1)" "contents st1 = cs'"
        "mem st1 = mem st" "inputs st1 = inputs st"
      using getchar_ready [of st c cs'] 1(3) cs by auto
    have tx: "tx_live st1" using 1(7) 2(4) by (simp add: tx_live_def)
    show ?thesis
    proof (cases "c = 10")
      case True
      let ?s = "st1\<lparr>mem := (mem st1)(?p := 0)\<rparr>"
      have "tx_live ?s" using tx by (simp add: tx_live_def)
      then obtain st2 where 3: "terminal_putchar 10 ?s = Some st2" "printed [10] ?s st2"
        using serial_putchar_live unfolding terminal_putchar_def by blast
      have "line = acc" "rest = cs'" using 1(4) False True cs by (simp_all add: edit_line.simps [of m acc])
      then show ?thesis
        using False True 2 3(1) printed_frame(1) [OF 3(2)] printed_keyboard(5) [OF 3(2)] store keep
          1(8) cell(3)
        by (subst gets_loop.simps) auto
    next
      case no: False
      show ?thesis
      proof (cases "c = 8")
        case True
        have e: "edit_line m (butlast acc) cs' = Some (line, rest)"
          using 1(4) False True cs by (simp add: edit_line.simps [of m acc])
        have "bytes (mem st1) buffer (length (butlast acc)) = butlast acc"
        proof (cases acc rule: rev_cases)
          case (snoc as a)
          then show ?thesis using 1(8) 2(3) bytes_snoc [of "mem st" buffer "length as"] by simp
        qed simp
        moreover have "gets_loop buffer (int m) (int (length acc)) st =
            gets_loop buffer (int m) (int (length (butlast acc))) st1"
          using False True 2(1) by (subst gets_loop.simps) (cases acc; simp)
        ultimately show ?thesis
          using "1.IH"(1) [OF False cs no True 2(2) e _ 1(6) tx] 1(5) 2(3) by simp
      next
        case other: False
        let ?s = "st1\<lparr>mem := (mem st1)(?p := c)\<rparr>"
        have e: "edit_line m (acc @ [c]) cs' = Some (line, rest)"
          using 1(4) False no other cs by (simp add: edit_line.simps [of m acc])
        have B: "bytes (mem ?s) buffer (length (acc @ [c])) = acc @ [c]"
          using keep 1(8) 2(3) bytes_snoc [of "mem ?s" buffer "length acc"] by simp
        have G: "gets_loop buffer (int m) (int (length acc)) st =
            gets_loop buffer (int m) (int (length (acc @ [c]))) ?s"
          using False no other 2(1) store
          by (subst gets_loop.simps) (simp add: add.commute)
        have C: "contents ?s = cs'" and T: "tx_live ?s" and L: "length (acc @ [c]) < m"
          using 2(2) tx False by (simp_all add: tx_live_def)
        from "1.IH"(2) [OF False cs no other C e L 1(6) T B] show ?thesis
          unfolding G using cell(3) 2(3) by auto
      qed
    qed
  qed
qed

section \<open>Properties\<close>

definition demo_keyboard :: keyboard where
  "demo_keyboard = \<lparr>mem = (\<lambda>_. 0), cr3 = 0, hhdm_offset = 0xFFFF800000000000, outlog = [],
     inputs = (\<lambda>p n. if p = 0x60 then [0x2A, 0x1E, 0xAA, 0x1E, 0x9E, 0x1C] ! n else 0xFF),
     in_pos = (\<lambda>_. 0), keyboard_buffer = (\<lambda>_. 0), write_ptr = 0, read_ptr = 0,
     shift_pressed = False\<rparr>"

lemma demo_keyboard [simp]: "contents demo_keyboard = []" "tx_live demo_keyboard"
  by (auto simp: demo_keyboard_def contents_def tx_live_def)

text \<open>
  C17. The ring buffer keeps order under every interleaving of the keyboard interrupt with the
  reader's two steps: the characters the interrupt accepted are, in order, those the reader
  has returned followed by those in the buffer, so none is lost, repeated or overtaken.
\<close>

theorem keyboard_order_kept:
  assumes "kbd_reach st0 (st, r, acc, del)" and "contents st0 = []"
  shows "acc = del @ contents st \<and> length (contents st) \<le> 255"
  using kbd_reach_inv [OF assms] kbd.bounded [of st] by (simp add: kbd_inv_def)

theorem keyboard_order_kept_witness:
  "\<exists>st. kbd_reach demo_keyboard (st, None, [65, 66], [65]) \<and> [65, 66] = [65] @ contents st"
proof -
  let ?s1 = "keyboard_push 65 demo_keyboard"
  let ?s2 = "keyboard_push 66 ?s1"
  have "kbd_reach demo_keyboard (?s1, None, [65], [])"
    using kbd_reach.step [OF kbd_reach.start kbd_step.interrupt [of demo_keyboard None "[]" "[]" 65]]
    by (simp add: keyboard_push_def demo_keyboard_def)
  from kbd_reach.step [OF this kbd_step.load]
  have "kbd_reach demo_keyboard (?s1, Some 65, [65], [])"
    by (simp add: keyboard_push_def demo_keyboard_def)
  from kbd_reach.step [OF this kbd_step.interrupt [of _ _ _ _ 66]]
  have "kbd_reach demo_keyboard (?s2, Some 65, [65, 66], [])"
    by (simp add: keyboard_push_def demo_keyboard_def)
  from kbd_reach.step [OF this kbd_step.advance]
  have "kbd_reach demo_keyboard (?s2\<lparr>read_ptr := read_ptr ?s2 + 1\<rparr>, None, [65, 66], [65])"
    by simp
  with keyboard_order_kept [OF this demo_keyboard(1)] show ?thesis by blast
qed

text \<open>
  The buffer is a bounded FIFO queue: pushing a list into an empty buffer and taking as many
  characters back returns the list, up to its capacity of 255 characters.
\<close>

lemma keyboard_fifo:
  assumes "contents st = []" and "length cs \<le> 255"
  shows "fst (pop_many keyboard_take (length cs) (fold keyboard_push cs st)) = cs"
  using assms by (rule kbd.fifo)

lemma keyboard_fifo_witness:
  "fst (pop_many keyboard_take 3 (fold keyboard_push [72, 105, 33] demo_keyboard)) = [72, 105, 33]"
  using keyboard_fifo [of demo_keyboard "[72, 105, 33]"] by (simp add: numeral_eq_Suc)

text \<open>
  The keyboard driver implements the typing specification: after any number of keyboard
  interrupts, the buffer holds what it held and then the characters typed, as far as they
  fit; the shift state is that of the last shift key event; every typed character was echoed
  to the serial port, in order, and every interrupt was acknowledged once.
\<close>

lemma isr33_types:
  assumes "tx_live st"
  shows "\<exists>st'. interrupts n st = Some st' \<and>
    (let (cs, sh) = typed (shift_pressed st) (scancodes st n) in
      contents st' = contents st @ take (255 - length (contents st)) cs \<and> shift_pressed st' = sh \<and>
      filter (\<lambda>(p, _). p = PORT) (outlog st') =
        filter (\<lambda>(p, _). p = PORT) (outlog st) @ map (Pair PORT) cs \<and>
      length (outlog st') = length (outlog st) + n + length cs)"
  using interrupts_typed [OF assms, of n] by (auto simp: kbd.push_all split_beta Let_def)

lemma isr33_types_witness:
  "\<exists>st'. interrupts 6 demo_keyboard = Some st' \<and> contents st' = ascii ''Aa'' @ [10]"
proof -
  have sc: "scancodes demo_keyboard 6 = [0x2A, 0x1E, 0xAA, 0x1E, 0x9E, 0x1C]"
    by (simp add: scancodes_def demo_keyboard_def upt_rec)
  have "shift_pressed demo_keyboard = False" by (simp add: demo_keyboard_def)
  then have "typed (shift_pressed demo_keyboard) (scancodes demo_keyboard 6) = (ascii ''Aa'' @ [10], False)"
    by (simp add: sc next_shift_def key_of_def kbd_us_def kbd_us_shift_def)
  then show ?thesis using isr33_types [of demo_keyboard 6] by auto
qed

text \<open>
  C26. \<open>keyboard_getchar\<close> waits as long as it must and no longer: with an empty buffer, if some
  later scan code types a character, it returns the first one typed and leaves the buffer
  empty.
\<close>

theorem keyboard_getchar_waits:
  assumes "tx_live st" and "contents st = []"
    and "fst (typed (shift_pressed st) (scancodes st n)) \<noteq> []"
  shows "\<exists>st'. keyboard_getchar st = Some (hd (fst (typed (shift_pressed st) (scancodes st n))), st') \<and>
    contents st' = []"
  using assms by (rule getchar_waits)

theorem keyboard_getchar_waits_witness:
  "\<exists>st'. keyboard_getchar demo_keyboard = Some (of_char CHR ''A'', st') \<and> contents st' = []"
proof -
  have sc: "scancodes demo_keyboard 2 = [0x2A, 0x1E]"
    by (simp add: scancodes_def demo_keyboard_def upt_rec)
  have "shift_pressed demo_keyboard = False" by (simp add: demo_keyboard_def)
  then have "fst (typed (shift_pressed demo_keyboard) (scancodes demo_keyboard 2)) = ascii ''A''"
    by (simp add: sc next_shift_def key_of_def kbd_us_shift_def)
  then show ?thesis using keyboard_getchar_waits [of demo_keyboard 2] by simp
qed

text \<open>
  C18. \<open>gets\<close> implements the line editor: from typed characters it stores the edited line and its
  NUL, leaves the characters behind the line in the buffer, and writes no byte outside the
  \<open>max_len\<close> bytes it was given.
\<close>

theorem gets_edits_line:
  assumes "edit_line m [] (contents st) = Some (line, rest)" and "sint max_len = int m" and "0 < m"
    and "kregion buffer m" and "tx_live st"
  shows "\<exists>st'. gets buffer max_len st = Some st' \<and> contents st' = rest \<and> length line < m \<and>
    bytes (mem st') buffer (length line) = line \<and> mem st' (buffer + of_nat (length line)) = 0 \<and>
    (\<forall>x. \<not> within x buffer m \<longrightarrow> mem st' x = mem st x)"
  using gets_loop_edit [of st "contents st" m "[]" line rest buffer]
    edit_line_length [OF assms(1)] assms by (simp add: gets_def)

theorem gets_edits_line_witness:
  "\<exists>st'. gets 0xFFFF800000000100 16 (fold keyboard_push [72, 111, 8, 105, 10, 33] demo_keyboard) =
      Some st' \<and> bytes (mem st') 0xFFFF800000000100 2 = [72, 105] \<and> contents st' = [33]"
proof -
  let ?st = "fold keyboard_push [72, 111, 8, 105, 10, 33] demo_keyboard"
  have c: "contents ?st = [72, 111, 8, 105, 10, 33]" by (simp only: kbd.push_all) simp
  have tx: "tx_live ?st" using demo_keyboard(2) by (simp add: tx_live_def del: demo_keyboard)
  have e: "edit_line 16 [] (contents ?st) = Some ([72, 105], [33])"
    unfolding c by (simp add: edit_line.simps)
  have k: "kregion 0xFFFF800000000100 16" by (simp add: kregion_def khalf_def)
  have len: "length [72, 105 :: u8] = 2" "sint (16 :: u32) = int 16" "0 < (16 :: nat)" by simp_all
  from gets_edits_line [OF e len(2,3) k tx] show ?thesis unfolding len(1) by blast
qed

text \<open>
  The bound of \<open>gets\<close> is not checked from below: for every length of zero or less it writes
  the NUL to the first byte of the buffer, which is not its to write.
\<close>

lemma gets_ignores_empty_buffer:
  assumes "sint max_len \<le> 0" and "khalf buffer"
  shows "gets buffer max_len st = Some (st\<lparr>mem := (mem st)(buffer := 0)\<rparr>)"
  using assms by (simp add: gets_def gets_loop.simps [of _ "sint max_len"] st8_kernel)

lemma gets_ignores_empty_buffer_witness:
  "gets 0xFFFF800000000100 0 demo_keyboard =
     Some (demo_keyboard\<lparr>mem := (mem demo_keyboard)(0xFFFF800000000100 := 0)\<rparr>)"
  by (rule gets_ignores_empty_buffer) (simp_all add: khalf_def)

end
