(* ===== verification/Process.thy ===== *)
theory Process
  imports Kheap
begin

text \<open>
  Processes and the timer interrupt (kernel/kernel/process.c, include/kernel/process.h) with the
  register saving of the interrupt stubs (arch/x86_64/idt_flush.S). The process list is a
  circular list in the kernel heap: \<open>ready st ps\<close> says that from the current process on the
  \<open>next\<close> pointers visit \<open>ps\<close> and come back. A paused process is its saved stack pointer and the
  frame of registers there.
\<close>

unbundle bit_operations_syntax

section \<open>process.h\<close>

text \<open>\<open>struct registers\<close>, in the order of its fields, and \<open>process_t\<close>: \<open>pid\<close> at 0, \<open>rsp\<close> at 8,
  \<open>page_directory\<close> at 16, \<open>next\<close> at 24, 32 bytes.\<close>

record registers =
  rdi :: u64  rsi :: u64  rbp :: u64  rbx :: u64  rdx :: u64  rcx :: u64  rax :: u64
  r8 :: u64  r9 :: u64  r10 :: u64  r11 :: u64  r12 :: u64  r13 :: u64  r14 :: u64  r15 :: u64
  rip :: u64  cs :: u64  rflags :: u64  rsp :: u64  ss :: u64

record process = kheap +
  current_process :: u64
  process_list :: u64
  uptime_ms :: u64
  next_pid :: u32

section \<open>process.c\<close>

definition multitasking_initialize :: "'a process_scheme \<Rightarrow> 'a process_scheme option" where
  "multitasking_initialize st =
     do {
       (p, st) \<leftarrow> kmalloc 32 st;
       let st = st\<lparr>current_process := p\<rparr>;
       st \<leftarrow> st32 st (current_process st) 0;
       st \<leftarrow> st64 st (current_process st + 8) 0;
       st \<leftarrow> st64 st (current_process st + 16) (get_active_page_dir st);
       st \<leftarrow> st64 st (current_process st + 24) (current_process st);
       let st = st\<lparr>process_list := current_process st\<rparr>;
       kprintf (''Multithreading: Initialized'' @ nl) [] st
     }"

text \<open>Lines 26 to 30: a new control block behind the head of the list.\<close>

definition new_task_link :: "'a process_scheme \<Rightarrow> (u64 \<times> 'a process_scheme) option" where
  "new_task_link st =
     do {
       (new_task, st) \<leftarrow> kmalloc 32 st;
       let pid = next_pid st;
       let st = st\<lparr>next_pid := pid + 1\<rparr>;
       st \<leftarrow> st32 st new_task pid;
       dir \<leftarrow> ld64 st (current_process st + 16);
       st \<leftarrow> st64 st (new_task + 16) dir;
       n \<leftarrow> ld64 st (process_list st + 24);
       st \<leftarrow> st64 st (new_task + 24) n;
       st \<leftarrow> st64 st (process_list st + 24) new_task;
       Some (new_task, st)
     }"

text \<open>\<open>*(--sp) = x\<close> in C, and \<open>pushq\<close> in the stubs.\<close>

fun push_list :: "u64 list \<Rightarrow> u64 \<Rightarrow> 'a machine_scheme \<Rightarrow> (u64 \<times> 'a machine_scheme) option" where
  "push_list [] sp st = Some (sp, st)"
| "push_list (x # xs) sp st =
     do {
       st \<leftarrow> st64 st (sp - 8) x;
       push_list xs (sp - 8) st
     }"

definition thread_frame :: "u64 \<Rightarrow> u64 \<Rightarrow> u64 list" where
  "thread_frame function stack_phys =
     [0x10, stack_phys + 4096, 0x202, 0x08, function] @
     [0, 0, 0, 0, 0, 0, 0, 0] @ [0, 0, 0, 0, 0, 0, 0]"

definition create_kernel_thread :: "u64 \<Rightarrow> 'a process_scheme \<Rightarrow> 'a process_scheme option" where
  "create_kernel_thread function st =
     do {
       (new_task, st) \<leftarrow> new_task_link st;
       (stack_phys, st) \<leftarrow> pmm_alloc_block st;
       let stack_top = (stack_phys + 4096) AND NOT 0xF;
       (stack_top, st) \<leftarrow> push_list (thread_frame function stack_phys) stack_top st;
       st \<leftarrow> st64 st (new_task + 8) stack_top;
       pid \<leftarrow> ld32 st new_task;
       kprintf (''Created task %d'' @ nl) [ucast pid] st
     }"

definition schedule :: "u64 \<Rightarrow> 'a process_scheme \<Rightarrow> (u64 \<times> 'a process_scheme) option" where
  "schedule current_rsp st =
     (if current_process st = 0 then Some (current_rsp, st)
      else
        do {
          st \<leftarrow> st64 st (current_process st + 8) current_rsp;
          n \<leftarrow> ld64 st (current_process st + 24);
          let st = st\<lparr>current_process := n\<rparr>;
          r \<leftarrow> ld64 st (current_process st + 8);
          Some (r, st)
        })"

definition irq0_handler :: "u64 \<Rightarrow> 'a process_scheme \<Rightarrow> (u64 \<times> 'a process_scheme) option" where
  "irq0_handler sp st =
     (let st = st\<lparr>uptime_ms := uptime_ms st + 10\<rparr>;
          st = outb 0x20 0x20 st
      in schedule sp st)"

section \<open>The interrupt stubs\<close>

text \<open>What the processor pushes on an interrupt, and the macros \<open>pusha64\<close> and \<open>popa64\<close>.\<close>

definition cpu_frame :: "registers \<Rightarrow> u64 list" where
  "cpu_frame r = [ss r, rsp r, rflags r, cs r, rip r]"

definition pusha64 :: "registers \<Rightarrow> u64 list" where
  "pusha64 r = [r15 r, r14 r, r13 r, r12 r, r11 r, r10 r, r9 r, r8 r, rax r, rcx r, rdx r, rbx r,
     rbp r, rsi r, rdi r]"

fun pop_list :: "nat \<Rightarrow> u64 \<Rightarrow> 'a machine_scheme \<Rightarrow> (u64 list \<times> u64) option" where
  "pop_list 0 sp st = Some ([], sp)"
| "pop_list (Suc n) sp st =
     do {
       x \<leftarrow> ld64 st sp;
       (xs, sp) \<leftarrow> pop_list n (sp + 8) st;
       Some (x # xs, sp)
     }"

text \<open>\<open>popa64\<close> and \<open>iretq\<close>: the popped words into the registers, in that order.\<close>

fun popa64_iretq :: "u64 list \<Rightarrow> registers option" where
  "popa64_iretq [di, si, bp, bx, dx, cx, ax, e8, e9, e10, e11, e12, e13, e14, e15, ip, c, fl, sp, s] =
     Some \<lparr>rdi = di, rsi = si, rbp = bp, rbx = bx, rdx = dx, rcx = cx, rax = ax, r8 = e8, r9 = e9,
       r10 = e10, r11 = e11, r12 = e12, r13 = e13, r14 = e14, r15 = e15, rip = ip, cs = c,
       rflags = fl, rsp = sp, ss = s\<rparr>"
| "popa64_iretq _ = None"

text \<open>
  \<open>isr32\<close>, from the interrupt of a task that runs with registers \<open>r\<close> and whose kernel stack
  is at \<open>sp\<close>, to the registers of the task that continues.
\<close>

definition isr32 :: "registers \<Rightarrow> u64 \<Rightarrow> 'a process_scheme \<Rightarrow> (registers \<times> 'a process_scheme) option" where
  "isr32 r sp st =
     do {
       (sp, st) \<leftarrow> push_list (cpu_frame r) sp st;
       (sp, st) \<leftarrow> push_list (pusha64 r) sp st;
       (sp, st) \<leftarrow> irq0_handler sp st;
       (ws, sp) \<leftarrow> pop_list 20 sp st;
       r \<leftarrow> popa64_iretq ws;
       Some (r, st)
     }"

section \<open>Words on the stack\<close>

definition words :: "(u64 \<Rightarrow> u8) \<Rightarrow> u64 \<Rightarrow> nat \<Rightarrow> u64 list" where
  "words m p n = map (\<lambda>i. ldw 8 m (p + 8 * of_nat i)) [0..<n]"

lemma words_0 [simp]: "words m p 0 = []"
  by (simp add: words_def)

lemma words_Suc: "words m p (Suc n) = ldw 8 m p # words m (p + 8) n"
  unfolding words_def upt_rec [of 0 "Suc n"]
  by (simp add: map_Suc_upt [symmetric] o_def algebra_simps del: upt_Suc)

lemma words_cong:
  assumes "8 * n \<le> 2 ^ 64" and "\<And>x. within x p (8 * n) \<Longrightarrow> m' x = m x"
  shows "words m' p n = words m p n"
proof -
  have "ldw 8 m' (p + 8 * of_nat i) = (ldw 8 m (p + 8 * of_nat i) :: u64)" if "i < n" for i
  proof (rule ldw_cong)
    fix x assume "within x (p + 8 * of_nat i) 8"
    then have "within x (p + of_nat (8 * i)) 8" by simp
    then have "within x p (8 * n)"
      using within_offset_iff [of "8 * i" 8 x p] that assms(1) by (auto simp: within_def)
    then show "m' x = m x" by (rule assms(2))
  qed
  then show ?thesis by (simp add: words_def)
qed

lemma words_nth: "i < n \<Longrightarrow> words m p n ! i = ldw 8 m (p + 8 * of_nat i)"
  by (simp add: words_def)

lemma words_update:
  assumes "i < n" and "8 * n \<le> 2 ^ 64"
  shows "words (stw 8 m (p + 8 * of_nat i) v) p n = (words m p n)[i := v]"
proof (rule nth_equalityI)
  show "words (stw 8 m (p + 8 * of_nat i) v) p n ! j = (words m p n)[i := v] ! j"
    if "j < length (words (stw 8 m (p + 8 * of_nat i) v) p n)" for j
  proof (cases "j = i")
    case True
    then show ?thesis using assms(1) by (simp add: words_nth ldw_stw_same) (simp add: words_def)
  next
    case False
    have j: "j < n" using that by (simp add: words_def)
    have "\<not> within x (p + 8 * of_nat i) 8" if "within x (p + 8 * of_nat j) 8" for x
      using that False assms j within_offset_iff [of "8 * i" 8 x p] within_offset_iff [of "8 * j" 8 x p]
      by auto
    then show ?thesis using False j assms(1) by (simp add: words_nth ldw_stw_other)
  qed
qed (simp add: words_def)

lemma pop_list_words:
  "kregion sp (8 * n) \<Longrightarrow> pop_list n sp st = Some (words (mem st) sp n, sp + 8 * of_nat n)"
proof (induction n arbitrary: sp)
  case (Suc n)
  have "kregion sp 8" using Suc.prems by (rule kregion_mono) simp
  moreover have "kregion (sp + 8) (8 * n)"
    using kregion_offset [OF Suc.prems, of 8] by simp
  ultimately show ?case
    using Suc.IH [of "sp + 8"] by (simp add: kernel_mem words_Suc add.assoc)
qed simp

lemma push_list_append:
  "push_list (xs @ ys) sp st =
     do { (sp, st) \<leftarrow> push_list xs sp st; push_list ys sp st }"
proof (induction xs arbitrary: sp st)
  case (Cons x xs)
  then show ?case by (cases "st64 st (sp - 8) x") simp_all
qed simp

text \<open>Pushing a list leaves it, last element lowest, in the words below the old pointer.\<close>

lemma push_list_words:
  fixes st :: "'a machine_scheme"
  shows "kregion sp (8 * length xs) \<Longrightarrow>
    \<exists>m. push_list xs (sp + 8 * of_nat (length xs)) st = Some (sp, st\<lparr>mem := m\<rparr>) \<and>
      words m sp (length xs) = rev xs \<and> (\<forall>x. \<not> within x sp (8 * length xs) \<longrightarrow> m x = mem st x)"
proof (induction xs arbitrary: sp rule: rev_induct)
  case Nil
  have "st = st\<lparr>mem := mem st\<rparr>" by simp
  then show ?case by (intro exI [of _ "mem st"]) simp
next
  case (snoc x xs)
  let ?n = "length xs"
  have reg: "kregion sp (8 + 8 * ?n)" using snoc.prems by simp
  have "kregion (sp + 8) (8 * ?n)" using kregion_next [of sp 8] reg by simp
  from snoc.IH [OF this] obtain m where
    m: "push_list xs (sp + 8 + 8 * of_nat ?n) st = Some (sp + 8, st\<lparr>mem := m\<rparr>)"
      "words m (sp + 8) ?n = rev xs" "\<forall>a. \<not> within a (sp + 8) (8 * ?n) \<longrightarrow> m a = mem st a"
    by blast
  have small: "8 + 8 * ?n \<le> 2 ^ 64" using reg by (auto simp: kregion_def)
  have split: "within a sp (8 + 8 * ?n) \<longleftrightarrow> within a sp 8 \<or> within a (sp + 8) (8 * ?n)" for a
    using within_add [OF small, of a sp] by simp
  have apart: "\<not> within a sp 8" if "within a (sp + 8) (8 * ?n)" for a
    using that within_offset_iff [of 8 "8 * ?n" a sp] small by (simp add: within_def)
  let ?m = "stw 8 m sp x"
  have "kregion sp 8" using reg by (rule kregion_mono) simp
  then have "push_list (xs @ [x]) (sp + 8 * of_nat (length (xs @ [x]))) st = Some (sp, st\<lparr>mem := ?m\<rparr>)"
    using m(1) by (simp add: push_list_append kernel_mem algebra_simps)
  moreover have "words ?m (sp + 8) ?n = rev xs"
    using words_cong [of ?n "sp + 8" ?m m] small apart m(2) by (simp add: stw_outside)
  then have "words ?m sp (length (xs @ [x])) = rev (xs @ [x])"
    by (simp add: words_Suc ldw_stw_same)
  moreover have "?m a = mem st a" if "\<not> within a sp (8 * length (xs @ [x]))" for a
    using that split [of a] m(3) by (simp add: stw_outside)
  ultimately show ?case by blast
qed

section \<open>Frames\<close>

text \<open>The twenty words of \<open>struct registers\<close>, as C reads them through the pointer of the stub.\<close>

definition reg_list :: "registers \<Rightarrow> u64 list" where
  "reg_list r = [rdi r, rsi r, rbp r, rbx r, rdx r, rcx r, rax r, r8 r, r9 r, r10 r, r11 r, r12 r,
     r13 r, r14 r, r15 r, rip r, cs r, rflags r, rsp r, ss r]"

definition frame_at :: "'a machine_scheme \<Rightarrow> u64 \<Rightarrow> registers \<Rightarrow> bool" where
  "frame_at st sp r \<longleftrightarrow> kregion sp 160 \<and> words (mem st) sp 20 = reg_list r"

lemma popa64_reg_list: "popa64_iretq (reg_list r) = Some r"
  by (simp add: reg_list_def)

lemma save_frame:
  fixes st :: "'a machine_scheme"
  assumes "kregion (sp - 160) 160"
  shows "\<exists>m. do { (sp, st) \<leftarrow> push_list (cpu_frame r) sp st; push_list (pusha64 r) sp st } =
      Some (sp - 160, st\<lparr>mem := m\<rparr>) \<and> frame_at (st\<lparr>mem := m\<rparr>) (sp - 160) r \<and>
    (\<forall>x. \<not> within x (sp - 160) 160 \<longrightarrow> m x = mem st x)"
proof -
  let ?xs = "cpu_frame r @ pusha64 r"
  have len: "length ?xs = 20" and rev: "rev ?xs = reg_list r"
    by (simp_all add: cpu_frame_def pusha64_def reg_list_def)
  have "sp - 160 + 8 * of_nat (length ?xs) = sp" unfolding len by simp
  then show ?thesis
    using push_list_words [of "sp - 160" ?xs st] assms unfolding len rev push_list_append
    by (auto simp: frame_at_def)
qed

lemma restore_frame:
  assumes "frame_at st sp r"
  shows "do { (ws, sp) \<leftarrow> pop_list 20 sp st; popa64_iretq ws } = Some r"
  using assms pop_list_words [of sp 20 st] popa64_reg_list by (simp add: frame_at_def)

section \<open>The ring of processes\<close>

definition pcb_cell :: "u64 \<Rightarrow> u64 \<Rightarrow> bool" where
  "pcb_cell p x \<longleftrightarrow> within x p 32"

definition saved_rsp :: "'a machine_scheme \<Rightarrow> u64 \<Rightarrow> u64" where
  "saved_rsp st p = ldw 8 (mem st) (p + 8)"

definition next_of :: "'a machine_scheme \<Rightarrow> u64 \<Rightarrow> u64" where
  "next_of st p = ldw 8 (mem st) (p + 24)"

text \<open>Following \<open>next\<close> from \<open>p\<close> through \<open>ps\<close> ends at \<open>q\<close>.\<close>

fun path :: "'a machine_scheme \<Rightarrow> u64 \<Rightarrow> u64 list \<Rightarrow> u64 \<Rightarrow> bool" where
  "path st p [] q \<longleftrightarrow> p = q"
| "path st p (x # xs) q \<longleftrightarrow> p = x \<and> path st (next_of st x) xs q"

definition blocks_ok :: "u64 list \<Rightarrow> bool" where
  "blocks_ok ps \<longleftrightarrow> distinct ps \<and> (\<forall>p\<in>set ps. kregion p 32) \<and>
     (\<forall>p\<in>set ps. \<forall>q\<in>set ps. p \<noteq> q \<longrightarrow> (\<forall>x. within x p 32 \<longrightarrow> \<not> within x q 32))"

definition ready :: "'a process_scheme \<Rightarrow> u64 list \<Rightarrow> bool" where
  "ready st ps \<longleftrightarrow> ps \<noteq> [] \<and> blocks_ok ps \<and> current_process st = hd ps \<and>
     path st (hd ps) ps (hd ps)"

lemma path_append: "path st p (xs @ ys) q \<longleftrightarrow> (\<exists>r. path st p xs r \<and> path st r ys q)"
  by (induction xs arbitrary: p) auto

lemma path_cong: "(\<And>x. x \<in> set xs \<Longrightarrow> next_of st' x = next_of st x) \<Longrightarrow> path st' p xs q = path st p xs q"
  by (induction xs arbitrary: p) auto

lemma field:
  assumes "kregion p 32"
  shows "kregion (p + 8) 8" "kregion (p + 24) 8" "kregion (p + 16) 8" "kregion p 4" "p \<noteq> 0"
proof -
  have "kregion (p + of_nat 8) 24" "kregion (p + of_nat 16) 16" "kregion (p + of_nat 24) 8"
    using kregion_offset [OF assms, of 8] kregion_offset [OF assms, of 16]
      kregion_offset [OF assms, of 24] by simp_all
  then show "kregion (p + 8) 8" "kregion (p + 16) 8" "kregion (p + 24) 8"
    by (auto intro: kregion_mono)
  show "kregion p 4" using assms by (rule kregion_mono) simp
  show "p \<noteq> 0" using assms by (auto simp: kregion_def khalf_def)
qed

lemma field_within: "off + k \<le> 32 \<Longrightarrow> within x (p + of_nat off) k \<Longrightarrow> within x p 32"
  using within_offset_iff [of off k x p] by (simp add: within_def)

text \<open>Storing a stack pointer in one control block changes no link and no other block's.\<close>

lemma store_rsp:
  fixes v :: u64
  assumes "st' = st\<lparr>mem := stw 8 (mem st) (p + 8) v\<rparr>"
  shows "saved_rsp st' p = v" "next_of st' p = next_of st p"
    "(\<And>x. within x q 32 \<Longrightarrow> \<not> within x p 32) \<Longrightarrow> saved_rsp st' q = saved_rsp st q"
    "(\<And>x. within x q 32 \<Longrightarrow> \<not> within x p 32) \<Longrightarrow> next_of st' q = next_of st q"
proof -
  have w: "within x (p + 8) 8 \<Longrightarrow> within x p 32" for x using field_within [of 8 8 x p] by simp
  show "saved_rsp st' p = v" by (simp add: assms saved_rsp_def ldw_stw_same)
  show "next_of st' p = next_of st p"
    unfolding next_of_def assms using within_offset_iff [of 8 8 _ p] within_offset_iff [of 24 8 _ p]
    by (simp, intro ldw_stw_other) auto
  show "saved_rsp st' q = saved_rsp st q" if "\<And>x. within x q 32 \<Longrightarrow> \<not> within x p 32"
    unfolding saved_rsp_def assms using that field_within [of 8 8 _ q] w
    by (simp, intro ldw_stw_other) auto
  show "next_of st' q = next_of st q" if "\<And>x. within x q 32 \<Longrightarrow> \<not> within x p 32"
    unfolding next_of_def assms using that field_within [of 24 8 _ q] w
    by (simp, intro ldw_stw_other) auto
qed

lemma rotate_blocks: "blocks_ok (p # ps) = blocks_ok (ps @ [p])"
  by (auto simp: blocks_ok_def)

lemma schedule_rotates:
  fixes st :: "'a process_scheme"
  assumes "ready st (p # ps)"
  shows "\<exists>m. schedule r st = Some (if ps = [] then r else saved_rsp st (hd ps),
      st\<lparr>mem := m, current_process := hd (ps @ [p])\<rparr>) \<and>
    ready (st\<lparr>mem := m, current_process := hd (ps @ [p])\<rparr>) (ps @ [p]) \<and>
    saved_rsp (st\<lparr>mem := m\<rparr>) p = r \<and>
    (\<forall>q\<in>set ps. saved_rsp (st\<lparr>mem := m\<rparr>) q = saved_rsp st q) \<and>
    (\<forall>x. \<not> within x p 32 \<longrightarrow> m x = mem st x)"
proof -
  let ?m = "stw 8 (mem st) (p + 8) r"
  let ?st1 = "st\<lparr>mem := ?m\<rparr>" and ?n = "hd (ps @ [p])"
  let ?st2 = "st\<lparr>mem := ?m, current_process := ?n\<rparr>"
  have ok: "blocks_ok (p # ps)" "current_process st = p" "path st p (p # ps) p"
    using assms by (simp_all add: ready_def)
  have reg: "kregion q 32" if "q \<in> set (p # ps)" for q using ok(1) that unfolding blocks_ok_def by blast
  have apart: "within x q 32 \<Longrightarrow> \<not> within x p 32" if "q \<in> set ps" for q x
    using ok(1) that unfolding blocks_ok_def by (metis distinct.simps(2) list.set_intros)
  note st1 = store_rsp [of ?st1 st p r, OF refl]
  have nxt: "next_of st q = next_of ?st1 q" if "q \<in> set (p # ps)" for q
    using that st1(2) st1(4) [of q] apart by auto
  have first: "next_of st p = ?n" using ok(3) by (cases ps) simp_all
  have nreg: "kregion ?n 32" using reg by (cases ps) simp_all
  have sched: "schedule r st = Some (saved_rsp ?st1 ?n, ?st2)"
    using field [OF reg [of p]] field [OF nreg] ok(2) st1(2) first
    by (simp add: schedule_def kernel_mem saved_rsp_def next_of_def)
  have rsp: "saved_rsp ?st1 ?n = (if ps = [] then r else saved_rsp st (hd ps))"
    using st1(1) st1(3) [of "hd ps"] apart [of "hd ps"] by (cases ps) auto
  have "path st ?n (ps @ [p]) ?n"
    using ok(3) first by (cases ps) (auto simp: path_append)
  moreover have "next_of ?st2 x = next_of st x" if "x \<in> set (ps @ [p])" for x
    using nxt [of x] that by (auto simp: next_of_def)
  ultimately have "path ?st2 ?n (ps @ [p]) ?n" using path_cong [of "ps @ [p]" ?st2 st] by blast
  then have "ready ?st2 (ps @ [p])"
    using ok(1) rotate_blocks [of p ps] by (simp add: ready_def)
  moreover have "?m x = mem st x" if "\<not> within x p 32" for x
    using that field_within [of 8 8 x p] by (intro stw_outside) auto
  ultimately show ?thesis
    using sched rsp st1(1) st1(3) apart by (intro exI [of _ ?m]) auto
qed

section \<open>Switching between processes\<close>

text \<open>
  \<open>paused st qs R\<close>: each process of \<open>qs\<close> has the frame of its registers \<open>R\<close> at its saved stack
  pointer. \<open>stacks_apart\<close>: no frame and no kernel stack in use overlaps a control block or the
  stack of another process.
\<close>

definition paused :: "'a machine_scheme \<Rightarrow> u64 list \<Rightarrow> (u64 \<Rightarrow> registers) \<Rightarrow> bool" where
  "paused st qs R \<longleftrightarrow> (\<forall>q\<in>set qs. frame_at st (saved_rsp st q) (R q))"

definition stacks_apart :: "'a machine_scheme \<Rightarrow> u64 \<Rightarrow> u64 \<Rightarrow> u64 list \<Rightarrow> bool" where
  "stacks_apart st sp p ps \<longleftrightarrow>
     (\<forall>x. within x (sp - 160) 160 \<longrightarrow> (\<forall>q\<in>set (p # ps). \<not> within x q 32)) \<and>
     (\<forall>q\<in>set ps. \<forall>x. within x (saved_rsp st q) 160 \<longrightarrow>
        \<not> within x (sp - 160) 160 \<and> \<not> within x p 32)"

lemma frame_at_cong:
  assumes "\<And>x. within x sp 160 \<Longrightarrow> mem st' x = mem st x"
  shows "frame_at st' sp r = frame_at st sp r"
  using words_cong [of 20 sp "mem st'" "mem st"] assms by (simp add: frame_at_def)

lemma pcb_cong:
  assumes "\<And>x. within x q 32 \<Longrightarrow> mem st' x = mem st x"
  shows "saved_rsp st' q = saved_rsp st q" "next_of st' q = next_of st q"
  unfolding saved_rsp_def next_of_def
  using assms field_within [of 8 8 _ q] field_within [of 24 8 _ q] by (auto intro!: ldw_cong)

lemma ready_cong:
  assumes "current_process st' = current_process st"
    and "\<And>q x. q \<in> set ps \<Longrightarrow> within x q 32 \<Longrightarrow> mem st' x = mem st x"
  shows "ready st' ps = ready st ps"
  using assms pcb_cong(2) [of _ st' st] path_cong [of ps st' st] by (simp add: ready_def)

lemma timer_switch:
  fixes st :: "'a process_scheme"
  assumes ready: "ready st (p # ps)" and paused: "paused st ps R"
    and apart: "stacks_apart st sp p ps" and reg: "kregion (sp - 160) 160"
  shows "\<exists>st'. isr32 r sp st = Some ((R(p := r)) (hd (ps @ [p])), st') \<and>
    ready st' (ps @ [p]) \<and> paused st' (ps @ [p]) (R(p := r)) \<and>
    saved_rsp st' p = sp - 160 \<and> (\<forall>q\<in>set ps. saved_rsp st' q = saved_rsp st q) \<and>
    uptime_ms st' = uptime_ms st + 10 \<and> outlog st' = outlog st @ [(0x20, 0x20)]"
proof -
  obtain m1 where m1: "do { (sp, st) \<leftarrow> push_list (cpu_frame r) sp st; push_list (pusha64 r) sp st } =
        Some (sp - 160, st\<lparr>mem := m1\<rparr>)" "frame_at (st\<lparr>mem := m1\<rparr>) (sp - 160) r"
      "\<forall>x. \<not> within x (sp - 160) 160 \<longrightarrow> m1 x = mem st x"
    using save_frame [OF reg, of r st] by blast
  let ?st1 = "st\<lparr>mem := m1, uptime_ms := uptime_ms st + 10, outlog := outlog st @ [(0x20, 0x20)]\<rparr>"
  have pcb: "mem ?st1 x = mem st x" if "q \<in> set (p # ps)" "within x q 32" for q x
    using apart m1(3) that unfolding stacks_apart_def by fastforce
  then have saved1: "saved_rsp ?st1 q = saved_rsp st q" if "q \<in> set (p # ps)" for q
    using that by (intro pcb_cong) blast
  have "ready ?st1 (p # ps)" using ready_cong [of ?st1 st "p # ps"] ready pcb by simp
  from schedule_rotates [OF this, of "sp - 160"] obtain m where
    m: "schedule (sp - 160) ?st1 = Some (if ps = [] then sp - 160 else saved_rsp ?st1 (hd ps),
        ?st1\<lparr>mem := m, current_process := hd (ps @ [p])\<rparr>)"
      "ready (?st1\<lparr>mem := m, current_process := hd (ps @ [p])\<rparr>) (ps @ [p])"
      "saved_rsp (?st1\<lparr>mem := m\<rparr>) p = sp - 160"
      "\<forall>q\<in>set ps. saved_rsp (?st1\<lparr>mem := m\<rparr>) q = saved_rsp ?st1 q"
      "\<forall>x. \<not> within x p 32 \<longrightarrow> m x = mem ?st1 x" by blast
  let ?st2 = "?st1\<lparr>mem := m, current_process := hd (ps @ [p])\<rparr>"
  have saved2: "saved_rsp ?st2 q = (if q = p then sp - 160 else saved_rsp st q)"
    if "q \<in> set (p # ps)" for q
    using m(3,4) saved1 that by (cases "q = p") (auto simp: saved_rsp_def)
  have new: "frame_at ?st2 (sp - 160) r"
  proof -
    have "frame_at ?st2 (sp - 160) r = frame_at (st\<lparr>mem := m1\<rparr>) (sp - 160) r"
      using apart m(5) by (intro frame_at_cong) (auto simp: stacks_apart_def)
    then show ?thesis using m1(2) by simp
  qed
  have old: "frame_at ?st2 (saved_rsp st q) (R q)" if "q \<in> set ps" for q
  proof -
    have "frame_at ?st2 (saved_rsp st q) (R q) = frame_at st (saved_rsp st q) (R q)"
      using apart m(5) m1(3) that by (intro frame_at_cong) (auto simp: stacks_apart_def)
    then show ?thesis using paused that by (simp add: paused_def)
  qed
  have dist: "p \<notin> set ps" using ready by (simp add: ready_def blocks_ok_def)
  have paused': "paused ?st2 (ps @ [p]) (R(p := r))"
    using new old saved2 dist by (auto simp: paused_def)
  have "(if ps = [] then sp - 160 else saved_rsp ?st1 (hd ps)) = saved_rsp ?st2 (hd (ps @ [p]))"
    using saved1 [of "hd ps"] saved2 [of "hd (ps @ [p])"] dist by (cases ps) auto
  moreover have "frame_at ?st2 (saved_rsp ?st2 (hd (ps @ [p]))) ((R(p := r)) (hd (ps @ [p])))"
    using paused' by (cases ps) (simp_all add: paused_def)
  note restore_frame [OF this]
  ultimately have "isr32 r sp st = Some ((R(p := r)) (hd (ps @ [p])), ?st2)"
    using m1(1) m(1) by (auto simp: isr32_def irq0_handler_def outb_def bind_eq_Some_conv Let_def)
  then show ?thesis using m(2) paused' saved2 dist by (intro exI [of _ ?st2]) auto
qed

section \<open>A round of the scheduler\<close>

fun ticks :: "u64 list \<Rightarrow> 'a process_scheme \<Rightarrow> (u64 list \<times> 'a process_scheme) option" where
  "ticks [] st = Some ([], st)"
| "ticks (r # rs) st =
     do {
       (a, st) \<leftarrow> schedule r st;
       (as, st) \<leftarrow> ticks rs st;
       Some (a # as, st)
     }"

lemma ticks_rotate:
  fixes st :: "'a process_scheme"
  shows "ready st (xs @ ys) \<Longrightarrow> length rs = length xs \<Longrightarrow>
    \<exists>st'. ticks rs st = Some (take (length xs) (map (saved_rsp st) (tl (xs @ ys)) @ [hd rs]), st') \<and>
      ready st' (ys @ xs) \<and> map (saved_rsp st') xs = rs \<and>
      (\<forall>q\<in>set ys. saved_rsp st' q = saved_rsp st q)"
proof (induction xs arbitrary: ys rs st)
  case (Cons p xs)
  then obtain r rs' where rs: "rs = r # rs'" "length rs' = length xs" by (cases rs) auto
  from schedule_rotates [of st p "xs @ ys" r] Cons.prems(1) obtain m where
    m: "schedule r st = Some (if xs @ ys = [] then r else saved_rsp st (hd (xs @ ys)),
        st\<lparr>mem := m, current_process := hd (xs @ ys @ [p])\<rparr>)"
      "ready (st\<lparr>mem := m, current_process := hd (xs @ ys @ [p])\<rparr>) (xs @ ys @ [p])"
      "saved_rsp (st\<lparr>mem := m\<rparr>) p = r"
      "\<forall>q\<in>set (xs @ ys). saved_rsp (st\<lparr>mem := m\<rparr>) q = saved_rsp st q" by auto
  let ?st = "st\<lparr>mem := m, current_process := hd (xs @ ys @ [p])\<rparr>"
  have saved: "saved_rsp ?st q = saved_rsp (st\<lparr>mem := m\<rparr>) q" for q by (simp add: saved_rsp_def)
  from Cons.IH [OF m(2) rs(2)] obtain st' where
    t: "ticks rs' ?st = Some (take (length xs) (map (saved_rsp ?st) (tl (xs @ ys @ [p])) @ [hd rs']), st')"
      "ready st' ((ys @ [p]) @ xs)" "map (saved_rsp st') xs = rs'"
      "\<forall>q\<in>set (ys @ [p]). saved_rsp st' q = saved_rsp ?st q" by blast
  have "(if xs @ ys = [] then r else saved_rsp st (hd (xs @ ys))) #
      take (length xs) (map (saved_rsp ?st) (tl (xs @ ys @ [p])) @ [hd rs']) =
      take (length (p # xs)) (map (saved_rsp st) (tl ((p # xs) @ ys)) @ [hd rs])"
    using m(3,4) saved rs(1) by (cases xs; cases ys) (auto simp: take_Cons')
  then show ?case
    using m(1) t rs saved m(3,4) by (intro exI [of _ st']) auto
qed (simp add: ready_def)

section \<open>Properties\<close>

text \<open>
  C12. The timer interrupt switches processes and loses no register: in a ring of any number of
  processes whose control blocks, saved frames and kernel stack in use are apart
  (\<open>stacks_apart\<close>), the interrupted process ends up paused with all twenty registers it had, the
  next one of the ring continues with exactly the registers it was paused with, every other
  paused process is untouched, the ring moves on by one, and the interrupt is acknowledged.
\<close>

theorem timer_interrupt_switches:
  assumes "ready st (p # ps)" and "paused st ps R" and "stacks_apart st sp p ps"
    and "kregion (sp - 160) 160"
  shows "\<exists>st'. isr32 r sp st = Some ((R(p := r)) (hd (ps @ [p])), st') \<and>
    ready st' (ps @ [p]) \<and> paused st' (ps @ [p]) (R(p := r)) \<and>
    saved_rsp st' p = sp - 160 \<and> (\<forall>q\<in>set ps. saved_rsp st' q = saved_rsp st q) \<and>
    uptime_ms st' = uptime_ms st + 10 \<and> outlog st' = outlog st @ [(0x20, 0x20)]"
  using assms by (rule timer_switch)

definition demo_process :: process where
  "demo_process = \<lparr>mem = stw 8 (\<lambda>_. 0) 0xFFFF900000000018 (0xFFFF900000000000 :: u64), cr3 = 0,
     hhdm_offset = 0xFFFF800000000000, outlog = [], inputs = (\<lambda>_ _. 0xFF), in_pos = (\<lambda>_. 0),
     pmm_bitmap = 0xFFFF800000100000, used_blocks = 0, max_blocks = 64, free_list = 0,
     current_process = 0xFFFF900000000000, process_list = 0xFFFF900000000000,
     uptime_ms = 0, next_pid = 1\<rparr>"

text \<open>
  A ring of two: the first process runs, the second one, whose control block is 4096 bytes
  further, is paused with the frame of \<open>paused_regs\<close> on its stack.
\<close>

definition paused_regs :: registers where
  "paused_regs = \<lparr>rdi = 0, rsi = 0, rbp = 0, rbx = 0, rdx = 0, rcx = 0, rax = 42, r8 = 0, r9 = 0,
     r10 = 0, r11 = 0, r12 = 0, r13 = 0, r14 = 0, r15 = 0, rip = 0x400000, cs = 0, rflags = 0,
     rsp = 0, ss = 0\<rparr>"

definition ring_links :: "u64 \<Rightarrow> u8" where
  "ring_links = stw 8 (stw 8 (stw 8 (\<lambda>_. 0) (0xFFFF900000000000 + of_nat 0x18) (0xFFFF900000001000 :: u64))
     (0xFFFF900000000000 + of_nat 0x1018) (0xFFFF900000000000 :: u64))
     (0xFFFF900000000000 + of_nat 0x1008) (0xFFFF900000007000 :: u64)"

definition demo_ring :: process where
  "demo_ring = demo_process\<lparr>mem := stw 8 (stw 8 ring_links (0xFFFF900000007000 + 8 * of_nat 6) (42 :: u64))
     (0xFFFF900000007000 + 8 * of_nat 15) (0x400000 :: u64)\<rparr>"

lemma ldw_zero: "ldw n (\<lambda>_. 0) a = 0"
  by (rule bit_word_eqI) (simp add: bit_ldw)

lemma ldw_stw_apart:
  assumes "i + 8 \<le> j \<or> j + 8 \<le> i" and "i + 8 \<le> 2 ^ 64" and "j + 8 \<le> 2 ^ 64"
  shows "ldw 8 (stw 8 m (p + of_nat i) v) (p + of_nat j) = ldw 8 m (p + of_nat j)"
proof (rule ldw_stw_other)
  show "\<not> within c (p + of_nat i) 8" if "within c (p + of_nat j) 8" for c
    using that assms within_offset_iff [of i 8 c p] within_offset_iff [of j 8 c p] by auto
qed simp

lemma ring_cells:
  "next_of demo_ring 0xFFFF900000000000 = 0xFFFF900000001000"
  "next_of demo_ring 0xFFFF900000001000 = 0xFFFF900000000000"
  "saved_rsp demo_ring 0xFFFF900000001000 = 0xFFFF900000007000"
proof -
  let ?p = "0xFFFF900000000000 :: u64"
  have frame: "ldw 8 (mem demo_ring) (?p + of_nat j) = ldw 8 ring_links (?p + of_nat j)"
    if "j < 0x2000" for j
    using that
    by (simp add: demo_ring_def ldw_stw_apart [of "0x7030" j _ ?p, simplified]
        ldw_stw_apart [of "0x7078" j _ ?p, simplified])
  note apart = ldw_stw_apart [of "0x1008" "0x18" _ ?p, simplified]
    ldw_stw_apart [of "0x1018" "0x18" _ ?p, simplified]
    ldw_stw_apart [of "0x1008" "0x1018" _ ?p, simplified]
  have "ldw 8 (mem demo_ring) 0xFFFF900000000018 = (0xFFFF900000001000 :: u64)"
    "ldw 8 (mem demo_ring) 0xFFFF900000001018 = (?p :: u64)"
    "ldw 8 (mem demo_ring) 0xFFFF900000001008 = (0xFFFF900000007000 :: u64)"
    by (simp_all add: frame [of "0x18", simplified] frame [of "0x1018", simplified]
        frame [of "0x1008", simplified] ring_links_def apart ldw_stw_same)
  then show "next_of demo_ring 0xFFFF900000000000 = 0xFFFF900000001000"
    "next_of demo_ring 0xFFFF900000001000 = 0xFFFF900000000000"
    "saved_rsp demo_ring 0xFFFF900000001000 = 0xFFFF900000007000"
    by (simp_all add: next_of_def saved_rsp_def)
qed

lemma ring_frame: "frame_at demo_ring 0xFFFF900000007000 paused_regs"
proof -
  let ?p = "0xFFFF900000000000 :: u64" and ?s = "0xFFFF900000007000 :: u64"
  have "words ring_links ?s 20 = words (\<lambda>_. 0) ?s 20"
  proof (rule words_cong)
    fix x assume "within x ?s (8 * 20)"
    then have "0x7000 \<le> unat (x - ?p)" using within_offset_iff [of "0x7000" 160 x ?p] by simp
    then show "ring_links x = 0"
      unfolding ring_links_def
      using within_offset_iff [of "0x18" 8 x ?p] within_offset_iff [of "0x1018" 8 x ?p]
        within_offset_iff [of "0x1008" 8 x ?p] by (simp add: stw_outside)
  qed simp
  moreover have "words (\<lambda>_. 0) ?s 20 = replicate 20 0" by (simp add: words_def ldw_zero map_replicate_const)
  moreover have "words (mem demo_ring) ?s 20 = (words ring_links ?s 20)[6 := 42, 15 := 0x400000]"
    using words_update [of 15 20 "stw 8 ring_links (?s + 8 * of_nat 6) (42 :: u64)" ?s "0x400000"]
      words_update [of 6 20 ring_links ?s 42] by (simp add: demo_ring_def)
  ultimately have "words (mem demo_ring) ?s 20 = reg_list paused_regs"
    by (simp add: reg_list_def paused_regs_def numeral_eq_Suc)
  then show ?thesis by (simp add: frame_at_def kregion_def khalf_def)
qed

lemma demo_ring_ready:
  "ready demo_ring [0xFFFF900000000000, 0xFFFF900000001000]"
  "stacks_apart demo_ring 0xFFFF900000009000 0xFFFF900000000000 [0xFFFF900000001000]"
proof -
  let ?p = "0xFFFF900000000000 :: u64"
  have at: "within x 0xFFFF900000001000 32 \<longleftrightarrow> 0x1000 \<le> unat (x - ?p) \<and> unat (x - ?p) < 0x1020"
    "within x 0xFFFF900000007000 160 \<longleftrightarrow> 0x7000 \<le> unat (x - ?p) \<and> unat (x - ?p) < 0x70A0"
    "within x 0xFFFF900000008F60 160 \<longleftrightarrow> 0x8F60 \<le> unat (x - ?p) \<and> unat (x - ?p) < 0x9000"
    "within x ?p 32 \<longleftrightarrow> unat (x - ?p) < 0x20" for x
    using within_offset_iff [of "0x1000" 32 x ?p] within_offset_iff [of "0x7000" 160 x ?p]
      within_offset_iff [of "0x8F60" 160 x ?p] by (simp_all add: within_def)
  have "kregion ?p 32" "kregion 0xFFFF900000001000 32" by (simp_all add: kregion_def khalf_def)
  moreover have "current_process demo_ring = ?p" by (simp add: demo_ring_def demo_process_def)
  ultimately show "ready demo_ring [?p, 0xFFFF900000001000]"
    by (auto simp: ready_def blocks_ok_def ring_cells at)
  show "stacks_apart demo_ring 0xFFFF900000009000 ?p [0xFFFF900000001000]"
    by (auto simp: stacks_apart_def ring_cells at)
qed

theorem timer_interrupt_switches_witness:
  "\<forall>r. \<exists>st'. isr32 r 0xFFFF900000009000 demo_ring = Some (paused_regs, st') \<and>
     current_process st' = 0xFFFF900000001000 \<and> frame_at st' (0xFFFF900000009000 - 160) r"
proof
  fix r
  let ?p = "0xFFFF900000000000 :: u64" and ?q = "0xFFFF900000001000 :: u64"
  have "paused demo_ring [?q] (\<lambda>_. paused_regs)" using ring_frame by (simp add: paused_def ring_cells)
  moreover have "kregion (0xFFFF900000009000 - 160) 160" by (simp add: kregion_def khalf_def)
  ultimately obtain st' where st': "isr32 r 0xFFFF900000009000 demo_ring = Some (paused_regs, st')"
      "ready st' [?q, ?p]" "paused st' [?q, ?p] ((\<lambda>_. paused_regs)(?p := r))"
      "saved_rsp st' ?p = 0xFFFF900000009000 - 160"
    using timer_interrupt_switches [OF demo_ring_ready(1) _ demo_ring_ready(2), of "\<lambda>_. paused_regs" r]
    by auto
  have "current_process st' = ?q" using st'(2) by (simp add: ready_def)
  moreover have "frame_at st' (saved_rsp st' ?p) r" using st'(3) by (simp add: paused_def)
  ultimately show "\<exists>st'. isr32 r 0xFFFF900000009000 demo_ring = Some (paused_regs, st') \<and>
      current_process st' = ?q \<and> frame_at st' (0xFFFF900000009000 - 160) r"
    using st'(1,4) by (intro exI [of _ st']) (simp only: simp_thms)
qed

text \<open>
  C23. The scheduler is a fair round robin: in as many ticks as there are processes, each of
  them is resumed exactly once and with the stack pointer it saved last, and the ring is back
  where it was with the stack pointers of this round saved.
\<close>

theorem schedule_round_robin:
  assumes "ready st ps" and "length rs = length ps"
  shows "\<exists>st'. ticks rs st = Some (map (saved_rsp st) (tl ps) @ [hd rs], st') \<and>
    ready st' ps \<and> map (saved_rsp st') ps = rs"
proof -
  have "ps \<noteq> []" using assms(1) by (simp add: ready_def)
  then have "take (length ps) (map (saved_rsp st) (tl ps) @ [hd rs]) = map (saved_rsp st) (tl ps) @ [hd rs]"
    by (cases ps) simp_all
  then show ?thesis using ticks_rotate [of st ps "[]" rs] assms by auto
qed

theorem schedule_round_robin_witness:
  "\<exists>st'. ticks [0xFFFF900000008F60, 0xFFFF900000006000] demo_ring =
      Some ([0xFFFF900000007000, 0xFFFF900000008F60], st') \<and>
    saved_rsp st' 0xFFFF900000000000 = 0xFFFF900000008F60 \<and>
    saved_rsp st' 0xFFFF900000001000 = 0xFFFF900000006000"
  using schedule_round_robin [OF demo_ring_ready(1), of "[0xFFFF900000008F60, 0xFFFF900000006000]"]
  by (auto simp: ring_cells)

section \<open>New threads\<close>

text \<open>The registers a new thread would start with, if its frame could be written.\<close>

definition thread_registers :: "u64 \<Rightarrow> u64 \<Rightarrow> registers" where
  "thread_registers function stack_phys =
     \<lparr>rdi = 0, rsi = 0, rbp = 0, rbx = 0, rdx = 0, rcx = 0, rax = 0, r8 = 0, r9 = 0, r10 = 0,
      r11 = 0, r12 = 0, r13 = 0, r14 = 0, r15 = 0, rip = function, cs = 0x08, rflags = 0x202,
      rsp = stack_phys + 4096, ss = 0x10\<rparr>"

lemma thread_frame_registers:
  "rev (thread_frame function stack_phys) = reg_list (thread_registers function stack_phys)"
  by (simp add: thread_frame_def thread_registers_def reg_list_def)

lemma st64_unmapped:
  "\<not> khalf a \<Longrightarrow> walk st a = None \<Longrightarrow> st64 st a v = None"
  by (simp add: st64_def stn.simps numeral_eq_Suc st8_def resolve_def)

lemma stack_top:
  assumes "aligned phys" and "unat phys < 2 ^ 46"
  shows "(phys + 4096) AND NOT 0xF = phys + 4096" "\<not> khalf (phys + 4088)"
proof -
  obtain i where i: "unat phys = 4096 * i" using aligned_unat [OF assms(1)] by blast
  have u: "unat (phys + 4096) = 4096 * (i + 1)" "unat (phys + 4088) = unat phys + 4088"
    using assms(2) i by (subst unat_add_lem [THEN iffD1]; simp)+
  have "(phys + 4096) AND 0xF = take_bit 4 (phys + 4096)"
    by (simp add: take_bit_eq_mask mask_eq_exp_minus_1)
  also have "\<dots> = 0"
  proof -
    have "unat ((phys + 4096) mod 16) = 4096 * (i + 1) mod 16" unfolding unat_mod u(1) by simp
    also have "\<dots> = 16 * (256 * (i + 1)) mod 16" by (simp only: mult.assoc [symmetric]) simp
    also have "\<dots> = 0" by (rule mod_mult_self1_is_0)
    finally have "(phys + 4096) mod 16 = 0" by (simp only: unat_eq_0)
    then show ?thesis by (simp only: take_bit_eq_mod) simp
  qed
  finally have low: "(phys + 4096) AND 0xF = 0" .
  have "phys + 4096 = ((phys + 4096) AND 0xF) OR ((phys + 4096) AND NOT 0xF)"
    by (metis bit.conj_disj_distrib bit.disj_cancel_right and.right_neutral)
  then show "(phys + 4096) AND NOT 0xF = phys + 4096" using low by simp
  show "\<not> khalf (phys + 4088)" using assms(2) by (simp add: khalf_unat u(2))
qed

text \<open>
  C38. \<open>create_kernel_thread\<close> writes the initial frame through the physical address of the new
  stack, without the offset of the direct map: whenever that address is not mapped in the
  lower half, as after \<open>vmm_initialize\<close>, the first store faults and the call never returns.
\<close>

theorem create_kernel_thread_faults:
  assumes "new_task_link st = Some (t, st1)" and "pmm_alloc_block st1 = Some (phys, st2)"
    and "aligned phys" and "unat phys < 2 ^ 46" and "walk st2 (phys + 4088) = None"
  shows "create_kernel_thread function st = None"
proof -
  note top = stack_top [OF assms(3,4)]
  have "st64 st2 (phys + 4088) 0x10 = None" using top(2) assms(5) by (rule st64_unmapped)
  then have "push_list (thread_frame function phys) (phys + 4096) st2 = None"
    by (simp add: thread_frame_def diff_conv_add_uminus add.assoc del: add_uminus_conv_diff)
  then show ?thesis using assms(1,2) top(1) by (simp add: create_kernel_thread_def)
qed

text \<open>A machine with an empty heap, 64 frames, no page mapped, and one control block.\<close>

definition demo_thread :: process where
  "demo_thread = demo_process\<lparr>free_list := 0xFFFF910000000000,
     mem := stw 8 (stw 4 (stw 8 (\<lambda>_. 0) (0xFFFF910000000000 + 8) (4096 :: u64))
       (0xFFFF910000000000 + 16) (1 :: u32)) 0xFFFF910000000000 (0 :: u64)\<rparr>"

lemma demo_thread_simps:
  "free_list demo_thread = 0xFFFF910000000000" "pmm_bitmap demo_thread = 0xFFFF800000100000"
  "max_blocks demo_thread = 64" "cr3 demo_thread = 0" "hhdm_offset demo_thread = 0xFFFF800000000000"
  "current_process demo_thread = 0xFFFF900000000000"
  "process_list demo_thread = 0xFFFF900000000000" "tx_live demo_thread"
  by (simp_all add: demo_thread_def demo_process_def)

lemma one_block:
  "heap_at (stw 8 (stw 4 (stw 8 m (a + 8) (of_nat n :: u64)) (a + 16) (1 :: u32)) a (0 :: u64)) a
     [(n, True)]"
  by (simp add: header_stores)

lemma demo_thread_heap: "heap demo_thread [(4096, True)]"
  using one_block [of "\<lambda>_. 0" "0xFFFF910000000000" 4096]
  by (simp add: heap_def demo_thread_def kregion_def khalf_def del: heap_at.simps)

lemma far_from: "x = 0xFFFF800000000000 \<Longrightarrow> 0xFFFF800000000008 \<le> p \<Longrightarrow> p \<le> 0xFFFFFFFF00000000 \<Longrightarrow>
    \<not> within x p 4096" for x p :: u64
proof
  assume x: "x = 0xFFFF800000000000" and p: "0xFFFF800000000008 \<le> p" "p \<le> 0xFFFFFFFF00000000"
    and "within x p 4096"
  then obtain i where i: "i < 4096" "x = p + of_nat i" by (auto elim: withinE)
  have "unat (p + of_nat i) = unat p + i"
    using p i(1) by (subst unat_add_lem [THEN iffD1]) (simp_all add: word_le_nat_alt unat_of_nat64)
  then have "unat x = unat p + i" using i(2) by simp
  then show False using x p(1) by (simp add: word_le_nat_alt)
qed

lemma far_stw:
  fixes v :: "'w::len word"
  assumes "0xFFFF800000000008 \<le> p" and "p \<le> 0xFFFFFFFF00000000" and "n \<le> 4096"
  shows "stw n m p v 0xFFFF800000000000 = m 0xFFFF800000000000"
  using assms far_from [OF refl assms(1,2)] within_mono [OF _ assms(3)] by (intro stw_outside) auto

lemma demo_thread_linked:
  "\<exists>t st1. new_task_link demo_thread = Some (t, st1) \<and> mem st1 0xFFFF800000000000 = 0 \<and>
     pmm_wf st1 \<and> max_blocks st1 = 64 \<and> pmm_bitmap st1 = 0xFFFF800000100000 \<and> cr3 st1 = 0 \<and>
     hhdm_offset st1 = 0xFFFF800000000000"
proof -
  obtain m where m: "kmalloc 32 demo_thread = Some (0xFFFF910000000018, demo_thread\<lparr>mem := m\<rparr>)"
      "\<forall>x. \<not> hdr [(56, False), (4040, True)] (unat (x - 0xFFFF910000000000)) \<longrightarrow> m x = mem demo_thread x"
    using kmalloc_ok [OF demo_thread_heap, of 32] by (auto simp: demo_thread_simps)
  have "\<not> hdr [(56, False), (4040, True)] (unat (0xFFFF800000000000 - 0xFFFF910000000000 :: u64))"
    by simp
  then have "m 0xFFFF800000000000 = mem demo_thread 0xFFFF800000000000" using m(2) by blast
  also have "\<dots> = 0" by (simp add: demo_thread_def far_stw)
  finally have m0: "m 0xFFFF800000000000 = 0" .
  have k: "kregion 0xFFFF910000000018 4" "kregion 0xFFFF910000000028 8" "kregion 0xFFFF910000000030 8"
    "kregion 0xFFFF900000000010 8" "kregion 0xFFFF900000000018 8"
    by (simp_all add: kregion_def khalf_def)
  have "kregion 0xFFFF800000100000 (bitmap_bytes demo_thread)"
    by (simp add: bitmap_bytes_def demo_thread_simps kregion_def khalf_def)
  then show ?thesis
    using m(1) k m0 demo_thread_simps
    by (simp add: new_task_link_def kernel_mem far_stw pmm_wf_def bitmap_bytes_def tx_live_def Let_def)
qed

lemma alloc_frame_small:
  fixes st :: "'a pmm_scheme"
  assumes "pmm_wf st" and "max_blocks st = 64"
  shows "\<exists>i st'. pmm_alloc_block st = Some (block_addr i, st') \<and> i < 64 \<and> cr3 st' = cr3 st \<and>
    hhdm_offset st' = hhdm_offset st \<and>
    (\<forall>x. \<not> within x (pmm_bitmap st) 8 \<longrightarrow> mem st' x = mem st x)"
proof (cases "free_blocks st = {}")
  case True
  then obtain st' out where "pmm_alloc_block st = Some (0, st')" "printed out st st'"
    using alloc_loop_none [OF assms(1), of 0] by (auto simp: pmm_alloc_block_def)
  then show ?thesis
    by (intro exI [of _ 0] exI [of _ st']) (simp add: block_addr_def printed_frame)
next
  case False
  let ?i = "Min (free_blocks st)"
  have "?i \<in> free_blocks st" using False by (intro Min_in) simp_all
  then have "?i < 64" using assms(2) by (simp add: free_blocks_def)
  moreover from this have "?i div 8 < 8" "?i < 2 ^ 64" by simp_all
  ultimately show ?thesis
    using pmm_alloc_lowest [OF assms(1) False]
    by (auto simp: block_addr_def mark_def put_bit_outside)
qed

theorem create_kernel_thread_faults_witness:
  "\<exists>t st1. new_task_link demo_thread = Some (t, st1) \<and>
     create_kernel_thread 0xFFFFFFFF80000000 demo_thread = None"
proof -
  obtain t st1 where 1: "new_task_link demo_thread = Some (t, st1)" "mem st1 0xFFFF800000000000 = 0"
      "pmm_wf st1" "max_blocks st1 = 64" "pmm_bitmap st1 = 0xFFFF800000100000" "cr3 st1 = 0"
      "hhdm_offset st1 = 0xFFFF800000000000" using demo_thread_linked by blast
  obtain i st2 where 2: "pmm_alloc_block st1 = Some (block_addr i, st2)" "i < 64" "cr3 st2 = 0"
      "hhdm_offset st2 = 0xFFFF800000000000"
      "\<forall>x. \<not> within x 0xFFFF800000100000 8 \<longrightarrow> mem st2 x = mem st1 x"
    using alloc_frame_small [OF 1(3,4)] 1(5-7) by auto
  have "\<not> within 0xFFFF800000000000 0xFFFF800000100000 8" by (simp add: within_def)
  then have "mem st2 0xFFFF800000000000 = 0" using 1(2) 2(5) by simp
  then have np: "\<not> present (entry_at (mem st2) 0xFFFF800000000000 0 0)"
    by (simp add: entry_at_def entry_addr_def bit_ldw)
  have u: "unat (block_addr i) = 4096 * i" using 2(2) by (intro unat_block_addr) simp
  then have "unat (block_addr i + 4088) < 2 ^ 39"
    using 2(2) by (subst unat_add_lem [THEN iffD1]) simp_all
  then have "drop_bit 39 (block_addr i + 4088) = 0"
    by (simp add: drop_bit_eq_div word_unat_eq_iff unat_div)
  then have "page_index 39 (block_addr i + 4088) = 0" by (simp add: page_index_def)
  then have "walk st2 (block_addr i + 4088) = None"
    using np 2(3,4) by (simp add: walk_def va_path_def Let_def)
  then show ?thesis
    using create_kernel_thread_faults [OF 1(1) 2(1)] u 2(2) 1(1) by simp
qed

end
