(* ===== verification/Segments.thy ===== *)
theory Segments
  imports Process
begin

text \<open>
  The segment descriptors (kernel/arch/x86_64/gdt.c, gdt_flush.S) and the task state segment
  (tss.c, tss_flush.S) with their structures (include/kernel/gdt.h, tss.h). The addresses the
  linker chooses are a parameter, a record of type \<open>symbols\<close>. \<open>pack_gdt\<close> is the packed layout
  of a descriptor and \<open>seg_base\<close>, \<open>seg_limit\<close>, \<open>seg_access\<close>, \<open>seg_flags\<close> are how the processor
  reads it; the lemmas show that what \<open>gdt_set_gate\<close> was given is what the processor finds.
\<close>

unbundle bit_operations_syntax

section \<open>gdt.h and tss.h\<close>

record gdt_entry =
  limit_low :: u16
  base_low :: u16
  base_middle :: u8
  access :: u8
  granularity :: u8
  base_high :: u8

record gdt_ptr =
  gp_limit :: u16
  gp_base :: u64

text \<open>104 bytes, packed.\<close>

record tss_entry_struct =
  reserved0 :: u32
  rsp0 :: u64
  rsp1 :: u64
  rsp2 :: u64
  reserved1 :: u64
  ist :: "u64 list"
  reserved2 :: u64
  reserved3 :: u16
  iopb_offset :: u16

definition zero_tss :: tss_entry_struct where
  "zero_tss = \<lparr>reserved0 = 0, rsp0 = 0, rsp1 = 0, rsp2 = 0, reserved1 = 0, ist = replicate 7 0,
     reserved2 = 0, reserved3 = 0, iopb_offset = 0\<rparr>"

definition zero_gdt_entry :: gdt_entry where
  "zero_gdt_entry = \<lparr>limit_low = 0, base_low = 0, base_middle = 0, access = 0, granularity = 0,
     base_high = 0\<rparr>"

text \<open>
  \<open>gdtr\<close>, the selectors \<open>cs_sel\<close> and \<open>ds_sel\<close> (for ds, es, fs, gs and ss) and \<open>tr_sel\<close> are
  registers of the processor.
\<close>

record segments = process +
  gdt :: "gdt_entry list"
  tss_entry :: tss_entry_struct
  gdtr :: gdt_ptr
  cs_sel :: u16
  ds_sel :: u16
  tr_sel :: u16

record symbols =
  gdt_sym :: u64
  tss_entry_sym :: u64
  tss_kernel_stack_sym :: u64
  idt_sym :: u64
  isr0_sym :: u64
  isr13_sym :: u64
  isr14_sym :: u64
  isr32_sym :: u64
  isr33_sym :: u64
  isr128_sym :: u64

section \<open>gdt.c and tss.c\<close>

text \<open>An index outside the array of seven entries has no meaning in C.\<close>

definition gdt_set_gate ::
  "u32 \<Rightarrow> u64 \<Rightarrow> u32 \<Rightarrow> u8 \<Rightarrow> u8 \<Rightarrow> 'a segments_scheme \<Rightarrow> 'a segments_scheme option" where
  "gdt_set_gate num base limit acc gran st =
     (if unat num < 7 then
        let e = gdt st ! unat num;
            e = e\<lparr>base_low := ucast (base AND 0xFFFF)\<rparr>;
            e = e\<lparr>base_middle := ucast (drop_bit 16 base AND 0xFF)\<rparr>;
            e = e\<lparr>base_high := ucast (drop_bit 24 base AND 0xFF)\<rparr>;
            e = e\<lparr>limit_low := ucast (limit AND 0xFFFF)\<rparr>;
            e = e\<lparr>granularity := ucast (drop_bit 16 limit AND 0x0F)\<rparr>;
            e = e\<lparr>granularity := granularity e OR (gran AND 0xF0)\<rparr>;
            e = e\<lparr>access := acc\<rparr>
        in Some (st\<lparr>gdt := (gdt st)[unat num := e]\<rparr>)
      else None)"

definition gdt_flush :: "gdt_ptr \<Rightarrow> 'a segments_scheme \<Rightarrow> 'a segments_scheme" where
  "gdt_flush gp st = st\<lparr>gdtr := gp, ds_sel := 0x10, cs_sel := 0x08\<rparr>"

definition tss_flush :: "'a segments_scheme \<Rightarrow> 'a segments_scheme" where
  "tss_flush st = st\<lparr>tr_sel := 0x28\<rparr>"

definition tss_install ::
  "symbols \<Rightarrow> u32 \<Rightarrow> u16 \<Rightarrow> u64 \<Rightarrow> 'a segments_scheme \<Rightarrow> 'a segments_scheme option" where
  "tss_install sy gdt_idx kernel_ss kernel_rsp st =
     do {
       let base = tss_entry_sym sy;
       let limit = 104;
       st \<leftarrow> gdt_set_gate gdt_idx base limit 0x89 0x00 st;
       let base_upper = drop_bit 32 base;
       st \<leftarrow> (if unat (gdt_idx + 1) < 7 then
                Some (st\<lparr>gdt := (gdt st)[unat (gdt_idx + 1) :=
                  \<lparr>limit_low = ucast (base_upper AND 0xFFFF),
                   base_low = ucast (drop_bit 16 base_upper AND 0xFFFF),
                   base_middle = 0, access = 0, granularity = 0, base_high = 0\<rparr>]\<rparr>)
              else None);
       let st = st\<lparr>tss_entry := zero_tss\<rparr>;
       let st = st\<lparr>tss_entry := (tss_entry st)\<lparr>rsp0 := kernel_rsp\<rparr>\<rparr>;
       let st = st\<lparr>tss_entry := (tss_entry st)\<lparr>iopb_offset := 104\<rparr>\<rparr>;
       Some (tss_flush st)
     }"

definition tss_set_stack :: "u16 \<Rightarrow> u64 \<Rightarrow> 'a segments_scheme \<Rightarrow> 'a segments_scheme" where
  "tss_set_stack kernel_ss kernel_rsp st = st\<lparr>tss_entry := (tss_entry st)\<lparr>rsp0 := kernel_rsp\<rparr>\<rparr>"

definition gdt_initialize :: "symbols \<Rightarrow> 'a segments_scheme \<Rightarrow> 'a segments_scheme option" where
  "gdt_initialize sy st =
     do {
       let gp = \<lparr>gp_limit = 8 * 7 - 1, gp_base = gdt_sym sy\<rparr>;
       st \<leftarrow> gdt_set_gate 0 0 0 0 0 st;
       st \<leftarrow> gdt_set_gate 1 0 0xFFFFFFFF 0x9A 0xAF st;
       st \<leftarrow> gdt_set_gate 2 0 0xFFFFFFFF 0x92 0xCF st;
       st \<leftarrow> gdt_set_gate 3 0 0xFFFFFFFF 0xFA 0xAF st;
       st \<leftarrow> gdt_set_gate 4 0 0xFFFFFFFF 0xF2 0xCF st;
       let st = gdt_flush gp st;
       tss_install sy 5 0x10 (tss_kernel_stack_sym sy + 4096) st
     }"

section \<open>How the processor reads a descriptor\<close>

text \<open>The eight bytes of the packed structure as one little-endian word.\<close>

definition pack_gdt :: "gdt_entry \<Rightarrow> u64" where
  "pack_gdt e = ucast (limit_low e) OR push_bit 16 (ucast (base_low e)) OR
     push_bit 32 (ucast (base_middle e)) OR push_bit 40 (ucast (access e)) OR
     push_bit 48 (ucast (granularity e)) OR push_bit 56 (ucast (base_high e))"

definition seg_base :: "u64 \<Rightarrow> u64" where
  "seg_base d = take_bit 24 (drop_bit 16 d) OR push_bit 24 (drop_bit 56 d)"

definition seg_limit :: "u64 \<Rightarrow> u32" where
  "seg_limit d = take_bit 16 (ucast d) OR push_bit 16 (take_bit 4 (ucast (drop_bit 48 d)))"

definition seg_access :: "u64 \<Rightarrow> u8" where
  "seg_access d = ucast (drop_bit 40 d)"

definition seg_flags :: "u64 \<Rightarrow> u8" where
  "seg_flags d = ucast (take_bit 4 (drop_bit 52 d))"

lemma low_masks:
  "(0xF :: 'a::len word) = mask 4" "(0xFF :: 'a word) = mask 8" "(0xFFFF :: 'a word) = mask 16"
  "(0xFFFFF :: 'a word) = mask 20" "(0xFFFFFFFF :: 'a word) = mask 32"
  by (simp_all add: mask_eq_exp_minus_1)

lemma high_nibble: "(0xF0 :: u8) = push_bit 4 (mask 4)"
  by (simp add: mask_eq_exp_minus_1)

text \<open>The descriptor that \<open>gdt_set_gate\<close> leaves in the table.\<close>

definition gate_entry :: "u64 \<Rightarrow> u32 \<Rightarrow> u8 \<Rightarrow> u8 \<Rightarrow> gdt_entry" where
  "gate_entry base limit acc gran =
     \<lparr>limit_low = ucast limit, base_low = ucast base, base_middle = ucast (drop_bit 16 base),
      access = acc, granularity = ucast (take_bit 4 (drop_bit 16 limit)) OR (gran AND 0xF0),
      base_high = ucast (drop_bit 24 base)\<rparr>"

lemma gdt_set_gate_eq:
  "unat num < 7 \<Longrightarrow> gdt_set_gate num base limit acc gran st =
     Some (st\<lparr>gdt := (gdt st)[unat num := gate_entry base limit acc gran]\<rparr>)"
proof -
  have "ucast (base AND 0xFFFF) = (ucast base :: u16)"
    "ucast (drop_bit 16 base AND 0xFF) = (ucast (drop_bit 16 base) :: u8)"
    "ucast (drop_bit 24 base AND 0xFF) = (ucast (drop_bit 24 base) :: u8)"
    "ucast (limit AND 0xFFFF) = (ucast limit :: u16)"
    "(ucast (drop_bit 16 limit AND 0x0F) :: u8) = ucast (take_bit 4 (drop_bit 16 limit))"
    unfolding low_masks by (rule bit_word_eqI; auto simp: bit_simps)+
  moreover assume "unat num < 7"
  ultimately show ?thesis
    by (cases "gdt st ! unat num") (simp add: gdt_set_gate_def gate_entry_def Let_def)
qed

lemma bit_above: "LENGTH('a) \<le> n \<Longrightarrow> \<not> bit (w :: 'a::len word) n"
  using bit_imp_le_length [of w n] by auto

lemma bit_pack_gdt:
  "bit (pack_gdt e) n \<longleftrightarrow> n < 64 \<and> (if n < 16 then bit (limit_low e) n
     else if n < 32 then bit (base_low e) (n - 16)
     else if n < 40 then bit (base_middle e) (n - 32)
     else if n < 48 then bit (access e) (n - 40)
     else if n < 56 then bit (granularity e) (n - 48) else bit (base_high e) (n - 56))"
proof -
  consider "n < 16" | "16 \<le> n" "n < 32" | "32 \<le> n" "n < 40" | "40 \<le> n" "n < 48"
    | "48 \<le> n" "n < 56" | "56 \<le> n" by linarith
  then show ?thesis
    by cases (simp_all add: pack_gdt_def bit_simps bit_above, auto)
qed

lemma seg_gate:
  defines "d base limit acc gran \<equiv> pack_gdt (gate_entry base limit acc gran)"
  shows "seg_base (d base limit acc gran) = take_bit 32 base"
    and "seg_limit (d base limit acc gran) = take_bit 20 limit"
    and "seg_access (d base limit acc gran) = acc"
    and "seg_flags (d base limit acc gran) = drop_bit 4 gran"
proof -
  show "seg_access (d base limit acc gran) = acc"
    by (rule bit_word_eqI)
      (simp add: d_def seg_access_def gate_entry_def bit_simps bit_pack_gdt)
  show "seg_flags (d base limit acc gran) = drop_bit 4 gran"
    by (rule bit_word_eqI) (auto simp: d_def seg_flags_def gate_entry_def high_nibble bit_simps
      bit_pack_gdt bit_above)
  show "seg_base (d base limit acc gran) = take_bit 32 base"
    by (rule bit_word_eqI) (auto simp: d_def seg_base_def gate_entry_def bit_simps bit_pack_gdt)
  show "seg_limit (d base limit acc gran) = take_bit 20 limit"
    by (rule bit_word_eqI) (auto simp: d_def seg_limit_def gate_entry_def high_nibble bit_simps
      bit_pack_gdt)
qed

text \<open>
  A selector names entry \<open>sel div 8\<close> of the table that gdtr points to, if that is within its
  limit. \<open>code64\<close> and \<open>data_seg\<close> are the two kinds of descriptor a 64-bit system uses: present,
  no system descriptor, executable with the long-mode bit, or writable data.
\<close>

definition descriptor :: "symbols \<Rightarrow> 'a segments_scheme \<Rightarrow> u16 \<Rightarrow> u64 option" where
  "descriptor sy st sel =
     (let i = unat sel div 8 in
      if gp_base (gdtr st) = gdt_sym sy \<and> 8 * i + 7 \<le> unat (gp_limit (gdtr st)) \<and>
        i < List.length (gdt st)
      then Some (pack_gdt (gdt st ! i)) else None)"

definition seg_dpl :: "u64 \<Rightarrow> nat" where
  "seg_dpl d = unat (take_bit 2 (drop_bit 5 (seg_access d)))"

definition code64 :: "u64 \<Rightarrow> bool" where
  "code64 d \<longleftrightarrow> bit (seg_access d) 7 \<and> bit (seg_access d) 4 \<and> bit (seg_access d) 3 \<and>
     bit (seg_flags d) 1 \<and> \<not> bit (seg_flags d) 2"

definition data_seg :: "u64 \<Rightarrow> bool" where
  "data_seg d \<longleftrightarrow> bit (seg_access d) 7 \<and> bit (seg_access d) 4 \<and> \<not> bit (seg_access d) 3 \<and>
     bit (seg_access d) 1"

definition code_sel :: "symbols \<Rightarrow> 'a segments_scheme \<Rightarrow> u16 \<Rightarrow> nat \<Rightarrow> bool" where
  "code_sel sy st sel ring \<longleftrightarrow>
     (case descriptor sy st sel of None \<Rightarrow> False | Some d \<Rightarrow> code64 d \<and> seg_dpl d = ring)"

definition data_sel :: "symbols \<Rightarrow> 'a segments_scheme \<Rightarrow> u16 \<Rightarrow> nat \<Rightarrow> bool" where
  "data_sel sy st sel ring \<longleftrightarrow>
     (case descriptor sy st sel of None \<Rightarrow> False | Some d \<Rightarrow> data_seg d \<and> seg_dpl d = ring)"

text \<open>
  The task register names a descriptor of two entries; its type is 9 (available 64-bit TSS) and
  bits 32 to 63 of the base are in the second entry. The kernel's stack pointer for an entry
  from ring 3 is the field \<open>rsp0\<close> of the state segment there.
\<close>

definition task_base :: "symbols \<Rightarrow> 'a segments_scheme \<Rightarrow> u64 option" where
  "task_base sy st =
     do {
       lo \<leftarrow> descriptor sy st (tr_sel st);
       hi \<leftarrow> descriptor sy st (tr_sel st + 8);
       if seg_access lo = 0x89 then Some (seg_base lo OR push_bit 32 (take_bit 32 hi)) else None
     }"

definition ring0_stack :: "symbols \<Rightarrow> 'a segments_scheme \<Rightarrow> u64 option" where
  "ring0_stack sy st =
     (if task_base sy st = Some (tss_entry_sym sy) then Some (rsp0 (tss_entry st)) else None)"

section \<open>The table that gdt_initialize builds\<close>

definition tss_high :: "u64 \<Rightarrow> gdt_entry" where
  "tss_high base = zero_gdt_entry\<lparr>limit_low := ucast (drop_bit 32 base AND 0xFFFF),
     base_low := ucast (drop_bit 16 (drop_bit 32 base) AND 0xFFFF)\<rparr>"

lemma tss_base_joined:
  "take_bit 32 base OR push_bit 32 (take_bit 32 (pack_gdt (tss_high base))) = base"
proof (rule bit_word_eqI)
  fix n
  assume "n < LENGTH(64)"
  moreover have "32 + (n - 32) = n" if "\<not> n < 32" using that by simp
  ultimately show "bit (take_bit 32 base OR push_bit 32 (take_bit 32 (pack_gdt (tss_high base)))) n =
      bit base n"
    by (cases "n < 32")
      (auto simp: bit_simps bit_pack_gdt tss_high_def zero_gdt_entry_def low_masks)
qed

definition kernel_gdt :: "symbols \<Rightarrow> gdt_entry list" where
  "kernel_gdt sy =
     [gate_entry 0 0 0 0, gate_entry 0 0xFFFFFFFF 0x9A 0xAF, gate_entry 0 0xFFFFFFFF 0x92 0xCF,
      gate_entry 0 0xFFFFFFFF 0xFA 0xAF, gate_entry 0 0xFFFFFFFF 0xF2 0xCF,
      gate_entry (tss_entry_sym sy) 104 0x89 0x00, tss_high (tss_entry_sym sy)]"

lemma tss_install_eq:
  assumes "unat gdt_idx < 6"
  shows "tss_install sy gdt_idx kss sp st = Some (st\<lparr>
    gdt := (gdt st)[unat gdt_idx := gate_entry (tss_entry_sym sy) 104 0x89 0x00,
      Suc (unat gdt_idx) := tss_high (tss_entry_sym sy)],
    tss_entry := zero_tss\<lparr>rsp0 := sp, iopb_offset := 104\<rparr>, tr_sel := 0x28\<rparr>)"
proof -
  have "unat (gdt_idx + 1) = Suc (unat gdt_idx)"
    using assms by (subst unat_add_lem [THEN iffD1]) simp_all
  then show ?thesis
    using assms by (simp add: tss_install_def gdt_set_gate_eq tss_flush_def Let_def tss_high_def
      zero_gdt_entry_def zero_tss_def)
qed

lemma gdt_initialize_eq:
  assumes "List.length (gdt st) = 7"
  shows "gdt_initialize sy st = Some (st\<lparr>gdt := kernel_gdt sy,
    tss_entry := zero_tss\<lparr>rsp0 := tss_kernel_stack_sym sy + 4096, iopb_offset := 104\<rparr>,
    gdtr := \<lparr>gp_limit = 55, gp_base = gdt_sym sy\<rparr>, cs_sel := 0x08, ds_sel := 0x10,
    tr_sel := 0x28\<rparr>)"
proof -
  obtain a b c d e f g where "gdt st = [a, b, c, d, e, f, g]"
    using assms by (auto simp: length_Suc_conv eval_nat_numeral)
  then show ?thesis
    by (simp add: gdt_initialize_def gdt_set_gate_eq tss_install_eq gdt_flush_def Let_def
      kernel_gdt_def)
qed

lemma kernel_gdt_lookup:
  "kernel_gdt sy ! 1 = gate_entry 0 0xFFFFFFFF 0x9A 0xAF"
  "kernel_gdt sy ! 2 = gate_entry 0 0xFFFFFFFF 0x92 0xCF"
  "kernel_gdt sy ! 3 = gate_entry 0 0xFFFFFFFF 0xFA 0xAF"
  "kernel_gdt sy ! 4 = gate_entry 0 0xFFFFFFFF 0xF2 0xCF"
  "kernel_gdt sy ! 5 = gate_entry (tss_entry_sym sy) 104 0x89 0x00"
  "kernel_gdt sy ! 6 = tss_high (tss_entry_sym sy)"
  "List.length (kernel_gdt sy) = 7"
  by (simp_all add: kernel_gdt_def)

definition segments_ready :: "symbols \<Rightarrow> 'a segments_scheme \<Rightarrow> bool" where
  "segments_ready sy st \<longleftrightarrow> gdt st = kernel_gdt sy \<and> tr_sel st = 0x28 \<and>
     gdtr st = \<lparr>gp_limit = 55, gp_base = gdt_sym sy\<rparr>"

lemma ready_descriptors:
  assumes "segments_ready sy st"
  shows "descriptor sy st 0x08 = Some (pack_gdt (gate_entry 0 0xFFFFFFFF 0x9A 0xAF))"
    "descriptor sy st 0x10 = Some (pack_gdt (gate_entry 0 0xFFFFFFFF 0x92 0xCF))"
    "descriptor sy st 0x1B = Some (pack_gdt (gate_entry 0 0xFFFFFFFF 0xFA 0xAF))"
    "descriptor sy st 0x23 = Some (pack_gdt (gate_entry 0 0xFFFFFFFF 0xF2 0xCF))"
    "descriptor sy st 0x28 = Some (pack_gdt (gate_entry (tss_entry_sym sy) 104 0x89 0x00))"
    "descriptor sy st 0x30 = Some (pack_gdt (tss_high (tss_entry_sym sy)))"
  using assms kernel_gdt_lookup [of sy] by (simp_all add: descriptor_def segments_ready_def Let_def)

lemma ready_selectors:
  assumes "segments_ready sy st"
  shows "code_sel sy st 0x08 0" "data_sel sy st 0x10 0" "code_sel sy st 0x1B 3"
    "data_sel sy st 0x23 3" "task_base sy st = Some (tss_entry_sym sy)"
    "ring0_stack sy st = Some (rsp0 (tss_entry st))"
proof -
  note d = ready_descriptors [OF assms]
  show "code_sel sy st 0x08 0" "data_sel sy st 0x10 0" "code_sel sy st 0x1B 3"
      "data_sel sy st 0x23 3"
    by (simp_all add: code_sel_def data_sel_def d code64_def data_seg_def seg_dpl_def seg_gate
      bit_numeral_rec take_bit_eq_mod drop_bit_eq_div)
  show t: "task_base sy st = Some (tss_entry_sym sy)"
    using assms by (simp add: task_base_def d seg_gate tss_base_joined segments_ready_def)
  show "ring0_stack sy st = Some (rsp0 (tss_entry st))"
    by (simp add: ring0_stack_def t)
qed

text \<open>
  C22. After \<open>gdt_initialize\<close> the selectors the rest of the kernel uses denote what it expects:
  0x08 (the gates and new threads) 64-bit code of ring 0, 0x10 data of ring 0, 0x1B and 0x23 (the
  jump to user mode) 64-bit code and data of ring 3. The task register finds the whole 64-bit
  address of the state segment over two entries, and an entry from ring 3 gets the top of the
  kernel's interrupt stack.
\<close>

theorem gdt_initialize_segments:
  assumes "List.length (gdt st) = 7"
  shows "\<exists>st'. gdt_initialize sy st = Some st' \<and> mem st' = mem st \<and>
    cs_sel st' = 0x08 \<and> ds_sel st' = 0x10 \<and>
    code_sel sy st' 0x08 0 \<and> data_sel sy st' 0x10 0 \<and>
    code_sel sy st' 0x1B 3 \<and> data_sel sy st' 0x23 3 \<and>
    task_base sy st' = Some (tss_entry_sym sy) \<and>
    ring0_stack sy st' = Some (tss_kernel_stack_sym sy + 4096)"
proof -
  obtain st' where st': "gdt_initialize sy st = Some st'" "mem st' = mem st" "segments_ready sy st'"
      "cs_sel st' = 0x08" "ds_sel st' = 0x10" "rsp0 (tss_entry st') = tss_kernel_stack_sym sy + 4096"
    using gdt_initialize_eq [OF assms, of sy] by (simp add: segments_ready_def)
  then show ?thesis using ready_selectors [OF st'(3)] by auto
qed

definition demo_symbols :: symbols where
  "demo_symbols = \<lparr>gdt_sym = 0xFFFFFFFF80010000, tss_entry_sym = 0xFFFFFFFF80010100,
     tss_kernel_stack_sym = 0xFFFFFFFF80011000, idt_sym = 0xFFFFFFFF80012000,
     isr0_sym = 0xFFFFFFFF80000100, isr13_sym = 0xFFFFFFFF80000140, isr14_sym = 0xFFFFFFFF80000180,
     isr32_sym = 0xFFFFFFFF800001C0, isr33_sym = 0xFFFFFFFF80000200,
     isr128_sym = 0xFFFFFFFF80000240\<rparr>"

definition demo_segments :: segments where
  "demo_segments = process.extend demo_process
     \<lparr>gdt = replicate 7 zero_gdt_entry, tss_entry = zero_tss,
      gdtr = \<lparr>gp_limit = 0, gp_base = 0\<rparr>, cs_sel = 0, ds_sel = 0, tr_sel = 0\<rparr>"

theorem gdt_initialize_segments_witness:
  "\<exists>st'. gdt_initialize demo_symbols demo_segments = Some st' \<and> code_sel demo_symbols st' 0x1B 3 \<and>
     ring0_stack demo_symbols st' = Some 0xFFFFFFFF80012000"
  using gdt_initialize_segments [of demo_segments demo_symbols]
  by (auto simp: demo_segments_def process.defs demo_symbols_def)

text \<open>
  What \<open>gdt_set_gate\<close> is given is what the processor reads back from the packed entry: the
  low 32 bits of the base, the low 20 of the limit, the access byte, the flags of the upper half
  of \<open>gran\<close>, each reassembled from the two places it is split over; no other entry changes.
\<close>

lemma gdt_set_gate_roundtrip:
  assumes "unat num < 7" and "List.length (gdt st) = 7"
  shows "\<exists>st'. gdt_set_gate num base limit acc gran st = Some st' \<and>
    (let d = pack_gdt (gdt st' ! unat num) in
       seg_base d = take_bit 32 base \<and> seg_limit d = take_bit 20 limit \<and>
       seg_access d = acc \<and> seg_flags d = drop_bit 4 gran) \<and>
    (\<forall>i. i \<noteq> unat num \<longrightarrow> gdt st' ! i = gdt st ! i)"
  using assms by (simp add: gdt_set_gate_eq seg_gate Let_def)

lemma gdt_set_gate_roundtrip_witness:
  "\<exists>st'. gdt_set_gate 5 0xFFFFFFFF80010100 104 0x89 0 demo_segments = Some st' \<and>
     seg_base (pack_gdt (gdt st' ! 5)) = 0x80010100"
  using gdt_set_gate_roundtrip [of 5 demo_segments "0xFFFFFFFF80010100" 104 "0x89" 0]
  by (auto simp: demo_segments_def process.defs take_bit_eq_mod Let_def)

end
