(* ===== verification/Interrupts.thy ===== *)
theory Interrupts
  imports Segments
begin

text \<open>
  The interrupt descriptor table and the exception handlers (kernel/arch/x86_64/idt.c, apart from
  the keyboard interrupt, include/kernel/idt.h), the two interrupt controllers and the timer
  (arch/x86_64/pic.c). \<open>interrupt_entry\<close> is how the processor takes an interrupt through the
  table, \<open>pic_write\<close> how an 8259 reacts to the bytes written to its two ports and \<open>pit_reload\<close>
  what the timer's counter 0 is loaded with; the lemmas relate what the code writes to them.
\<close>

unbundle bit_operations_syntax

section \<open>idt.h\<close>

record idt_entry =
  ibase_low :: u16
  sel :: u16
  ist_index :: u8
  flags :: u8
  ibase_mid :: u16
  ibase_high :: u32
  ireserved :: u32

record idt_ptr =
  idtp_limit :: u16
  idtp_base :: u64

record tables = segments +
  idt :: "idt_entry list"
  idtr :: idt_ptr

section \<open>idt.c\<close>

definition idt_set_gate :: "u8 \<Rightarrow> u64 \<Rightarrow> u16 \<Rightarrow> u8 \<Rightarrow> 'a tables_scheme \<Rightarrow> 'a tables_scheme" where
  "idt_set_gate num base s fl st =
     (let e = idt st ! unat num;
          e = e\<lparr>ibase_low := ucast (base AND 0xFFFF)\<rparr>;
          e = e\<lparr>ibase_mid := ucast (drop_bit 16 base AND 0xFFFF)\<rparr>;
          e = e\<lparr>ibase_high := ucast (drop_bit 32 base AND 0xFFFFFFFF)\<rparr>;
          e = e\<lparr>sel := s\<rparr>;
          e = e\<lparr>ist_index := 0\<rparr>;
          e = e\<lparr>flags := fl\<rparr>;
          e = e\<lparr>ireserved := 0\<rparr>
      in st\<lparr>idt := (idt st)[unat num := e]\<rparr>)"

text \<open>\<open>Halted\<close> is a processor that stopped with interrupts disabled.\<close>

datatype 'a outcome = Halted 'a | Returned 'a

definition isr0_handler :: "'a machine_scheme \<Rightarrow> 'a machine_scheme outcome option" where
  "isr0_handler st =
     do {
       st \<leftarrow> kprintf (''EXCEPTION: DIVIDE BY ZERO'' @ nl) [] st;
       Some (Halted st)
     }"

definition isr13_handler :: "'a machine_scheme \<Rightarrow> 'a machine_scheme outcome option" where
  "isr13_handler st =
     do {
       st \<leftarrow> kprintf (nl @ ''[SECURITY] General protection fault intercepted.'' @ nl) [] st;
       st \<leftarrow> kprintf (''[SECURITY] A user process tried to do smth illegal.'' @ nl) [] st;
       Some (Halted st)
     }"

definition isr14_handler :: "'a machine_scheme \<Rightarrow> 'a machine_scheme outcome option" where
  "isr14_handler st = Some (Halted st)"

definition idt_flush :: "idt_ptr \<Rightarrow> 'a tables_scheme \<Rightarrow> 'a tables_scheme" where
  "idt_flush p st = st\<lparr>idtr := p\<rparr>"

fun idt_clear_loop :: "nat \<Rightarrow> u32 \<Rightarrow> 'a tables_scheme \<Rightarrow> 'a tables_scheme" where
  "idt_clear_loop 0 i st = st"
| "idt_clear_loop (Suc n) i st = idt_clear_loop n (i + 1) (idt_set_gate (ucast i) 0 0 0 st)"

definition idt_initialize :: "symbols \<Rightarrow> 'a tables_scheme \<Rightarrow> 'a tables_scheme" where
  "idt_initialize sy st =
     (let idtp = \<lparr>idtp_limit = 16 * 256 - 1, idtp_base = idt_sym sy\<rparr>;
          st = idt_clear_loop 256 0 st;
          st = idt_set_gate 0 (isr0_sym sy) 0x08 0x8E st;
          st = idt_set_gate 13 (isr13_sym sy) 0x08 0x8E st;
          st = idt_set_gate 14 (isr14_sym sy) 0x08 0x8E st;
          st = idt_set_gate 32 (isr32_sym sy) 0x08 0x8E st;
          st = idt_set_gate 33 (isr33_sym sy) 0x08 0x8E st;
          st = idt_set_gate 128 (isr128_sym sy) 0x08 0xEE st
      in idt_flush idtp st)"

section \<open>pic.c\<close>

abbreviation PIC1_COMMAND :: u16 where "PIC1_COMMAND \<equiv> 0x20"
abbreviation PIC1_DATA :: u16 where "PIC1_DATA \<equiv> 0x21"
abbreviation PIC2_COMMAND :: u16 where "PIC2_COMMAND \<equiv> 0xA0"
abbreviation PIC2_DATA :: u16 where "PIC2_DATA \<equiv> 0xA1"
abbreviation ICW1_INIT :: u8 where "ICW1_INIT \<equiv> 0x10"
abbreviation ICW1_ICW4 :: u8 where "ICW1_ICW4 \<equiv> 0x01"
abbreviation ICW4_8086 :: u8 where "ICW4_8086 \<equiv> 0x01"

definition pic_remap :: "'a machine_scheme \<Rightarrow> 'a machine_scheme" where
  "pic_remap st =
     (let st = outb PIC1_COMMAND (ICW1_INIT OR ICW1_ICW4) st;
          st = io_wait st;
          st = outb PIC2_COMMAND (ICW1_INIT OR ICW1_ICW4) st;
          st = io_wait st;
          st = outb PIC1_DATA 0x20 st;
          st = io_wait st;
          st = outb PIC2_DATA 0x28 st;
          st = io_wait st;
          st = outb PIC1_DATA 4 st;
          st = io_wait st;
          st = outb PIC2_DATA 2 st;
          st = io_wait st;
          st = outb PIC1_DATA ICW4_8086 st;
          st = io_wait st;
          st = outb PIC2_DATA ICW4_8086 st;
          st = io_wait st;
          st = outb PIC1_DATA 0xFC st
      in outb PIC2_DATA 0xFF st)"

text \<open>A division by zero is exception 0, whose handler stops the machine.\<close>

definition pit_initialize :: "u32 \<Rightarrow> 'a machine_scheme \<Rightarrow> 'a machine_scheme option" where
  "pit_initialize frequency st =
     (if frequency = 0 then None
      else
        let divisor = 1193180 div frequency;
            st = outb 0x43 0x36 st;
            st = outb 0x40 (ucast (divisor AND 0xFF)) st
        in Some (outb 0x40 (ucast (drop_bit 8 divisor AND 0xFF)) st))"

section \<open>The table the processor sees\<close>

text \<open>The sixteen bytes of a packed gate, as two little-endian words.\<close>

definition gate_low :: "idt_entry \<Rightarrow> u64" where
  "gate_low e = ucast (ibase_low e) OR push_bit 16 (ucast (sel e)) OR
     push_bit 32 (ucast (ist_index e)) OR push_bit 40 (ucast (flags e)) OR
     push_bit 48 (ucast (ibase_mid e))"

definition gate_high :: "idt_entry \<Rightarrow> u64" where
  "gate_high e = ucast (ibase_high e) OR push_bit 32 (ucast (ireserved e))"

definition gate_offset :: "u64 \<Rightarrow> u64 \<Rightarrow> u64" where
  "gate_offset lo hi = take_bit 16 lo OR push_bit 16 (drop_bit 48 lo) OR push_bit 32 (take_bit 32 hi)"

definition gate_sel :: "u64 \<Rightarrow> u16" where
  "gate_sel lo = ucast (drop_bit 16 lo)"

definition gate_flags :: "u64 \<Rightarrow> u8" where
  "gate_flags lo = ucast (drop_bit 40 lo)"

text \<open>
  Taking interrupt \<open>v\<close> in ring \<open>cpl\<close> with stack pointer \<open>sp\<close>: the gate must be present and a
  64-bit interrupt gate, a software interrupt needs a gate its ring may use, the selector must
  be 64-bit code of ring 0, and an entry from an outer ring switches to the stack of the task
  state segment. The result is the handler's address and the stack it starts on, which the
  processor aligns to 16 bytes before it pushes the frame.
\<close>

definition align16 :: "u64 \<Rightarrow> u64" where
  "align16 sp = sp AND NOT 0xF"

definition interrupt_entry ::
  "symbols \<Rightarrow> 'a tables_scheme \<Rightarrow> nat \<Rightarrow> bool \<Rightarrow> u64 \<Rightarrow> u8 \<Rightarrow> (u64 \<times> u64) option" where
  "interrupt_entry sy st cpl software sp v =
     (let lo = gate_low (idt st ! unat v); hi = gate_high (idt st ! unat v); fl = gate_flags lo in
      if idtp_base (idtr st) = idt_sym sy \<and> 16 * unat v + 15 \<le> unat (idtp_limit (idtr st)) \<and>
         bit fl 7 \<and> take_bit 5 fl = 0xE \<and>
         (software \<longrightarrow> cpl \<le> unat (take_bit 2 (drop_bit 5 fl))) \<and> code_sel sy st (gate_sel lo) 0
      then map_option (Pair (gate_offset lo hi)) (map_option align16 (if cpl = 0 then Some sp else ring0_stack sy st))
      else None)"

definition gate_of :: "u64 \<Rightarrow> u16 \<Rightarrow> u8 \<Rightarrow> idt_entry" where
  "gate_of base s fl = \<lparr>ibase_low = ucast base, sel = s, ist_index = 0, flags = fl,
     ibase_mid = ucast (drop_bit 16 base), ibase_high = ucast (drop_bit 32 base), ireserved = 0\<rparr>"

lemma idt_set_gate_eq:
  "idt_set_gate num base s fl st = st\<lparr>idt := (idt st)[unat num := gate_of base s fl]\<rparr>"
proof -
  have "ucast (base AND 0xFFFF) = (ucast base :: u16)"
    "ucast (drop_bit 16 base AND 0xFFFF) = (ucast (drop_bit 16 base) :: u16)"
    "ucast (drop_bit 32 base AND 0xFFFFFFFF) = (ucast (drop_bit 32 base) :: u32)"
    unfolding low_masks by (rule bit_word_eqI; auto simp: bit_simps)+
  then show ?thesis
    by (cases "idt st ! unat num") (simp add: idt_set_gate_def gate_of_def Let_def)
qed

lemma bit_gate_low:
  "bit (gate_low e) n \<longleftrightarrow> n < 64 \<and> (if n < 16 then bit (ibase_low e) n
     else if n < 32 then bit (sel e) (n - 16)
     else if n < 40 then bit (ist_index e) (n - 32)
     else if n < 48 then bit (flags e) (n - 40) else bit (ibase_mid e) (n - 48))"
proof -
  consider "n < 16" | "16 \<le> n" "n < 32" | "32 \<le> n" "n < 40" | "40 \<le> n" "n < 48" | "48 \<le> n"
    by linarith
  then show ?thesis
    by cases (simp_all add: gate_low_def bit_simps bit_above, auto)
qed

lemma gate_fields:
  shows "gate_sel (gate_low (gate_of base s fl)) = s"
    and "gate_flags (gate_low (gate_of base s fl)) = fl"
    and "gate_offset (gate_low (gate_of base s fl)) (gate_high (gate_of base s fl)) = base"
proof -
  show "gate_sel (gate_low (gate_of base s fl)) = s"
    by (rule bit_word_eqI) (simp add: gate_sel_def gate_of_def bit_simps bit_gate_low)
  show "gate_flags (gate_low (gate_of base s fl)) = fl"
    by (rule bit_word_eqI) (simp add: gate_flags_def gate_of_def bit_simps bit_gate_low)
  show "gate_offset (gate_low (gate_of base s fl)) (gate_high (gate_of base s fl)) = base"
  proof (rule bit_word_eqI)
    fix n
    assume n: "n < LENGTH(64)"
    consider "n < 16" | k where "n = 16 + k" "k < 16" | k where "n = 32 + k"
      by (cases "n < 16"; cases "n < 32") (auto simp: not_less le_iff_add)
    then show "bit (gate_offset (gate_low (gate_of base s fl))
        (gate_high (gate_of base s fl))) n = bit base n"
      using n
      by cases (simp_all add: gate_offset_def gate_high_def gate_of_def bit_simps bit_gate_low)
  qed
qed

section \<open>The table that idt_initialize builds\<close>

abbreviation no_gate :: idt_entry where "no_gate \<equiv> gate_of 0 0 0"

lemma idt_clear_loop_eq:
  "n + i = 256 \<Longrightarrow> List.length (idt st) = 256 \<Longrightarrow>
     idt_clear_loop n (of_nat i) st = st\<lparr>idt := take i (idt st) @ replicate n no_gate\<rparr>"
proof (induction n arbitrary: i st)
  case (Suc n)
  have "i < 256" using Suc.prems by simp
  then have u: "unat (ucast (of_nat i :: u32) :: u8) = i"
    by (simp add: unsigned_ucast_eq unsigned_of_nat take_bit_eq_mod)
  let ?st = "st\<lparr>idt := (idt st)[i := no_gate]\<rparr>"
  have "take (Suc i) ((idt st)[i := no_gate]) = take i (idt st) @ [no_gate]"
    using Suc.prems by (simp add: take_Suc_conv_app_nth)
  moreover have "idt_clear_loop n (of_nat (Suc i)) ?st =
      ?st\<lparr>idt := take (Suc i) (idt ?st) @ replicate n no_gate\<rparr>"
    using Suc.prems by (intro Suc.IH) simp_all
  ultimately show ?case by (simp add: idt_set_gate_eq u add.commute)
qed simp

lemma unat_lt_256: "unat (v :: u8) < 256"
proof -
  have "unat v < 2 ^ LENGTH(8)" by (rule unsigned_less)
  then show ?thesis by simp
qed

definition handler_of :: "symbols \<Rightarrow> u8 \<Rightarrow> u64 option" where
  "handler_of sy v =
     map_of [(0, isr0_sym sy), (13, isr13_sym sy), (14, isr14_sym sy), (32, isr32_sym sy),
       (33, isr33_sym sy), (128, isr128_sym sy)] v"

definition kernel_gate :: "symbols \<Rightarrow> u8 \<Rightarrow> idt_entry" where
  "kernel_gate sy v =
     (case handler_of sy v of None \<Rightarrow> no_gate
      | Some h \<Rightarrow> gate_of h 0x08 (if v = 128 then 0xEE else 0x8E))"

lemma idt_initialize_eq:
  assumes "List.length (idt st) = 256"
  shows "\<exists>t. idt_initialize sy st =
      st\<lparr>idt := t, idtr := \<lparr>idtp_limit = 4095, idtp_base = idt_sym sy\<rparr>\<rparr> \<and>
    List.length t = 256 \<and> (\<forall>v. t ! unat v = kernel_gate sy v)"
proof -
  let ?g = "\<lambda>h. gate_of h 0x08 0x8E"
  let ?t = "(replicate 256 no_gate)[0 := ?g (isr0_sym sy), 13 := ?g (isr13_sym sy),
    14 := ?g (isr14_sym sy), 32 := ?g (isr32_sym sy), 33 := ?g (isr33_sym sy),
    128 := gate_of (isr128_sym sy) 0x08 0xEE]"
  have "idt_clear_loop 256 0 st = st\<lparr>idt := replicate 256 no_gate\<rparr>"
    using idt_clear_loop_eq [of 256 0 st] assms by simp
  then have "idt_initialize sy st =
      st\<lparr>idt := ?t, idtr := \<lparr>idtp_limit = 4095, idtp_base = idt_sym sy\<rparr>\<rparr>"
    by (simp add: idt_initialize_def idt_set_gate_eq idt_flush_def Let_def)
  moreover have "?t ! unat v = kernel_gate sy v" for v :: u8
  proof -
    have "unat v < 256" using unat_lt_256 .
    moreover have "unat v = k \<longleftrightarrow> v = of_nat k" if "k < 256" for k
      using that by (auto simp: unat_of_nat)
    ultimately show ?thesis
      by (simp add: nth_list_update kernel_gate_def handler_of_def)
  qed
  ultimately show ?thesis by (intro exI [of _ ?t]) simp
qed

lemma no_gate_entry: "bit (gate_flags (gate_low no_gate)) 7 = False"
  by (simp add: gate_fields)

definition interrupts_ready :: "symbols \<Rightarrow> 'a tables_scheme \<Rightarrow> bool" where
  "interrupts_ready sy st \<longleftrightarrow> segments_ready sy st \<and>
     idtr st = \<lparr>idtp_limit = 4095, idtp_base = idt_sym sy\<rparr> \<and>
     (\<forall>v. idt st ! unat v = kernel_gate sy v)"

lemma ready_interrupt_entry:
  assumes "interrupts_ready sy st" and "cpl \<le> 3"
  shows "interrupt_entry sy st cpl software sp v =
    (case handler_of sy v of None \<Rightarrow> None
     | Some h \<Rightarrow> if software \<and> cpl \<noteq> 0 \<and> v \<noteq> 128 then None
                else Some (h, align16 (if cpl = 0 then sp else rsp0 (tss_entry st))))"
proof -
  have "unat v < 256" using unat_lt_256 .
  then show ?thesis
    using assms ready_selectors [of sy st]
    by (auto simp: interrupt_entry_def interrupts_ready_def kernel_gate_def gate_fields Let_def
      bit_numeral_rec take_bit_eq_mod drop_bit_eq_div split: option.splits)
qed

lemma initialized_tables:
  assumes "List.length (gdt st) = 7" and "List.length (idt st) = 256"
  shows "\<exists>st'. map_option (idt_initialize sy) (gdt_initialize sy st) = Some st' \<and>
    interrupts_ready sy st' \<and> rsp0 (tss_entry st') = tss_kernel_stack_sym sy + 4096 \<and>
    inputs st' = inputs st \<and> outlog st' = outlog st"
proof -
  obtain st1 where 1: "gdt_initialize sy st = Some st1" "segments_ready sy st1" "idt st1 = idt st"
      "rsp0 (tss_entry st1) = tss_kernel_stack_sym sy + 4096" "inputs st1 = inputs st"
      "outlog st1 = outlog st"
    using gdt_initialize_eq [OF assms(1), of sy] by (simp add: segments_ready_def)
  obtain t where 2: "idt_initialize sy st1 =
        st1\<lparr>idt := t, idtr := \<lparr>idtp_limit = 4095, idtp_base = idt_sym sy\<rparr>\<rparr>"
      "\<forall>v. t ! unat v = kernel_gate sy v"
    using idt_initialize_eq [of st1 sy] assms(2) 1(3) by auto
  have "interrupts_ready sy (idt_initialize sy st1)"
    using 1(2) 2 by (simp add: interrupts_ready_def segments_ready_def)
  then show ?thesis using 1 by (simp add: 2(1))
qed

text \<open>
  C24. After \<open>gdt_initialize\<close> and \<open>idt_initialize\<close> an interrupt enters the handler that the code
  installed for its vector, at its whole 64-bit address, in ring 0, and coming from ring 3 on the
  kernel's interrupt stack. A vector with no handler is not taken, and of the handlers a program
  in ring 3 can call only the system call 128 with an \<open>int\<close> instruction.
\<close>

theorem interrupt_gates:
  assumes "List.length (gdt st) = 7" and "List.length (idt st) = 256"
  shows "\<exists>st'. map_option (idt_initialize sy) (gdt_initialize sy st) = Some st' \<and>
    (\<forall>v cpl software sp. cpl \<le> 3 \<longrightarrow>
       interrupt_entry sy st' cpl software sp v =
         (case handler_of sy v of None \<Rightarrow> None
          | Some h \<Rightarrow> if software \<and> cpl \<noteq> 0 \<and> v \<noteq> 128 then None
                     else Some (h, align16 (if cpl = 0 then sp else tss_kernel_stack_sym sy + 4096))))"
proof -
  obtain st' where st': "map_option (idt_initialize sy) (gdt_initialize sy st) = Some st'"
      "interrupts_ready sy st'" "rsp0 (tss_entry st') = tss_kernel_stack_sym sy + 4096"
    using initialized_tables [OF assms] by blast
  show ?thesis
    by (intro exI [of _ st'] conjI allI impI st'(1))
      (simp only: ready_interrupt_entry [OF st'(2)] st'(3))
qed

definition demo_tables :: tables where
  "demo_tables = segments.extend demo_segments
     \<lparr>idt = replicate 256 no_gate, idtr = \<lparr>idtp_limit = 0, idtp_base = 0\<rparr>\<rparr>"

theorem interrupt_gates_witness:
  "\<exists>st'. map_option (idt_initialize demo_symbols) (gdt_initialize demo_symbols demo_tables) = Some st' \<and>
     interrupt_entry demo_symbols st' 3 True 0 128 = Some (0xFFFFFFFF80000240, 0xFFFFFFFF80012000) \<and>
     interrupt_entry demo_symbols st' 3 True 0 32 = None"
proof -
  have "List.length (gdt demo_tables) = 7" "List.length (idt demo_tables) = 256"
    by (simp_all add: demo_tables_def demo_segments_def segments.defs process.defs)
  from interrupt_gates [OF this, of demo_symbols] show ?thesis
    by (auto simp: handler_of_def demo_symbols_def align16_def)
qed

section \<open>The interrupt controllers and the timer\<close>

text \<open>
  An 8259: ICW1 to the command port starts the initialisation, and the next three bytes to the
  data port are the vector base, the cascade wiring and the mode; after that a byte to the data
  port is the interrupt mask. \<open>expect\<close> is the number of the word it waits for, or 0.
\<close>

record pic8259 =
  vector_base :: u8
  cascade :: u8
  pic_mode :: u8
  imr :: u8
  expect :: nat

fun pic_write :: "u16 \<Rightarrow> u16 \<Rightarrow> u16 \<times> u8 \<Rightarrow> pic8259 \<Rightarrow> pic8259" where
  "pic_write cmd data (p, v) s =
     (if p = cmd then (if bit v 4 then s\<lparr>imr := 0, expect := 2\<rparr> else s)
      else if p = data then
        (if expect s = 2 then s\<lparr>vector_base := v AND 0xF8, expect := 3\<rparr>
         else if expect s = 3 then s\<lparr>cascade := v, expect := 4\<rparr>
         else if expect s = 4 then s\<lparr>pic_mode := v, expect := 0\<rparr>
         else s\<lparr>imr := v\<rparr>)
      else s)"

definition pic_after :: "u16 \<Rightarrow> u16 \<Rightarrow> (u16 \<times> u8) list \<Rightarrow> pic8259 \<Rightarrow> pic8259" where
  "pic_after cmd data ws s = fold (pic_write cmd data) ws s"

definition pic_writes :: "(u16 \<times> u8) list" where
  "pic_writes = [(0x20, 0x11), (0x80, 0), (0xA0, 0x11), (0x80, 0), (0x21, 0x20), (0x80, 0),
     (0xA1, 0x28), (0x80, 0), (0x21, 4), (0x80, 0), (0xA1, 2), (0x80, 0), (0x21, 1), (0x80, 0),
     (0xA1, 1), (0x80, 0), (0x21, 0xFC), (0xA1, 0xFF)]"

lemma pic_remap_eq: "pic_remap st = st\<lparr>outlog := outlog st @ pic_writes\<rparr>"
  by (simp add: pic_remap_def pic_writes_def io_wait_def outb_def Let_def)

lemma pic_remap_state:
  "pic_after 0x20 0x21 pic_writes s =
     \<lparr>vector_base = 0x20, cascade = 4, pic_mode = 1, imr = 0xFC, expect = 0\<rparr>"
  "pic_after 0xA0 0xA1 pic_writes s =
     \<lparr>vector_base = 0x28, cascade = 2, pic_mode = 1, imr = 0xFF, expect = 0\<rparr>"
  by (cases s, simp add: pic_after_def pic_writes_def bit_numeral_rec)+

text \<open>
  C21. After the tables and \<open>pic_remap\<close> every interrupt line that is not masked reaches a
  handler: line 0 of the first controller arrives as the vector of \<open>isr32\<close>, line 1 as that of
  \<open>isr33\<close>, from any ring and whatever state the controllers were in; the second controller has
  every line masked.
\<close>

theorem unmasked_lines_reach_handlers:
  assumes "List.length (gdt st) = 7" and "List.length (idt st) = 256"
  shows "\<exists>st' ws. map_option (\<lambda>st. pic_remap (idt_initialize sy st)) (gdt_initialize sy st) = Some st' \<and>
    outlog st' = outlog st @ ws \<and>
    (\<forall>s i cpl sp. i < 8 \<longrightarrow> cpl \<le> 3 \<longrightarrow> \<not> bit (imr (pic_after PIC1_COMMAND PIC1_DATA ws s)) i \<longrightarrow>
       interrupt_entry sy st' cpl False sp
           (vector_base (pic_after PIC1_COMMAND PIC1_DATA ws s) + of_nat i) =
         Some (if i = 0 then isr32_sym sy else isr33_sym sy,
               align16 (if cpl = 0 then sp else tss_kernel_stack_sym sy + 4096)) \<and> i \<le> 1) \<and>
    (\<forall>s i. i < 8 \<longrightarrow> bit (imr (pic_after PIC2_COMMAND PIC2_DATA ws s)) i)"
proof -
  obtain st1 where 1: "map_option (idt_initialize sy) (gdt_initialize sy st) = Some st1"
      "interrupts_ready sy st1" "rsp0 (tss_entry st1) = tss_kernel_stack_sym sy + 4096"
      "outlog st1 = outlog st"
    using initialized_tables [OF assms] by blast
  let ?st = "pic_remap st1"
  have ready: "interrupts_ready sy ?st"
    using 1(2) by (simp add: interrupts_ready_def segments_ready_def pic_remap_eq)
  have frame: "tss_entry ?st = tss_entry st1" "outlog ?st = outlog st @ pic_writes"
    using 1(4) by (simp_all add: pic_remap_eq)
  have "i = 0 \<or> i = 1" if "i < 8" "\<not> bit (0xFC :: u8) i" for i
  proof -
    have "i \<in> {0, 1, 2, 3, 4, 5, 6, 7}" using that(1) by auto
    then show ?thesis using that(2) by (auto simp: bit_numeral_rec)
  qed
  moreover have "interrupt_entry sy ?st cpl False sp (0x20 + of_nat i) = Some
      (if i = 0 then isr32_sym sy else isr33_sym sy,
       align16 (if cpl = 0 then sp else tss_kernel_stack_sym sy + 4096)) \<and> i \<le> 1"
    if "i = 0 \<or> i = 1" "cpl \<le> 3" for i cpl sp
    using that(1) unfolding ready_interrupt_entry [OF ready that(2)] frame
    by (elim disjE) (simp_all add: handler_of_def 1(3))
  moreover have "bit (0xFF :: u8) i" if "i < 8" for i
    using that by (simp add: low_masks bit_simps)
  ultimately show ?thesis
    using 1(1) frame(2)
    by (intro exI [of _ ?st] exI [of _ pic_writes]) (auto simp: pic_remap_state)
qed

theorem unmasked_lines_reach_handlers_witness:
  "\<exists>(st' :: tables) ws. outlog st' = outlog demo_tables @ ws \<and>
     interrupt_entry demo_symbols st' 3 False 0 (vector_base (pic_after PIC1_COMMAND PIC1_DATA ws
       \<lparr>vector_base = 8, cascade = 0, pic_mode = 0, imr = 0, expect = 0\<rparr>)) =
       Some (0xFFFFFFFF800001C0, 0xFFFFFFFF80012000)"
proof -
  let ?s = "\<lparr>vector_base = 8, cascade = 0, pic_mode = 0, imr = 0, expect = 0\<rparr>"
  have len: "List.length (gdt demo_tables) = 7" "List.length (idt demo_tables) = 256"
    by (simp_all add: demo_tables_def demo_segments_def segments.defs process.defs)
  obtain st' ws where r: "outlog st' = outlog demo_tables @ ws"
      "map_option (\<lambda>st. pic_remap (idt_initialize demo_symbols st))
         (gdt_initialize demo_symbols demo_tables) = Some st'"
      "\<not> bit (imr (pic_after PIC1_COMMAND PIC1_DATA ws ?s)) 0 \<Longrightarrow>
        interrupt_entry demo_symbols st' 3 False 0
          (vector_base (pic_after PIC1_COMMAND PIC1_DATA ws ?s) + of_nat 0) =
        Some (isr32_sym demo_symbols, align16 (tss_kernel_stack_sym demo_symbols + 4096))"
    using unmasked_lines_reach_handlers [OF len, of demo_symbols] by fastforce
  have demo: "isr32_sym demo_symbols = 0xFFFFFFFF800001C0"
      "align16 (tss_kernel_stack_sym demo_symbols + 4096) = 0xFFFFFFFF80012000"
    by (simp_all add: demo_symbols_def align16_def)
  obtain st1 where "gdt_initialize demo_symbols demo_tables = Some st1"
      "outlog st1 = outlog demo_tables"
    using gdt_initialize_eq [OF len(1), of demo_symbols] by simp
  moreover have "outlog (idt_initialize demo_symbols st) = outlog st"
    if "List.length (idt st) = 256" for st :: tables
    using idt_initialize_eq [OF that, of demo_symbols] by auto
  ultimately have "ws = pic_writes"
    using r(1,2) len gdt_initialize_eq [OF len(1), of demo_symbols] by (auto simp: pic_remap_eq)
  then have "interrupt_entry demo_symbols st' 3 False 0
      (vector_base (pic_after PIC1_COMMAND PIC1_DATA ws ?s)) =
      Some (0xFFFFFFFF800001C0, 0xFFFFFFFF80012000)"
    using r(3) pic_remap_state(1) [of ?s] by (simp add: demo)
  with r(1) show ?thesis by blast
qed

text \<open>
  Counter 0 of the timer: after the control byte 0x36 two bytes to port 0x40 are the low and the
  high half of the count that is reloaded, where 0 counts 65536.
\<close>

fun pit_reload :: "(u16 \<times> u8) list \<Rightarrow> nat option" where
  "pit_reload [(p, c), (q, lo), (r, hi)] =
     (if p = 0x43 \<and> c = 0x36 \<and> q = 0x40 \<and> r = 0x40
      then Some (if unat lo + 256 * unat hi = 0 then 65536 else unat lo + 256 * unat hi) else None)"
| "pit_reload _ = None"

lemma pit_bytes:
  "unat (ucast (d AND 0xFF) :: u8) + 256 * unat (ucast (drop_bit 8 d AND 0xFF) :: u8) =
     unat (d :: u32) mod 65536"
proof -
  have "unat (ucast (d AND 0xFF) :: u8) = unat d mod 256"
    "unat (ucast (drop_bit 8 d AND 0xFF) :: u8) = unat d div 256 mod 256"
    unfolding low_masks take_bit_eq_mask [symmetric]
    by (simp_all add: unsigned_ucast_eq take_bit_eq_mod drop_bit_eq_div unat_mod unat_div)
  then show ?thesis using mod_mult2_eq [of "unat d" 256 256] by simp
qed

text \<open>
  For a frequency from 19 Hz to 1193180 Hz \<open>pit_initialize\<close> loads the counter with the
  largest count whose rate is at least that frequency, so that the timer interrupts come at the
  rate asked for or less than one count faster; outside this range (below 19 the divisor does
  not fit into 16 bits) the bound would fail.
\<close>

lemma pit_initialize_rate:
  assumes "19 \<le> unat f" and "unat f \<le> 1193180"
  shows "\<exists>st' ws n. pit_initialize f st = Some st' \<and> outlog st' = outlog st @ ws \<and>
    pit_reload ws = Some n \<and> n \<le> 65535 \<and> n * unat f \<le> 1193180 \<and> 1193180 < Suc n * unat f"
proof -
  let ?d = "1193180 div f :: u32" and ?n = "1193180 div unat f"
  let ?ws = "[(0x43, 0x36), (0x40, ucast (?d AND 0xFF)), (0x40, ucast (drop_bit 8 ?d AND 0xFF))]"
  have f: "f \<noteq> 0" using assms(1) by auto
  have d: "unat ?d = ?n" by (simp add: unat_div)
  have "?n \<le> 1193180 div 19" using assms(1) by (intro div_le_mono2) simp_all
  then have small: "?n \<le> 65535" by simp
  have pos: "0 < ?n" using assms by (simp add: div_greater_zero_iff)
  have "pit_reload ?ws = Some ?n" using pit_bytes [of ?d] small pos unfolding d by simp
  moreover have "?n * unat f \<le> 1193180" by simp
  moreover have "1193180 < Suc ?n * unat f"
    using assms(1) dividend_less_div_times [of "unat f" 1193180] by simp
  moreover have "\<exists>st'. pit_initialize f st = Some st' \<and> outlog st' = outlog st @ ?ws"
    using f by (simp add: pit_initialize_def Let_def)
  ultimately show ?thesis using small by blast
qed

lemma pit_initialize_rate_witness:
  "\<exists>st' ws n. pit_initialize 100 demo_machine = Some st' \<and> outlog st' = ws \<and>
     pit_reload ws = Some n \<and> n = 11931"
proof -
  obtain st' ws n where "pit_initialize 100 demo_machine = Some st'" "outlog st' = ws"
      "pit_reload ws = Some n" "n * 100 \<le> 1193180" "1193180 < Suc n * 100"
    using pit_initialize_rate [of 100 demo_machine] by auto
  moreover from this(4,5) have "n = 11931" by simp
  ultimately show ?thesis by blast
qed

end
