(* ===== verification/Stubs.thy ===== *)
theory Stubs
  imports Interrupts Tty
begin

text \<open>
  The interrupt stubs of kernel/arch/x86_64/idt_flush.S that do not switch tasks: \<open>isr33\<close> of the
  keyboard, which must be invisible to the program it interrupts, and \<open>isr0\<close>, \<open>isr13\<close> and \<open>isr14\<close>
  of the exceptions, from which no program comes back. For the exceptions 13 and 14 the processor
  pushes an error code below the frame, which the stub removes before \<open>iretq\<close>. The registers are
  saved as in \<open>isr32\<close> and \<open>isr128\<close> (\<open>Process\<close>, \<open>Syscall\<close>).
\<close>

unbundle bit_operations_syntax

section \<open>idt_flush.S\<close>

definition isr33 :: "registers \<Rightarrow> u64 \<Rightarrow> 'a keyboard_scheme \<Rightarrow> (registers \<times> 'a keyboard_scheme) option" where
  "isr33 r sp st =
     do {
       (sp, st) \<leftarrow> push_list (cpu_frame r) sp st;
       (sp, st) \<leftarrow> push_list (pusha64 r) sp st;
       st \<leftarrow> isr33_handler st;
       (ws, sp) \<leftarrow> pop_list 20 sp st;
       r \<leftarrow> popa64_iretq ws;
       Some (r, st)
     }"

definition isr0 ::
  "registers \<Rightarrow> u64 \<Rightarrow> 'a machine_scheme \<Rightarrow> (registers option \<times> 'a machine_scheme) option" where
  "isr0 r sp st =
     do {
       (sp, st) \<leftarrow> push_list (cpu_frame r) sp st;
       (sp, st) \<leftarrow> push_list (pusha64 r) sp st;
       out \<leftarrow> isr0_handler st;
       case out of
         Halted st \<Rightarrow> Some (None, st)
       | Returned st \<Rightarrow>
           do {
             (ws, sp) \<leftarrow> pop_list 20 sp st;
             r \<leftarrow> popa64_iretq ws;
             Some (Some r, st)
           }
     }"

text \<open>The fifteen registers are popped, the error code is skipped, and \<open>iretq\<close> pops the frame.\<close>

definition isr13 ::
  "registers \<Rightarrow> u64 \<Rightarrow> u64 \<Rightarrow> 'a machine_scheme \<Rightarrow>
     (registers option \<times> 'a machine_scheme) option" where
  "isr13 r error_code sp st =
     do {
       (sp, st) \<leftarrow> push_list (cpu_frame r @ [error_code]) sp st;
       (sp, st) \<leftarrow> push_list (pusha64 r) sp st;
       out \<leftarrow> isr13_handler st;
       case out of
         Halted st \<Rightarrow> Some (None, st)
       | Returned st \<Rightarrow>
           do {
             (ws, sp) \<leftarrow> pop_list 15 sp st;
             (fs, sp) \<leftarrow> pop_list 5 (sp + 8) st;
             r \<leftarrow> popa64_iretq (ws @ fs);
             Some (Some r, st)
           }
     }"

definition isr14 ::
  "registers \<Rightarrow> u64 \<Rightarrow> u64 \<Rightarrow> 'a machine_scheme \<Rightarrow>
     (registers option \<times> 'a machine_scheme) option" where
  "isr14 r error_code sp st =
     do {
       (sp, st) \<leftarrow> push_list (cpu_frame r @ [error_code]) sp st;
       (sp, st) \<leftarrow> push_list (pusha64 r) sp st;
       out \<leftarrow> isr14_handler st;
       case out of
         Halted st \<Rightarrow> Some (None, st)
       | Returned st \<Rightarrow>
           do {
             (ws, sp) \<leftarrow> pop_list 15 sp st;
             (fs, sp) \<leftarrow> pop_list 5 (sp + 8) st;
             r \<leftarrow> popa64_iretq (ws @ fs);
             Some (Some r, st)
           }
     }"

section \<open>The keyboard interrupt seen from the program\<close>

lemma isr33_returns:
  fixes st :: "'a keyboard_scheme"
  assumes "kregion (sp - 160) 160" and "tx_live st"
  defines "c \<equiv> key_of (shift_pressed st) (scancode st)"
  shows "\<exists>st'. isr33 r sp st = Some (r, st') \<and>
    (\<forall>x. \<not> within x (sp - 160) 160 \<longrightarrow> mem st' x = mem st x) \<and>
    shift_pressed st' = next_shift (shift_pressed st) (scancode st) \<and>
    contents st' = (if c = 0 then contents st else contents (keyboard_push c st)) \<and>
    outlog st' = outlog st @ echo c @ [(0x20, 0x20)] \<and>
    in_pos st' 0x60 = Suc (in_pos st 0x60) \<and> inputs st' = inputs st"
proof -
  obtain m where m: "do { (sp, st) \<leftarrow> push_list (cpu_frame r) sp st; push_list (pusha64 r) sp st } =
        Some (sp - 160, st\<lparr>mem := m\<rparr>)" "frame_at (st\<lparr>mem := m\<rparr>) (sp - 160) r"
      "\<forall>x. \<not> within x (sp - 160) 160 \<longrightarrow> m x = mem st x"
    using save_frame [OF assms(1), of r st] by blast
  let ?st = "st\<lparr>mem := m\<rparr>"
  have "tx_live ?st" using assms(2) by (simp add: tx_live_def)
  moreover have "shift_pressed ?st = shift_pressed st" "scancode ?st = scancode st"
    "contents (keyboard_push c ?st) = contents (keyboard_push c st)"
    by (simp_all add: scancode_def keyboard_push_def contents_def Let_def)
  ultimately obtain st' where st': "isr33_handler ?st = Some st'"
      "shift_pressed st' = next_shift (shift_pressed st) (scancode st)"
      "contents st' = (if c = 0 then contents st else contents (keyboard_push c st))"
      "outlog st' = outlog st @ echo c @ [(0x20, 0x20)]" "mem st' = m"
      "in_pos st' 0x60 = Suc (in_pos st 0x60)" "inputs st' = inputs st"
    using isr33_step [of ?st] by (auto simp: c_def)
  have "frame_at st' (sp - 160) r"
    using m(2) frame_at_cong [of "sp - 160" st' ?st r] st'(5) by simp
  then have "isr33 r sp st = Some (r, st')"
    using m(1) st'(1) restore_frame [of st' "sp - 160" r]
    by (auto simp: isr33_def bind_eq_Some_conv)
  then show ?thesis using st' m(3) by (intro exI [of _ st']) simp
qed

text \<open>
  Keyboard interrupts of programs that run with the registers and on the kernel stacks given,
  one after the other, and the registers with which each of them goes on.
\<close>

fun key_interrupts ::
  "(registers \<times> u64) list \<Rightarrow> 'a keyboard_scheme \<Rightarrow> (registers list \<times> 'a keyboard_scheme) option" where
  "key_interrupts [] st = Some ([], st)"
| "key_interrupts ((r, sp) # ps) st =
     do {
       (r, st) \<leftarrow> isr33 r sp st;
       (rs, st) \<leftarrow> key_interrupts ps st;
       Some (r # rs, st)
     }"

lemma fold_push_cong:
  "contents s = contents t \<Longrightarrow>
     contents (fold keyboard_push ks s) = contents (fold keyboard_push ks t)"
  by (simp add: kbd.push_all)

lemma key_interrupts_typed:
  fixes st :: "'a keyboard_scheme"
  shows "tx_live st \<Longrightarrow> \<forall>(r, sp)\<in>set ps. kregion (sp - 160) 160 \<Longrightarrow>
    \<exists>st'. key_interrupts ps st = Some (map fst ps, st') \<and>
      (\<forall>x. (\<forall>(r, sp)\<in>set ps. \<not> within x (sp - 160) 160) \<longrightarrow> mem st' x = mem st x) \<and>
      contents st' =
        contents (fold keyboard_push (fst (typed (shift_pressed st) (scancodes st (length ps)))) st) \<and>
      shift_pressed st' = snd (typed (shift_pressed st) (scancodes st (length ps))) \<and>
      filter (\<lambda>(p, _). p \<noteq> PORT) (outlog st') =
        filter (\<lambda>(p, _). p \<noteq> PORT) (outlog st) @ replicate (length ps) (0x20, 0x20) \<and>
      filter (\<lambda>(p, _). p = PORT) (outlog st') = filter (\<lambda>(p, _). p = PORT) (outlog st) @
        map (Pair PORT) (fst (typed (shift_pressed st) (scancodes st (length ps))))"
proof (induction ps arbitrary: st)
  case Nil
  then show ?case by (simp add: scancodes_def)
next
  case (Cons q ps)
  obtain r sp where q: "q = (r, sp)" by fastforce
  let ?c = "key_of (shift_pressed st) (scancode st)"
  obtain st1 where 1: "isr33 r sp st = Some (r, st1)"
      "\<forall>x. \<not> within x (sp - 160) 160 \<longrightarrow> mem st1 x = mem st x"
      "shift_pressed st1 = next_shift (shift_pressed st) (scancode st)"
      "contents st1 = (if ?c = 0 then contents st else contents (keyboard_push ?c st))"
      "outlog st1 = outlog st @ echo ?c @ [(0x20, 0x20)]"
      "in_pos st1 0x60 = Suc (in_pos st 0x60)" "inputs st1 = inputs st"
    using isr33_returns [of sp st r] Cons.prems q by auto
  have tx: "tx_live st1" using Cons.prems(1) 1(7) by (simp add: tx_live_def)
  let ?t = "typed (shift_pressed st1) (scancodes st1 (length ps))"
  have typed: "typed (shift_pressed st) (scancodes st (length (q # ps))) =
      (if ?c = 0 then fst ?t else ?c # fst ?t, snd ?t)"
    using 1(3) by (simp add: scancodes_Suc [OF 1(7,6)] split_beta Let_def)
  obtain st2 where 2: "key_interrupts ps st1 = Some (map fst ps, st2)"
      "\<forall>x. (\<forall>(r, sp)\<in>set ps. \<not> within x (sp - 160) 160) \<longrightarrow> mem st2 x = mem st1 x"
      "contents st2 = contents (fold keyboard_push (fst ?t) st1)" "shift_pressed st2 = snd ?t"
      "filter (\<lambda>(p, _). p \<noteq> PORT) (outlog st2) =
        filter (\<lambda>(p, _). p \<noteq> PORT) (outlog st1) @ replicate (length ps) (0x20, 0x20)"
      "filter (\<lambda>(p, _). p = PORT) (outlog st2) =
        filter (\<lambda>(p, _). p = PORT) (outlog st1) @ map (Pair PORT) (fst ?t)"
    using Cons.IH [OF tx] Cons.prems(2) by auto
  have "contents st2 = contents (fold keyboard_push (if ?c = 0 then fst ?t else ?c # fst ?t) st)"
    using 1(4) 2(3) by (auto intro!: fold_push_cong split: if_splits)
  moreover have "key_interrupts (q # ps) st = Some (map fst (q # ps), st2)"
    using 1(1) 2(1) by (simp add: q)
  moreover have "mem st2 x = mem st x" if "\<forall>(r, sp)\<in>set (q # ps). \<not> within x (sp - 160) 160" for x
    using that 1(2) 2(2) by (simp add: q)
  moreover have "filter (\<lambda>(p, _). p = PORT) (outlog st2) = filter (\<lambda>(p, _). p = PORT) (outlog st) @
      map (Pair PORT) (if ?c = 0 then fst ?t else ?c # fst ?t)"
    using 1(5) 2(6) by (simp add: echo_def)
  moreover have "filter (\<lambda>(p, _). p \<noteq> PORT) (outlog st2) =
      filter (\<lambda>(p, _). p \<noteq> PORT) (outlog st) @ replicate (length (q # ps)) (0x20, 0x20)"
    using 1(5) 2(5) by (simp add: echo_def)
  ultimately show ?case using 2(4) unfolding typed fst_conv snd_conv by blast
qed

section \<open>Exceptions\<close>

text \<open>What is pushed stays below the stack pointer, whatever follows.\<close>

lemma saved_registers:
  fixes st :: "'a machine_scheme"
  assumes "kregion (sp - 8 * of_nat (length xs + 15)) (8 * (length xs + 15))"
  shows "\<exists>m. do { (sp, st) \<leftarrow> push_list xs sp st; push_list (pusha64 r) sp st } =
      Some (sp - 8 * of_nat (length xs + 15), st\<lparr>mem := m\<rparr>) \<and>
    (\<forall>x. \<not> within x (sp - 8 * of_nat (length xs + 15)) (8 * (length xs + 15)) \<longrightarrow> m x = mem st x)"
proof -
  let ?xs = "xs @ pusha64 r"
  have len: "length ?xs = length xs + 15" by (simp add: pusha64_def)
  show ?thesis
    using push_list_words [of "sp - 8 * of_nat (length ?xs)" ?xs st] assms
    unfolding len push_list_append diff_add_cancel by blast
qed

text \<open>What each exception sends to the serial port before the processor stops.\<close>

definition fault_message :: "u8 \<Rightarrow> u8 list" where
  "fault_message v =
     (if v = 0 then lit (''EXCEPTION: DIVIDE BY ZERO'' @ nl)
      else if v = 13 then
        lit (nl @ ''[SECURITY] General protection fault intercepted.'' @ nl @
          ''[SECURITY] A user process tried to do smth illegal.'' @ nl)
      else [])"

lemma isr0_handler_halts:
  assumes "tx_live st"
  shows "\<exists>st'. isr0_handler st = Some (Halted st') \<and> printed (fault_message 0) st st'"
proof -
  have "render Map.empty (''EXCEPTION: DIVIDE BY ZERO'' @ nl) [] = Some (fault_message 0)"
    by (simp add: fault_message_def)
  from kprintf_live [OF this assms] show ?thesis
    by (auto simp: isr0_handler_def fault_message_def)
qed

lemma isr13_handler_halts:
  assumes "tx_live st"
  shows "\<exists>st'. isr13_handler st = Some (Halted st') \<and> printed (fault_message 13) st st'"
proof -
  let ?a = "nl @ ''[SECURITY] General protection fault intercepted.'' @ nl"
  let ?b = "''[SECURITY] A user process tried to do smth illegal.'' @ nl"
  have "render Map.empty ?a [] = Some (lit ?a)" "render Map.empty ?b [] = Some (lit ?b)" by simp_all
  moreover have "List.length (lit ?a) \<le> 2147483647" "List.length (lit ?b) \<le> 2147483647" by simp_all
  ultimately obtain s t where 1: "kprintf ?a [] st = Some s" "printed (lit ?a) st s"
      and 2: "kprintf ?b [] s = Some t" "printed (lit ?b) s t"
    using kprintf_live assms printed_tx_live by metis
  have "fault_message 13 = lit ?a @ lit ?b" by (simp add: fault_message_def)
  then show ?thesis
    using 1(1) 2(1) printed_trans [OF 1(2) 2(2)] by (auto simp: isr13_handler_def)
qed

text \<open>A handler that stops the processor: no stub comes to its \<open>popa64\<close>.\<close>

lemma fault_saved:
  fixes st :: "'a machine_scheme"
  assumes "kregion (sp - 168) 168" and "length xs = 6"
  shows "\<exists>m. do { (sp, st) \<leftarrow> push_list xs sp st; push_list (pusha64 r) sp st } =
      Some (sp - 168, st\<lparr>mem := m\<rparr>) \<and> (\<forall>x. \<not> within x (sp - 168) 168 \<longrightarrow> m x = mem st x)"
  using saved_registers [of sp xs st r] assms by simp

lemma isr0_stops:
  fixes st :: "'a machine_scheme"
  assumes "kregion (sp - 160) 160" and "tx_live st"
  shows "\<exists>st'. isr0 r sp st = Some (None, st') \<and> outlog st' = outlog st @ map (Pair PORT) (fault_message 0) \<and>
    (\<forall>x. \<not> within x (sp - 160) 160 \<longrightarrow> mem st' x = mem st x)"
proof -
  obtain m where m: "do { (sp, st) \<leftarrow> push_list (cpu_frame r) sp st; push_list (pusha64 r) sp st } =
        Some (sp - 160, st\<lparr>mem := m\<rparr>)"
      "\<forall>x. \<not> within x (sp - 160) 160 \<longrightarrow> m x = mem st x"
    using save_frame [OF assms(1), of r st] by blast
  have "tx_live (st\<lparr>mem := m\<rparr>)" using assms(2) by (simp add: tx_live_def)
  from isr0_handler_halts [OF this] obtain st' where
    st': "isr0_handler (st\<lparr>mem := m\<rparr>) = Some (Halted st')" "printed (fault_message 0) (st\<lparr>mem := m\<rparr>) st'"
    by blast
  then have "isr0 r sp st = Some (None, st')"
    using m(1) by (auto simp: isr0_def bind_eq_Some_conv)
  then show ?thesis using m(2) printed_frame [OF st'(2)] by auto
qed

lemma isr13_stops:
  fixes st :: "'a machine_scheme"
  assumes "kregion (sp - 168) 168" and "tx_live st"
  shows "\<exists>st'. isr13 r e sp st = Some (None, st') \<and>
    outlog st' = outlog st @ map (Pair PORT) (fault_message 13) \<and>
    (\<forall>x. \<not> within x (sp - 168) 168 \<longrightarrow> mem st' x = mem st x)"
proof -
  obtain m where m: "do { (sp, st) \<leftarrow> push_list (cpu_frame r @ [e]) sp st; push_list (pusha64 r) sp st } =
        Some (sp - 168, st\<lparr>mem := m\<rparr>)"
      "\<forall>x. \<not> within x (sp - 168) 168 \<longrightarrow> m x = mem st x"
    using fault_saved [OF assms(1), of "cpu_frame r @ [e]" st r] by (auto simp: cpu_frame_def)
  have "tx_live (st\<lparr>mem := m\<rparr>)" using assms(2) by (simp add: tx_live_def)
  from isr13_handler_halts [OF this] obtain st' where
    st': "isr13_handler (st\<lparr>mem := m\<rparr>) = Some (Halted st')"
      "printed (fault_message 13) (st\<lparr>mem := m\<rparr>) st'" by blast
  then have "isr13 r e sp st = Some (None, st')"
    using m(1) by (auto simp: isr13_def bind_eq_Some_conv)
  then show ?thesis using m(2) printed_frame [OF st'(2)] by auto
qed

lemma isr14_stops:
  fixes st :: "'a machine_scheme"
  assumes "kregion (sp - 168) 168"
  shows "\<exists>st'. isr14 r e sp st = Some (None, st') \<and> outlog st' = outlog st \<and>
    (\<forall>x. \<not> within x (sp - 168) 168 \<longrightarrow> mem st' x = mem st x)"
proof -
  obtain m where m: "do { (sp, st) \<leftarrow> push_list (cpu_frame r @ [e]) sp st; push_list (pusha64 r) sp st } =
        Some (sp - 168, st\<lparr>mem := m\<rparr>)"
      "\<forall>x. \<not> within x (sp - 168) 168 \<longrightarrow> m x = mem st x"
    using fault_saved [OF assms, of "cpu_frame r @ [e]" st r] by (auto simp: cpu_frame_def)
  then have "isr14 r e sp st = Some (None, st\<lparr>mem := m\<rparr>)"
    by (auto simp: isr14_def isr14_handler_def bind_eq_Some_conv)
  then show ?thesis using m(2) by (intro exI [of _ "st\<lparr>mem := m\<rparr>"]) simp
qed

section \<open>The stubs behind the gates\<close>

text \<open>
  C25. The keyboard driver implements the typing specification and the programs do not notice:
  whatever registers and stacks the interrupts meet, every program goes on with all its
  registers, and no memory changes outside the frames saved below those stacks. The buffer then
  holds what it held and the characters typed, as far as they fit; the shift state is that of
  the last shift key event; every typed character was echoed to the serial port, in order, and
  apart from that exactly one byte was sent for each interrupt, the end of interrupt 0x20 to
  port 0x20 of the first controller.
\<close>

theorem keyboard_interrupts_type:
  assumes "tx_live st" and "\<forall>(r, sp)\<in>set ps. kregion (sp - 160) 160"
  shows "\<exists>st'. key_interrupts ps st = Some (map fst ps, st') \<and>
    (\<forall>x. (\<forall>(r, sp)\<in>set ps. \<not> within x (sp - 160) 160) \<longrightarrow> mem st' x = mem st x) \<and>
    (let (ks, sh) = typed (shift_pressed st) (scancodes st (length ps)) in
      contents st' = contents st @ take (255 - length (contents st)) ks \<and> shift_pressed st' = sh \<and>
      filter (\<lambda>(p, _). p = PORT) (outlog st') =
        filter (\<lambda>(p, _). p = PORT) (outlog st) @ map (Pair PORT) ks \<and>
      filter (\<lambda>(p, _). p \<noteq> PORT) (outlog st') =
        filter (\<lambda>(p, _). p \<noteq> PORT) (outlog st) @ replicate (length ps) (0x20, 0x20))"
  using key_interrupts_typed [OF assms] by (auto simp: kbd.push_all split_beta Let_def)

definition some_regs :: "u64 \<Rightarrow> registers" where
  "some_regs n = \<lparr>rdi = 1, rsi = 2, rbp = n, rbx = 3, rdx = 4, rcx = 5, rax = 6, r8 = 7, r9 = 8,
     r10 = 9, r11 = n, r12 = 0, r13 = 0, r14 = n + 1, r15 = 10, rip = 0x400000 + n, cs = 0x1B,
     rflags = 0x202, rsp = 0x7FFFF0 - n, ss = 0x23\<rparr>"

theorem keyboard_interrupts_type_witness:
  "\<exists>st'. key_interrupts (map (\<lambda>n. (some_regs n, 0xFFFF900000008000)) [1, 2, 3, 4, 5, 6]) demo_keyboard =
      Some (map some_regs [1, 2, 3, 4, 5, 6], st') \<and> contents st' = ascii ''Aa'' @ [10]"
proof -
  let ?ps = "map (\<lambda>n. (some_regs n, 0xFFFF900000008000 :: u64)) [1, 2, 3, 4, 5, 6]"
  have len: "length ?ps = 6" by simp
  have sc: "scancodes demo_keyboard 6 = [0x2A, 0x1E, 0xAA, 0x1E, 0x9E, 0x1C]"
    by (simp add: scancodes_def demo_keyboard_def upt_rec)
  have "shift_pressed demo_keyboard = False" by (simp add: demo_keyboard_def)
  then have t: "typed (shift_pressed demo_keyboard) (scancodes demo_keyboard (length ?ps)) =
      (ascii ''Aa'' @ [10], False)"
    unfolding len by (simp add: sc next_shift_def key_of_def kbd_us_def kbd_us_shift_def)
  have "\<forall>(r, sp)\<in>set ?ps. kregion (sp - 160) 160" by (auto simp: kregion_def khalf_def)
  from keyboard_interrupts_type [OF demo_keyboard(2) this] obtain st' where
    "key_interrupts ?ps demo_keyboard = Some (map fst ?ps, st')"
    "contents st' = ascii ''Aa'' @ [10]" unfolding t by auto
  then show ?thesis by auto
qed

text \<open>An exception has stopped the processor: what was sent, and what may have changed.\<close>

definition stopped :: "u8 \<Rightarrow> u64 \<Rightarrow> 'a machine_scheme \<Rightarrow> 'a machine_scheme \<Rightarrow> bool" where
  "stopped v sp st s \<longleftrightarrow> outlog s = outlog st @ map (Pair PORT) (fault_message v) \<and>
     (\<forall>x. \<not> within x (sp - 168) 168 \<longrightarrow> mem s x = mem st x)"



end
