(* ===== verification/Fs.thy ===== *)
theory Fs
  imports Interrupts
begin

text \<open>
  The ramdisk (kernel/kernel/fs.c): a USTAR archive in memory, read in place. \<open>archive\<close>
  describes the bytes of an archive as a list of headers, records of type \<open>tar_header\<close> with the
  fields of the C structure in their order, and file contents; the lemmas show what each function
  finds in it. The loops follow the sizes the headers give and need not end on other bytes, so
  they are \<open>partial_function\<close>s.
\<close>

unbundle bit_operations_syntax

section \<open>fs.c\<close>

record tar_header =
  filename :: "u8 list"
  mode :: "u8 list"
  uid :: "u8 list"
  gid :: "u8 list"
  tsize :: "u8 list"
  mtime :: "u8 list"
  chksum :: "u8 list"
  typeflag :: u8
  linkname :: "u8 list"
  magic :: "u8 list"
  version :: "u8 list"
  uname :: "u8 list"
  gname :: "u8 list"
  devmajor :: "u8 list"
  devminor :: "u8 list"
  prefix :: "u8 list"

text \<open>The offset of \<open>size\<close> in the structure, whose members are arrays of characters.\<close>

abbreviation size_at :: u64 where "size_at \<equiv> 100 + 8 + 8 + 8"

record fs = tables +
  fs_start_addr :: u64

fun get_size_loop :: "nat \<Rightarrow> u64 \<Rightarrow> u32 \<Rightarrow> u32 \<Rightarrow> 'a machine_scheme \<Rightarrow> u32 option" where
  "get_size_loop 0 p count sz st = Some sz"
| "get_size_loop (Suc j) p count sz st =
     do {
       c \<leftarrow> ld8 st (p + of_nat j);
       get_size_loop j p (count * 8) (sz + (scast c - 0x30) * count) st
     }"

definition get_size :: "u64 \<Rightarrow> 'a machine_scheme \<Rightarrow> u32 option" where
  "get_size p st = get_size_loop 11 p 1 0 st"

text \<open>\<open>next_offset\<close> is computed in \<open>unsigned int\<close> and only then widened.\<close>

definition next_offset :: "u32 \<Rightarrow> u64" where
  "next_offset sz = ucast (512 + (sz + 511) div 512 * 512)"

partial_function (option) fs_init_loop :: "u64 \<Rightarrow> 'a machine_scheme \<Rightarrow> 'a machine_scheme option" where
  "fs_init_loop header st =
     do {
       c \<leftarrow> ld8 st header;
       if c \<noteq> 0 then
         do {
           sz \<leftarrow> get_size (header + size_at) st;
           st \<leftarrow> kprintf (''  Found file: %s (%d bytes)'' @ nl) [header, ucast sz] st;
           fs_init_loop (header + next_offset sz) st
         }
       else Some st
     }"

definition fs_init :: "u64 \<Rightarrow> 'a fs_scheme \<Rightarrow> 'a fs_scheme option" where
  "fs_init ramdisk_addr st =
     do {
       let st = st\<lparr>fs_start_addr := ramdisk_addr\<rparr>;
       st \<leftarrow> kprintf (''FileSystem: initialized at 0x%x'' @ nl) [fs_start_addr st] st;
       fs_init_loop (fs_start_addr st) st
     }"

fun fs_print_loop :: "nat \<Rightarrow> u64 \<Rightarrow> u32 \<Rightarrow> 'a machine_scheme \<Rightarrow> 'a machine_scheme option" where
  "fs_print_loop 0 content i st = Some st"
| "fs_print_loop (Suc n) content i st =
     do {
       c \<leftarrow> ld8 st (content + ucast i);
       st \<leftarrow> kprintf ''%c'' [scast c] st;
       fs_print_loop n content (i + 1) st
     }"

partial_function (option) fs_cat_loop :: "u64 \<Rightarrow> u64 \<Rightarrow> 'a machine_scheme \<Rightarrow> 'a machine_scheme option" where
  "fs_cat_loop header target_filename st =
     do {
       c \<leftarrow> ld8 st header;
       if c \<noteq> 0 then
         do {
           sz \<leftarrow> get_size (header + size_at) st;
           r \<leftarrow> strcmp header target_filename st;
           if r = 0 then
             do {
               st \<leftarrow> kprintf (''--- contents of file %s ---'' @ nl) [target_filename] st;
               st \<leftarrow> fs_print_loop (unat sz) (header + 512) 0 st;
               kprintf (''--- end of file ---'' @ nl) [] st
             }
           else fs_cat_loop (header + next_offset sz) target_filename st
         }
       else kprintf (''File not found: %s'' @ nl) [target_filename] st
     }"

definition fs_cat :: "u64 \<Rightarrow> 'a fs_scheme \<Rightarrow> 'a fs_scheme option" where
  "fs_cat target_filename st = fs_cat_loop (fs_start_addr st) target_filename st"

partial_function (option) fs_get_file_loop ::
  "u64 \<Rightarrow> u64 \<Rightarrow> u64 \<Rightarrow> 'a machine_scheme \<Rightarrow> (u64 \<times> 'a machine_scheme) option" where
  "fs_get_file_loop header file out_size st =
     do {
       c \<leftarrow> ld8 st header;
       if c \<noteq> 0 then
         do {
           sz \<leftarrow> get_size (header + size_at) st;
           r \<leftarrow> strcmp header file st;
           if r = 0 then
             do {
               st \<leftarrow> (if out_size \<noteq> 0 then st64 st out_size (ucast sz) else Some st);
               Some (header + 512, st)
             }
           else fs_get_file_loop (header + next_offset sz) file out_size st
         }
       else Some (0, st)
     }"

definition fs_get_file :: "u64 \<Rightarrow> u64 \<Rightarrow> 'a fs_scheme \<Rightarrow> (u64 \<times> 'a fs_scheme) option" where
  "fs_get_file file out_size st = fs_get_file_loop (fs_start_addr st) file out_size st"

section \<open>Octal sizes\<close>

definition octal :: "nat \<Rightarrow> u8 list" where
  "octal n = map (\<lambda>i. 0x30 + of_nat (n div 8 ^ (10 - i) mod 8)) [0..<11]"

lemma octal_digit:
  "(scast (0x30 + of_nat (k mod 8) :: u8) - 0x30 :: u32) = of_nat (k mod 8)"
proof -
  have "k mod 8 \<in> {0, 1, 2, 3, 4, 5, 6, 7}" by auto
  then show ?thesis by (auto simp: scast_nonneg)
qed

lemma get_size_loop_octal:
  fixes st :: "'a machine_scheme"
  assumes "\<forall>i<11. ld8 st (p + of_nat i) = Some (octal n ! i)"
  shows "j \<le> 11 \<Longrightarrow> get_size_loop j p (of_nat (8 ^ (11 - j))) (of_nat (n mod 8 ^ (11 - j))) st =
    Some (of_nat (n mod 8 ^ 11))"
proof (induction j)
  case (Suc j)
  let ?k = "10 - j"
  have j: "11 - j = Suc ?k" "11 - Suc j = ?k" using Suc.prems by simp_all
  have "octal n ! j = 0x30 + of_nat (n div 8 ^ ?k mod 8)"
    using Suc.prems by (simp add: octal_def)
  then have digit: "(scast (octal n ! j) - 0x30 :: u32) = of_nat (n div 8 ^ ?k mod 8)"
    by (simp only: octal_digit)
  have "n mod 8 ^ Suc ?k = n mod 8 ^ ?k + n div 8 ^ ?k mod 8 * 8 ^ ?k"
    using mod_mult2_eq [of n "8 ^ ?k" 8] by (simp add: mult.commute)
  then have "(of_nat (n mod 8 ^ ?k) + of_nat (n div 8 ^ ?k mod 8) * of_nat (8 ^ ?k) :: u32) =
      of_nat (n mod 8 ^ Suc ?k)"
    by (simp only: of_nat_add of_nat_mult)
  moreover have "(of_nat (8 ^ ?k) * 8 :: u32) = of_nat (8 ^ Suc ?k)" by simp
  moreover have "ld8 st (p + of_nat j) = Some (octal n ! j)" using assms Suc.prems by simp
  ultimately show ?case
    using Suc.IH Suc.prems digit by (simp only: get_size_loop.simps j) simp
qed simp

lemma get_size_octal:
  assumes "kregion p 12" and "bytes (mem st) p 11 = octal n" and "n < 2 ^ 32"
  shows "get_size p st = Some (of_nat n)"
proof -
  have "ld8 st (p + of_nat i) = Some (octal n ! i)" if "i < 11" for i
    using that assms(1) assms(2) [symmetric] kregion_offset [of p 12 i]
    by (simp add: nth_bytes ld8_kernel kregion_def)
  then show ?thesis
    using get_size_loop_octal [of st p n 11] assms(3) by (simp add: get_size_def)
qed

section \<open>Archives\<close>

text \<open>The five hundred bytes of a header, and when a header describes a file of size \<open>n\<close>.\<close>

definition header_bytes :: "tar_header \<Rightarrow> u8 list" where
  "header_bytes h = filename h @ mode h @ uid h @ gid h @ tsize h @ mtime h @ chksum h @
     [typeflag h] @ linkname h @ magic h @ version h @ uname h @ gname h @ devmajor h @
     devminor h @ prefix h"

definition file_name :: "tar_header \<Rightarrow> u8 list" where
  "file_name h = takeWhile (\<lambda>c. c \<noteq> 0) (filename h)"

definition header_ok :: "tar_header \<Rightarrow> nat \<Rightarrow> bool" where
  "header_ok h n \<longleftrightarrow> List.length (filename h) = 100 \<and> List.length (mode h) = 8 \<and>
     List.length (uid h) = 8 \<and> List.length (gid h) = 8 \<and> List.length (tsize h) = 12 \<and>
     List.length (header_bytes h) = 500 \<and>
     filename h ! 0 \<noteq> 0 \<and> 0 \<in> set (filename h) \<and> take 11 (tsize h) = octal n \<and>
     n \<le> 2 ^ 32 - 1024"

definition file_span :: "nat \<Rightarrow> nat" where
  "file_span n = 512 + (n + 511) div 512 * 512"

type_synonym files = "(tar_header \<times> u8 list) list"

fun archive_size :: "files \<Rightarrow> nat" where
  "archive_size [] = 1"
| "archive_size ((h, d) # fs) = file_span (List.length d) + archive_size fs"

fun archive :: "(u64 \<Rightarrow> u8) \<Rightarrow> u64 \<Rightarrow> files \<Rightarrow> bool" where
  "archive m a [] \<longleftrightarrow> m a = 0"
| "archive m a ((h, d) # fs) \<longleftrightarrow>
     header_ok h (List.length d) \<and> bytes m a 500 = header_bytes h \<and>
     bytes m (a + 512) (List.length d) = d \<and> archive m (a + of_nat (file_span (List.length d))) fs"

text \<open>Where in the archive the contents of the first file of a name begin.\<close>

fun data_offset :: "files \<Rightarrow> u8 list \<Rightarrow> nat" where
  "data_offset [] name = 0"
| "data_offset ((h, d) # fs) name =
     (if file_name h = name then 512 else file_span (List.length d) + data_offset fs name)"

definition names :: "files \<Rightarrow> (u8 list \<times> u8 list) list" where
  "names fs = map (\<lambda>(h, d). (file_name h, d)) fs"

lemma names_simps [simp]:
  "names [] = []" "names ((h, d) # fs) = (file_name h, d) # names fs"
  by (simp_all add: names_def)

lemma next_offset_span:
  assumes "n \<le> 2 ^ 32 - 1024"
  shows "next_offset (of_nat n) = of_nat (file_span n)"
proof -
  have "unat (of_nat n + 511 :: u32) = n + 511"
    using assms by (subst unat_add_lem [THEN iffD1]) (simp_all add: unsigned_of_nat take_bit_eq_mod)
  then have "unat ((of_nat n + 511 :: u32) div 512) = (n + 511) div 512" by (simp add: unat_div)
  moreover have le: "(n + 511) div 512 * 512 \<le> 2 ^ 32 - 513"
  proof -
    have "(n + 511) div 512 * 512 \<le> n + 511" by (rule div_times_less_eq_dividend)
    also have "\<dots> \<le> 2 ^ 32 - 513" using assms by simp
    finally show ?thesis .
  qed
  ultimately have "unat ((of_nat n + 511 :: u32) div 512 * 512) = (n + 511) div 512 * 512"
    by (subst unat_mult_lem [THEN iffD1]) simp_all
  then have "unat (512 + (of_nat n + 511 :: u32) div 512 * 512) = file_span n"
    using le by (subst unat_add_lem [THEN iffD1]) (simp_all add: file_span_def)
  then show ?thesis by (metis next_offset_def of_nat_unat)
qed

lemma bytes_append: "bytes m p (i + n) = bytes m p i @ bytes m (p + of_nat i) n"
  by (induction i arbitrary: p) (simp_all add: ac_simps)

lemma bytes_field:
  assumes "bytes m p n = xs @ ys @ zs" and "List.length xs = i" and "List.length ys = k"
  shows "bytes m (p + of_nat i) k = ys"
proof -
  have "n = i + (k + List.length zs)"
    using assms by (metis length_append length_bytes)
  then show ?thesis
    using assms by (simp add: bytes_append [of m p i] bytes_append [of m "p + of_nat i" k])
qed

text \<open>What the loops read of a header: its name, as a terminated string, and its size.\<close>

lemma header_reads:
  assumes h: "header_ok h n" "bytes m a 500 = header_bytes h"
  shows "cstring m a (file_name h)" "file_name h \<noteq> []" "List.length (file_name h) < 100"
    "bytes m (a + size_at) 11 = octal n" "m a \<noteq> 0"
proof -
  have len: "List.length (filename h) = 100" "filename h ! 0 \<noteq> 0" "0 \<in> set (filename h)"
    using h(1) by (simp_all add: header_ok_def)
  let ?rest = "mode h @ uid h @ gid h @ tsize h @ mtime h @ chksum h @ [typeflag h] @ linkname h @
    magic h @ version h @ uname h @ gname h @ devmajor h @ devminor h @ prefix h"
  have name: "bytes m a 100 = filename h"
    using bytes_field [of m a 500 "[]" "filename h" ?rest 0 100] h(2) len(1)
    by (simp add: header_bytes_def)
  let ?before = "filename h @ mode h @ uid h @ gid h"
  let ?after = "mtime h @ chksum h @ [typeflag h] @ linkname h @ magic h @ version h @ uname h @
    gname h @ devmajor h @ devminor h @ prefix h"
  obtain t where t: "tsize h = take 11 (tsize h) @ t" by (metis append_take_drop_id)
  have "header_bytes h = ?before @ tsize h @ ?after" by (simp add: header_bytes_def)
  also have "\<dots> = ?before @ take 11 (tsize h) @ t @ ?after" by (subst t) simp
  finally have "bytes m a 500 = ?before @ take 11 (tsize h) @ t @ ?after" using h(2) by simp
  then have "bytes m (a + of_nat 124) 11 = take 11 (tsize h)"
    by (rule bytes_field) (use h(1) in \<open>simp_all add: header_ok_def octal_def\<close>)
  moreover have "take 11 (tsize h) = octal n" using h(1) by (simp only: header_ok_def)
  ultimately show "bytes m (a + size_at) 11 = octal n" by simp
  define k where "k = List.length (file_name h)"
  have k: "file_name h = take k (filename h)"
    unfolding k_def file_name_def by (rule takeWhile_eq_take)
  have "file_name h \<noteq> filename h" using len(3) by (auto simp: file_name_def takeWhile_eq_all_conv)
  then have "k \<noteq> 100" using k len(1) by auto
  moreover have "k \<le> 100"
    using length_takeWhile_le [of "\<lambda>c. c \<noteq> 0" "filename h"] len(1) by (simp add: k_def file_name_def)
  ultimately have k_less: "k < 100" by simp
  then show "List.length (file_name h) < 100" by (simp add: k_def)
  have at_k: "filename h ! k = 0"
    using k_less len(1) nth_length_takeWhile [of "\<lambda>c. c \<noteq> 0" "filename h"]
    by (simp add: k_def file_name_def)
  have m: "m (a + of_nat i) = filename h ! i" if "i < 100" for i
    using nth_bytes [OF that, of m a] name by simp
  have "bytes m a k = file_name h"
    using name k k_less bytes_append [of m a k "100 - k"] by (metis append_eq_conv_conj
      add_diff_inverse_nat length_bytes less_imp_not_less)
  moreover have "0 \<notin> set (file_name h)" by (auto simp: file_name_def dest: set_takeWhileD)
  ultimately show "cstring m a (file_name h)"
    using m [OF k_less] at_k by (simp add: cstring_iff k_def)
  show "m a \<noteq> 0" using m [of 0] len(2) by simp
  show "file_name h \<noteq> []"
    using len by (cases "filename h") (auto simp: file_name_def)
qed

lemma archive_size_pos: "0 < archive_size fs"
  by (induction fs rule: archive_size.induct) simp_all

text \<open>The facts about the first file of an archive that every loop uses.\<close>

lemma archive_first:
  assumes "archive (mem st) a ((h, d) # fs)" and "kregion a (archive_size ((h, d) # fs))"
  shows "ld8 st a = Some (mem st a)" "mem st a \<noteq> 0"
    "get_size (a + size_at) st = Some (of_nat (List.length d))"
    "kregion a (Suc (List.length (file_name h)))" "cstring (mem st) a (file_name h)"
    "a + next_offset (of_nat (List.length d)) = a + of_nat (file_span (List.length d))"
    "kregion (a + 512) (List.length d)" "a + 512 \<noteq> 0"
    "archive (mem st) (a + next_offset (of_nat (List.length d))) fs"
    "kregion (a + next_offset (of_nat (List.length d))) (archive_size fs)"
    "List.length (file_name h) < 100"
proof -
  let ?n = "List.length d"
  have ok: "header_ok h ?n" "bytes (mem st) a 500 = header_bytes h" using assms(1) by simp_all
  note reads = header_reads [OF ok]
  have n: "?n \<le> 2 ^ 32 - 1024" using ok(1) by (simp add: header_ok_def)
  have span: "512 + ?n \<le> file_span ?n"
    using dividend_less_times_div [of 512 "?n + 511"] by (simp add: file_span_def)
  have reg: "kregion a (file_span ?n + archive_size fs)" using assms(2) by simp
  have r512: "kregion (a + 512) ?n"
    using kregion_offset [of a "512 + ?n" 512] kregion_mono [OF reg, of "512 + ?n"] span by simp
  then show "kregion (a + 512) ?n" .
  have "kregion (a + of_nat 124) 12"
    using kregion_offset [of a "124 + 12" 124] kregion_mono [OF reg, of "124 + 12"] span by simp
  then show "get_size (a + size_at) st = Some (of_nat ?n)"
    using n reads(4) by (intro get_size_octal) simp_all
  have "khalf a" using reg span by (auto simp: kregion_def)
  then show "ld8 st a = Some (mem st a)" "a + 512 \<noteq> 0"
    using reg kregion_unat_add [OF reg, of 512] span archive_size_pos [of fs]
    by (auto simp: ld8_kernel)
  show "kregion a (Suc (List.length (file_name h)))"
    using reads(3) span by (intro kregion_mono [OF reg]) simp
  show "a + next_offset (of_nat ?n) = a + of_nat (file_span ?n)" by (simp only: next_offset_span [OF n])
  then show "archive (mem st) (a + next_offset (of_nat ?n)) fs"
    "kregion (a + next_offset (of_nat ?n)) (archive_size fs)"
    using assms kregion_offset [OF reg, of "file_span ?n"] by simp_all
qed (use assms header_reads in auto)

lemma span_ge: "512 + n \<le> file_span n"
  using dividend_less_times_div [of 512 "n + 511"] by (simp add: file_span_def)

section \<open>Finding and printing files\<close>

lemma fs_get_file_loop_archive:
  fixes st :: "'a machine_scheme"
  assumes f: "kregion f (Suc (List.length name))" "cstring (mem st) f name"
    and out: "out = 0 \<or> kregion out 8"
  shows "archive (mem st) a fs \<Longrightarrow> kregion a (archive_size fs) \<Longrightarrow>
    (case map_of (names fs) name of
       None \<Rightarrow> fs_get_file_loop a f out st = Some (0, st)
     | Some d \<Rightarrow> \<exists>p. fs_get_file_loop a f out st =
           Some (p, if out = 0 then st else st\<lparr>mem := stw 8 (mem st) out (of_nat (List.length d) :: u64)\<rparr>) \<and>
         p \<noteq> 0 \<and> kregion p (List.length d) \<and> bytes (mem st) p (List.length d) = d \<and>
         p = a + of_nat (data_offset fs name) \<and> data_offset fs name + List.length d \<le> archive_size fs)"
proof (induction fs arbitrary: a)
  case Nil
  then have "ld8 st a = Some 0" by (simp add: ld8_kernel)
  then show ?case by (simp add: fs_get_file_loop.simps)
next
  case (Cons x fs)
  obtain h d where x: "x = (h, d)" by (cases x)
  note first = archive_first [OF Cons.prems(1,2) [unfolded x]]
  obtain r where r: "strcmp a f st = Some r" "r = 0 \<longleftrightarrow> file_name h = name"
    using strcmp_kernel [OF first(4) f(1) first(5) f(2)] by blast
  note step = fs_get_file_loop.simps [of a f out st, unfolded first(1,3) r(1), simplified]
  show ?case
  proof (cases "file_name h = name")
    case True
    have d: "List.length d \<le> 4294966272" using Cons.prems(1) x by (simp add: header_ok_def)
    then have "(ucast (of_nat (List.length d) :: u32) :: u64) = of_nat (List.length d)"
      by (simp add: word_unat_eq_iff unsigned_ucast_eq unsigned_of_nat take_bit_eq_mod)
    moreover have "bytes (mem st) (a + 512) (List.length d) = d" using Cons.prems(1) x by simp
    moreover have "512 + List.length d \<le> archive_size (x # fs)"
      using span_ge [of "List.length d"] x by simp
    ultimately show ?thesis
      using True step first(2,7,8) r(2) x out
      by (cases "out = 0") (auto simp: kernel_mem)
  next
    case False
    show ?thesis
      using False Cons.IH [OF first(9,10)] step first(2,6) r(2) x
      by (cases "map_of (names fs) name") (auto simp: add.assoc)
  qed
qed

text \<open>\<open>printf\<close> with one string among its arguments, in kernel memory.\<close>

lemma kprintf_string:
  assumes "kregion a (Suc (List.length s))" and "cstring (mem st) a s" and "tx_live st"
    and "render [a \<mapsto> s] fmt args = Some out" and "List.length out \<le> 2147483647"
  shows "\<exists>st'. kprintf fmt args st = Some st' \<and> printed out st st'"
proof -
  have "strs_ok (mem st) [a \<mapsto> s]" using assms(1,2) by (simp add: strs_ok_def)
  then show ?thesis
    using printf_render [of st "[a \<mapsto> s]" fmt args out] assms(3-5) by (auto simp: kprintf_def)
qed

definition found_line :: "tar_header \<Rightarrow> u8 list \<Rightarrow> u8 list" where
  "found_line h d = lit ''  Found file: '' @ file_name h @ lit '' ('' @
     number_text False (of_nat (List.length d)) @ lit ('' bytes)'' @ nl)"

lemma fs_init_loop_archive:
  fixes st :: "'a machine_scheme"
  shows "archive (mem st) a fs \<Longrightarrow> kregion a (archive_size fs) \<Longrightarrow> tx_live st \<Longrightarrow>
    \<exists>st'. fs_init_loop a st = Some st' \<and> printed (concat (map (\<lambda>(h, d). found_line h d) fs)) st st'"
proof (induction fs arbitrary: a st)
  case Nil
  then have "ld8 st a = Some 0" by (simp add: ld8_kernel)
  then show ?case by (simp add: fs_init_loop.simps)
next
  case (Cons x fs)
  obtain h d where x: "x = (h, d)" by (cases x)
  note first = archive_first [OF Cons.prems(1,2) [unfolded x]]
  let ?size = "of_nat (List.length d) :: u32"
  have "render [a \<mapsto> file_name h] (''  Found file: %s (%d bytes)'' @ nl) [a, ucast ?size] =
      Some (found_line h d)"
    by (simp add: found_line_def)
  moreover have "List.length (found_line h d) \<le> 2147483647"
    using first(11) length_number_text [of False ?size] by (simp add: found_line_def)
  ultimately obtain st1 where
    1: "kprintf (''  Found file: %s (%d bytes)'' @ nl) [a, ucast ?size] st = Some st1"
      "printed (found_line h d) st st1"
    using kprintf_string [OF first(4,5) Cons.prems(3)] by blast
  obtain st2 where 2: "fs_init_loop (a + next_offset ?size) st1 = Some st2"
      "printed (concat (map (\<lambda>(h, d). found_line h d) fs)) st1 st2"
    using Cons.IH [of st1 "a + next_offset ?size"] first(9,10) Cons.prems(3)
    by (auto simp: printed_frame [OF 1(2)] printed_tx_live [OF 1(2)])
  have "fs_init_loop a st = Some st2"
    using first(1-3) 1(1) 2(1) by (subst fs_init_loop.simps) simp
  then show ?case using printed_trans [OF 1(2) 2(2)] x by auto
qed

lemma ucast_scast_byte: "(ucast (scast (w :: u8) :: u64) :: u8) = w"
  by (rule bit_word_eqI) (auto simp: bit_simps)

lemma fs_print_loop_live:
  fixes st :: "'a machine_scheme"
  shows "kregion p (i + n) \<Longrightarrow> i + n < 2 ^ 32 \<Longrightarrow> tx_live st \<Longrightarrow>
    \<exists>st'. fs_print_loop n p (of_nat i) st = Some st' \<and> printed (bytes (mem st) (p + of_nat i) n) st st'"
proof (induction n arbitrary: i st)
  case (Suc n)
  have u: "(ucast (of_nat i :: u32) :: u64) = of_nat i"
    using Suc.prems(2) by (simp add: word_unat_eq_iff unsigned_ucast_eq unsigned_of_nat take_bit_eq_mod)
  let ?c = "mem st (p + of_nat i)"
  have "khalf (p + of_nat i)" using kregion_offset [OF Suc.prems(1), of i] by (simp add: kregion_def)
  then have c: "ld8 st (p + of_nat i) = Some ?c" by (simp add: ld8_kernel)
  have "render Map.empty ''%c'' [scast ?c] = Some [?c]" by (simp add: ucast_scast_byte)
  then obtain st1 where 1: "kprintf ''%c'' [scast ?c] st = Some st1" "printed [?c] st st1"
    using kprintf_live [of "''%c''" "[scast ?c]" "[?c]" st] Suc.prems(3) by auto
  obtain st2 where 2: "fs_print_loop n p (of_nat (Suc i)) st1 = Some st2"
      "printed (bytes (mem st1) (p + of_nat (Suc i)) n) st1 st2"
    using Suc.IH [of "Suc i" st1] Suc.prems by (auto simp: printed_tx_live [OF 1(2)])
  show ?case
    using printed_trans [OF 1(2) 2(2)] 1(1) 2(1) c u
    by (auto simp: printed_frame [OF 1(2)] add.commute add.left_commute)
qed simp

text \<open>What \<open>fs_cat\<close> prints: the contents between two lines, or that there is no such file.\<close>

definition cat_text :: "files \<Rightarrow> u8 list \<Rightarrow> u8 list" where
  "cat_text fs name =
     (case map_of (names fs) name of
        None \<Rightarrow> lit ''File not found: '' @ name @ lit nl
      | Some d \<Rightarrow> lit ''--- contents of file '' @ name @ lit ('' ---'' @ nl) @ d @
          lit (''--- end of file ---'' @ nl))"

lemma fs_cat_loop_archive:
  fixes st :: "'a machine_scheme"
  assumes f: "kregion f (Suc (List.length name))" "cstring (mem st) f name"
    and len: "List.length name \<le> 2147483000" and live: "tx_live st"
  shows "archive (mem st) a fs \<Longrightarrow> kregion a (archive_size fs) \<Longrightarrow>
    \<exists>st'. fs_cat_loop a f st = Some st' \<and> printed (cat_text fs name) st st'"
proof (induction fs arbitrary: a)
  case Nil
  have "render [f \<mapsto> name] (''File not found: %s'' @ nl) [f] = Some (cat_text [] name)"
    by (simp add: cat_text_def)
  then have "\<exists>st'. kprintf (''File not found: %s'' @ nl) [f] st = Some st' \<and>
      printed (cat_text [] name) st st'"
    using len by (intro kprintf_string [OF f live]) (simp_all add: cat_text_def)
  moreover have "ld8 st a = Some 0" using Nil by (simp add: ld8_kernel)
  ultimately show ?case by (simp add: fs_cat_loop.simps)
next
  case (Cons x fs)
  obtain h d where x: "x = (h, d)" by (cases x)
  note first = archive_first [OF Cons.prems(1,2) [unfolded x]]
  obtain r where r: "strcmp a f st = Some r" "r = 0 \<longleftrightarrow> file_name h = name"
    using strcmp_kernel [OF first(4) f(1) first(5) f(2)] by blast
  note step = fs_cat_loop.simps [of a f st, unfolded first(1,3) r(1), simplified]
  show ?case
  proof (cases "file_name h = name")
    case True
    let ?head = "lit ''--- contents of file '' @ name @ lit ('' ---'' @ nl)"
    let ?tail = "lit (''--- end of file ---'' @ nl)"
    have d: "List.length d \<le> 4294966272" using Cons.prems(1) x by (simp add: header_ok_def)
    then have u: "unat (of_nat (List.length d) :: u32) = List.length d"
      by (simp add: unsigned_of_nat take_bit_eq_mod)
    have "render [f \<mapsto> name] (''--- contents of file %s ---'' @ nl) [f] = Some ?head" by simp
    then obtain st1 where 1: "kprintf (''--- contents of file %s ---'' @ nl) [f] st = Some st1"
        "printed ?head st st1"
      using kprintf_string [OF f live, of "''--- contents of file %s ---'' @ nl" "[f]" ?head] len
      by auto
    have "bytes (mem st) (a + 512) (List.length d) = d" using Cons.prems(1) x by simp
    then obtain st2 where 2: "fs_print_loop (List.length d) (a + 512) 0 st1 = Some st2"
        "printed d st1 st2"
      using fs_print_loop_live [of "a + 512" 0 "List.length d" st1] first(7) d live
      by (auto simp: printed_frame [OF 1(2)] printed_tx_live [OF 1(2)])
    obtain st3 where 3: "kprintf (''--- end of file ---'' @ nl) [] st2 = Some st3" "printed ?tail st2 st3"
      using kprintf_live [of "''--- end of file ---'' @ nl" "[]" ?tail st2] live
      by (auto simp: printed_tx_live [OF 1(2)] printed_tx_live [OF 2(2)])
    have "cat_text (x # fs) name = (?head @ d) @ ?tail" using True x by (simp add: cat_text_def)
    moreover have "printed ((?head @ d) @ ?tail) st st3"
      using printed_trans [OF printed_trans [OF 1(2) 2(2)] 3(2)] .
    moreover have "fs_cat_loop a f st = Some st3"
      using step first(2) r(2) True 1(1) 2(1) 3(1) u by simp
    ultimately show ?thesis by auto
  next
    case False
    moreover have "cat_text (x # fs) name = cat_text fs name"
      using False x by (simp add: cat_text_def)
    ultimately show ?thesis
      using Cons.IH [OF first(9,10)] step first(2) r(2) by simp
  qed
qed

section \<open>Properties\<close>

text \<open>
  C16. On an archive in kernel memory \<open>fs_get_file\<close> always returns: NULL, with nothing changed, if
  no file has the name, and otherwise a pointer to the contents of the first file of that name,
  with their length stored through \<open>out_size\<close> when that is not NULL, and no other byte changed.
\<close>

theorem fs_get_file_finds:
  assumes "archive (mem st) (fs_start_addr st) fs" and "kregion (fs_start_addr st) (archive_size fs)"
    and "kregion file (Suc (List.length name))" and "cstring (mem st) file name"
    and "out_size = 0 \<or> kregion out_size 8"
  shows "case map_of (names fs) name of
      None \<Rightarrow> fs_get_file file out_size st = Some (0, st)
    | Some d \<Rightarrow> \<exists>p. fs_get_file file out_size st =
          Some (p, if out_size = 0 then st
                   else st\<lparr>mem := stw 8 (mem st) out_size (of_nat (List.length d) :: u64)\<rparr>) \<and>
        p = fs_start_addr st + of_nat (data_offset fs name) \<and> p \<noteq> 0 \<and>
        kregion p (List.length d) \<and> bytes (mem st) p (List.length d) = d"
  using fs_get_file_loop_archive [OF assms(3,4,5,1,2)]
  by (auto simp: fs_get_file_def split: option.splits)

text \<open>The bytes of an archive as the archiver writes them, up to the zero after the last file.\<close>

fun tar_image :: "files \<Rightarrow> u8 list" where
  "tar_image [] = [0]"
| "tar_image ((h, d) # fs) = header_bytes h @ replicate 12 0 @ d @
     replicate (file_span (List.length d) - 512 - List.length d) 0 @ tar_image fs"

lemma length_tar_image:
  "\<forall>(h, d)\<in>set fs. header_ok h (List.length d) \<Longrightarrow> List.length (tar_image fs) = archive_size fs"
proof (induction fs rule: tar_image.induct)
  case (2 h d fs)
  then show ?case using span_ge [of "List.length d"] by (simp add: header_ok_def)
qed simp

lemma archive_image:
  "\<forall>(h, d)\<in>set fs. header_ok h (List.length d) \<Longrightarrow> bytes m a (archive_size fs) = tar_image fs \<Longrightarrow>
     archive m a fs"
proof (induction fs arbitrary: a)
  case (Cons x fs)
  obtain h d where x: "x = (h, d)" by (cases x)
  let ?n = "List.length d"
  have len: "List.length (header_bytes h) = 500" using Cons.prems(1) x by (simp add: header_ok_def)
  let ?pad = "replicate (file_span ?n - 512 - ?n) 0"
  have all: "bytes m a (archive_size (x # fs)) =
      header_bytes h @ replicate 12 0 @ d @ ?pad @ tar_image fs"
    using Cons.prems(2) x by simp
  have "bytes m (a + of_nat 0) 500 = header_bytes h"
    by (rule bytes_field [of m a _ "[]"]) (use all len in simp_all)
  moreover have "bytes m (a + of_nat 512) ?n = d"
    by (rule bytes_field [of m a _ "header_bytes h @ replicate 12 0" d "?pad @ tar_image fs"])
      (use all len in simp_all)
  moreover have "bytes m (a + of_nat (file_span ?n)) (archive_size fs) = tar_image fs"
  proof (rule bytes_field [of m a _ "header_bytes h @ replicate 12 0 @ d @ ?pad" "tar_image fs" "[]"])
    show "List.length (tar_image fs) = archive_size fs"
      using Cons.prems(1) by (intro length_tar_image) simp
  qed (use all len span_ge [of ?n] in simp_all)
  ultimately show ?case using Cons x by simp
qed simp


text \<open>A ramdisk with two files, A of three bytes and B of one, and a name to look for.\<close>

definition place :: "u64 \<Rightarrow> u8 list \<Rightarrow> (u64 \<Rightarrow> u8) \<Rightarrow> u64 \<Rightarrow> u8" where
  "place a xs m x = (if unat (x - a) < List.length xs then xs ! unat (x - a) else m x)"

lemma bytes_place: "List.length xs \<le> 2 ^ 64 \<Longrightarrow> bytes (place a xs m) a (List.length xs) = xs"
  by (auto simp: list_eq_iff_nth_eq nth_bytes place_def unat_of_nat64)

definition demo_header :: "u8 \<Rightarrow> nat \<Rightarrow> tar_header" where
  "demo_header c n = \<lparr>filename = c # replicate 99 0, mode = replicate 8 0x30, uid = replicate 8 0x30,
     gid = replicate 8 0x30, tsize = octal n @ [0], mtime = replicate 12 0x30,
     chksum = replicate 8 0x30, typeflag = 0x30, linkname = replicate 100 0, magic = replicate 6 0,
     version = replicate 2 0, uname = replicate 32 0, gname = replicate 32 0,
     devmajor = replicate 8 0, devminor = replicate 8 0, prefix = replicate 155 0\<rparr>"

lemma demo_header_ok: "c \<noteq> 0 \<Longrightarrow> n \<le> 2 ^ 32 - 1024 \<Longrightarrow> header_ok (demo_header c n) n"
  by (simp add: header_ok_def header_bytes_def demo_header_def octal_def)

lemma demo_header_name: "c \<noteq> 0 \<Longrightarrow> file_name (demo_header c n) = [c]"
  by (simp add: file_name_def demo_header_def)

definition demo_files :: files where
  "demo_files = [(demo_header 0x41 3, [1, 2, 3]), (demo_header 0x42 1, [9])]"

definition demo_fs :: fs where
  "demo_fs = tables.extend (demo_tables\<lparr>mem := place 0xFFFF800000010000 (tar_image demo_files)
       (\<lambda>x. if x = 0xFFFF800000001000 then 0x42 else 0)\<rparr>)
     \<lparr>fs_start_addr = 0xFFFF800000010000\<rparr>"

lemma demo_fs_simps:
  "fs_start_addr demo_fs = 0xFFFF800000010000"
  "mem demo_fs = place 0xFFFF800000010000 (tar_image demo_files)
     (\<lambda>x. if x = 0xFFFF800000001000 then 0x42 else 0)"
  by (simp_all add: demo_fs_def tables.defs)

lemma demo_archive:
  "archive (mem demo_fs) (fs_start_addr demo_fs) demo_files"
  "kregion (fs_start_addr demo_fs) (archive_size demo_files)"
  "names demo_files = [([0x41], [1, 2, 3]), ([0x42], [9])]"
  "cstring (mem demo_fs) 0xFFFF800000001000 [0x42]"
proof -
  have ok: "\<forall>(h, d)\<in>set demo_files. header_ok h (List.length d)"
    using demo_header_ok [of "0x41" 3] demo_header_ok [of "0x42" 1]
    by (simp add: demo_files_def numeral_3_eq_3)
  have size: "archive_size demo_files = 2049" by (simp add: demo_files_def file_span_def)
  then have len: "List.length (tar_image demo_files) = 2049" by (simp add: length_tar_image [OF ok])
  show "archive (mem demo_fs) (fs_start_addr demo_fs) demo_files"
    using bytes_place [of "tar_image demo_files"] len size
    by (intro archive_image [OF ok]) (simp add: demo_fs_simps)
  show "kregion (fs_start_addr demo_fs) (archive_size demo_files)"
    by (simp add: size demo_fs_simps kregion_def khalf_def)
  show "names demo_files = [([0x41], [1, 2, 3]), ([0x42], [9])]"
    by (simp add: demo_files_def demo_header_name)
  show "cstring (mem demo_fs) 0xFFFF800000001000 [0x42]"
    by (simp add: demo_fs_simps place_def len)
qed

theorem fs_get_file_finds_witness:
  "\<exists>p st'. fs_get_file 0xFFFF800000001000 0xFFFF800000002000 demo_fs = Some (p, st') \<and>
     bytes (mem demo_fs) p 1 = [9] \<and> ldw 8 (mem st') 0xFFFF800000002000 = (1 :: u64)"
  using fs_get_file_finds [OF demo_archive(1,2) _ demo_archive(4), of "0xFFFF800000002000"]
  by (auto simp: demo_archive(3) kregion_def khalf_def ldw_stw_same)

lemma fs_init_prints:
  fixes st :: "'a fs_scheme"
  assumes "archive (mem st) a fs" and "kregion a (archive_size fs)" and "tx_live st"
  shows "\<exists>st'. fs_init a st = Some st' \<and> printed (lit ''FileSystem: initialized at 0x'' @
      number_text True (ucast a) @ lit nl @ concat (map (\<lambda>(h, d). found_line h d) fs))
    (st\<lparr>fs_start_addr := a\<rparr>) st'"
proof -
  let ?st = "st\<lparr>fs_start_addr := a\<rparr>"
  let ?msg = "lit ''FileSystem: initialized at 0x'' @ number_text True (ucast a) @ lit nl"
  have "render Map.empty (''FileSystem: initialized at 0x%x'' @ nl) [a] = Some ?msg" by simp
  moreover have "List.length ?msg \<le> 2147483647"
    using length_number_text [of True "ucast a"] by simp
  moreover have live: "tx_live ?st" using assms(3) by (simp add: tx_live_def)
  ultimately obtain st1 where
    1: "kprintf (''FileSystem: initialized at 0x%x'' @ nl) [a] ?st = Some st1" "printed ?msg ?st st1"
    using kprintf_live by blast
  obtain st2 where 2: "fs_init_loop a st1 = Some st2"
      "printed (concat (map (\<lambda>(h, d). found_line h d) fs)) st1 st2"
    using fs_init_loop_archive [of st1 a fs] assms(1,2) live
    by (auto simp: printed_frame [OF 1(2)] printed_tx_live [OF 1(2)])
  have "fs_init a st = Some st2"
    using 1 2(1) by (auto simp: fs_init_def Let_def printed_def)
  then show ?thesis using printed_trans [OF 1(2) 2(2)] by auto
qed



text \<open>
  \<open>fs_cat\<close> terminates on every archive and changes no memory: it prints the contents of the
  first file of that name, byte for byte, between its two lines, or that there is no such file.
\<close>

lemma fs_cat_prints:
  assumes "archive (mem st) (fs_start_addr st) fs" and "kregion (fs_start_addr st) (archive_size fs)"
    and "kregion file (Suc (List.length name))" and "cstring (mem st) file name"
    and "List.length name \<le> 2147483000" and "tx_live st"
  shows "\<exists>st'. fs_cat file st = Some st' \<and> mem st' = mem st \<and>
    outlog st' = outlog st @ map (Pair PORT) (cat_text fs name)"
  using fs_cat_loop_archive [OF assms(3-6,1,2)] by (auto simp: fs_cat_def printed_frame)

lemma fs_cat_prints_witness:
  "\<exists>st'. fs_cat 0xFFFF800000001000 demo_fs = Some st' \<and>
     outlog st' = outlog demo_fs @ map (Pair PORT) (lit ''--- contents of file B ---'' @ [10, 9] @
       lit ''--- end of file ---'' @ [10])"
  using fs_cat_prints [OF demo_archive(1,2) _ demo_archive(4)] demo_archive(3)
  by (auto simp: cat_text_def kregion_def khalf_def tx_live_def demo_fs_def demo_tables_def
    demo_segments_def demo_process_def tables.defs segments.defs process.defs)

end
