(* ===== verification/Syscall.thy ===== *)
theory Syscall
  imports Fs
begin

text \<open>
  The system calls (kernel/kernel/syscall.c) and the stub \<open>isr128\<close> of idt_flush.S that leads to
  them. The framebuffers the boot loader reports (\<open>struct limine_framebuffer\<close> of limine.h) are a
  component of the state. \<open>drawn\<close> is the closed form of what the drawing loop leaves in the back
  buffer, \<open>pixel_word\<close> the colour of one pixel of a packed 1-bit frame.
\<close>

unbundle bit_operations_syntax

section \<open>syscall.c\<close>

text \<open>The fields of \<open>struct limine_framebuffer\<close> that the kernel reads.\<close>

record limine_framebuffer =
  address :: u64
  width :: u64
  height :: u64
  pitch :: u64

text \<open>\<open>fb_response\<close> is \<open>None\<close> where \<open>fb_request.response\<close> is NULL.\<close>

record syscalls = fs +
  fb_response :: "limine_framebuffer list option"
  backbuffer :: u64
  backbuffer_size :: u64

definition pixel :: "u8 \<Rightarrow> u8 \<Rightarrow> u32" where
  "pixel bits m = (if bits AND m \<noteq> 0 then 0xFFFFFFFF else 0xFF000000)"

fun draw_row :: "nat \<Rightarrow> u64 \<Rightarrow> u32 \<Rightarrow> u64 \<Rightarrow> 'a machine_scheme \<Rightarrow> 'a machine_scheme option" where
  "draw_row 0 src_ptr b dest_ptr st = Some st"
| "draw_row (Suc n) src_ptr b dest_ptr st =
     do {
       bits \<leftarrow> ld8 st (src_ptr + scast b);
       st \<leftarrow> st32 st (dest_ptr + 4 * 0) (pixel bits 0x01);
       st \<leftarrow> st32 st (dest_ptr + 4 * 1) (pixel bits 0x02);
       st \<leftarrow> st32 st (dest_ptr + 4 * 2) (pixel bits 0x04);
       st \<leftarrow> st32 st (dest_ptr + 4 * 3) (pixel bits 0x08);
       st \<leftarrow> st32 st (dest_ptr + 4 * 4) (pixel bits 0x10);
       st \<leftarrow> st32 st (dest_ptr + 4 * 5) (pixel bits 0x20);
       st \<leftarrow> st32 st (dest_ptr + 4 * 6) (pixel bits 0x40);
       st \<leftarrow> st32 st (dest_ptr + 4 * 7) (pixel bits 0x80);
       draw_row n src_ptr (b + 1) (dest_ptr + 4 * 8) st
     }"

definition off_screen :: "limine_framebuffer \<Rightarrow> u32 \<Rightarrow> bool" where
  "off_screen fb screen_y \<longleftrightarrow> screen_y <s 0 \<or> ucast (height fb) \<le>s screen_y"

fun draw_rows ::
  "nat \<Rightarrow> limine_framebuffer \<Rightarrow> u64 \<Rightarrow> u32 \<Rightarrow> u32 \<Rightarrow> u32 \<Rightarrow> u32 \<Rightarrow>
     'a syscalls_scheme \<Rightarrow> 'a syscalls_scheme option" where
  "draw_rows 0 fb frame bytes_per_row start_x start_y y st = Some st"
| "draw_rows (Suc n) fb frame bytes_per_row start_x start_y y st =
     do {
       let screen_y = start_y + y;
       st \<leftarrow> (if off_screen fb screen_y then Some st
             else
               let dest_ptr = backbuffer st + 4 * (scast screen_y * (pitch fb div 4)) + 4 * scast start_x;
                   src_ptr = frame + scast (y * bytes_per_row)
               in draw_row (nat (sint bytes_per_row)) src_ptr 0 dest_ptr st);
       draw_rows n fb frame bytes_per_row start_x start_y (y + 1) st
     }"

fun copy_rows ::
  "nat \<Rightarrow> limine_framebuffer \<Rightarrow> u32 \<Rightarrow> u32 \<Rightarrow> u32 \<Rightarrow> u32 \<Rightarrow>
     'a syscalls_scheme \<Rightarrow> 'a syscalls_scheme option" where
  "copy_rows 0 fb w start_x start_y y st = Some st"
| "copy_rows (Suc n) fb w start_x start_y y st =
     do {
       let screen_y = start_y + y;
       st \<leftarrow> (if off_screen fb screen_y then Some st
             else
               let row_offset = scast screen_y * (pitch fb div 4) + scast start_x
               in map_option snd (fast_memcpy (address fb + 4 * row_offset)
                    (backbuffer st + 4 * row_offset) (scast (w * 4)) st));
       copy_rows n fb w start_x start_y (y + 1) st
     }"

definition setup_backbuffer ::
  "limine_framebuffer \<Rightarrow> 'a syscalls_scheme \<Rightarrow> 'a syscalls_scheme option" where
  "setup_backbuffer fb st =
     (if backbuffer st = 0 then
        do {
          let st = st\<lparr>backbuffer_size := pitch fb * height fb\<rparr>;
          (p, st) \<leftarrow> kmalloc (backbuffer_size st) st;
          let st = st\<lparr>backbuffer := p\<rparr>;
          (_, st) \<leftarrow> memset (backbuffer st) 0 (backbuffer_size st) st;
          (_, st) \<leftarrow> fast_memcpy (address fb) (backbuffer st) (backbuffer_size st) st;
          Some st
        }
      else Some st)"

definition draw_frame :: "u64 \<Rightarrow> u32 \<Rightarrow> u32 \<Rightarrow> 'a syscalls_scheme \<Rightarrow> 'a syscalls_scheme option" where
  "draw_frame frame w h st =
     (case fb_response st of
        None \<Rightarrow> Some st
      | Some [] \<Rightarrow> Some st
      | Some (fb # _) \<Rightarrow>
          do {
            st \<leftarrow> setup_backbuffer fb st;
            let start_x = ucast ((width fb - scast w) div 2);
            let start_y = ucast ((height fb - scast h) div 2);
            let bytes_per_row = word_of_int (sint w sdiv 8);
            st \<leftarrow> draw_rows (nat (sint h)) fb frame bytes_per_row start_x start_y 0 st;
            copy_rows (nat (sint h)) fb w start_x start_y 0 st
          })"

text \<open>
  \<open>regs\<close> points to the saved registers: rbx is at 24, rdx at 32, rcx at 40, rax at 48. \<open>irq\<close> is
  what the interrupt does that ends the wait of system call 5.
\<close>

definition syscall_handler ::
  "('a syscalls_scheme \<Rightarrow> 'a syscalls_scheme option) \<Rightarrow> u64 \<Rightarrow>
     'a syscalls_scheme \<Rightarrow> 'a syscalls_scheme outcome option" where
  "syscall_handler irq regs st =
     do {
       n \<leftarrow> ld64 st (regs + 48);
       if n = 1 then
         do {
           c \<leftarrow> ld64 st (regs + 24);
           st \<leftarrow> serial_putchar (ucast c) st;
           Some (Returned st)
         }
       else if n = 2 then
         do {
           st \<leftarrow> kprintf (nl @ ''Video Finished! System Halted.'' @ nl) [] st;
           Some (Halted st)
         }
       else if n = 3 then
         do {
           st \<leftarrow> st64 st (regs + 48) (uptime_ms st);
           Some (Returned st)
         }
       else if n = 4 then
         do {
           frame \<leftarrow> ld64 st (regs + 24);
           w \<leftarrow> ld64 st (regs + 40);
           h \<leftarrow> ld64 st (regs + 32);
           st \<leftarrow> draw_frame frame (ucast w) (ucast h) st;
           Some (Returned st)
         }
       else if n = 5 then
         do {
           st \<leftarrow> irq st;
           Some (Returned st)
         }
       else
         do {
           st \<leftarrow> kprintf (''Unknown syscall %d'' @ nl) [n] st;
           Some (Returned st)
         }
     }"

text \<open>\<open>isr128\<close>, from the registers at the \<open>int\<close> instruction to those after \<open>iretq\<close>.\<close>

definition isr128 ::
  "('a syscalls_scheme \<Rightarrow> 'a syscalls_scheme option) \<Rightarrow> registers \<Rightarrow> u64 \<Rightarrow>
     'a syscalls_scheme \<Rightarrow> (registers option \<times> 'a syscalls_scheme) option" where
  "isr128 irq r sp st =
     do {
       (sp, st) \<leftarrow> push_list (cpu_frame r) sp st;
       (sp, st) \<leftarrow> push_list (pusha64 r) sp st;
       out \<leftarrow> syscall_handler irq sp st;
       case out of
         Halted st \<Rightarrow> Some (None, st)
       | Returned st \<Rightarrow>
           do {
             (ws, sp) \<leftarrow> pop_list 20 sp st;
             r \<leftarrow> popa64_iretq ws;
             Some (Some r, st)
           }
     }"

section \<open>Runs of pixels\<close>

fun put_pixels :: "nat \<Rightarrow> u64 \<Rightarrow> (nat \<Rightarrow> u32) \<Rightarrow> (u64 \<Rightarrow> u8) \<Rightarrow> (u64 \<Rightarrow> u8)" where
  "put_pixels 0 dest f m = m"
| "put_pixels (Suc n) dest f m = stw 4 (put_pixels n dest f m) (dest + 4 * of_nat n) (f n)"

lemma put_pixels_byte:
  assumes "4 * n \<le> 2 ^ 64"
  shows "put_pixels n dest f m x =
    (if unat (x - dest) < 4 * n
     then ucast (drop_bit (8 * (unat (x - dest) mod 4)) (f (unat (x - dest) div 4))) else m x)"
  using assms
proof (induction n)
  case (Suc n)
  have w: "within x (dest + 4 * of_nat n) 4 \<longleftrightarrow> 4 * n \<le> unat (x - dest) \<and> unat (x - dest) < 4 * n + 4"
    using within_offset_iff [of "4 * n" 4 x dest] Suc.prems by simp
  show ?case
  proof (cases "within x (dest + 4 * of_nat n) 4")
    case True
    define i where "i = unat (x - dest)"
    have i: "4 * n \<le> i" "i < 4 * n + 4" using True w by (simp_all add: i_def)
    then obtain k where "i = 4 * n + k" "k < 4" by (metis le_Suc_ex nat_add_left_cancel_less)
    then have div: "i div 4 = n" "i mod 4 = i - 4 * n" by simp_all
    have "x - (dest + 4 * of_nat n) = x - dest - of_nat (4 * n)" by simp
    also have "unat \<dots> = i - 4 * n"
    proof -
      have "unat (of_nat (4 * n) :: u64) = 4 * n" using Suc.prems by (intro unat_of_nat64) simp
      then show ?thesis
        using i(1) by (subst unat_sub) (simp_all add: word_le_nat_alt i_def)
    qed
    finally have "unat (x - (dest + 4 * of_nat n)) = i mod 4" using div by simp
    then show ?thesis using True i div by (simp add: stw_eq i_def)
  next
    case False
    then have "put_pixels (Suc n) dest f m x = put_pixels n dest f m x" by (simp add: stw_eq)
    moreover have "unat (x - dest) < 4 * Suc n \<longleftrightarrow> unat (x - dest) < 4 * n" using False w by auto
    ultimately show ?thesis using Suc by simp
  qed
qed simp

text \<open>Pixel \<open>k\<close> of a packed frame is bit \<open>k mod 8\<close> of byte \<open>k div 8\<close>.\<close>

definition colour :: "bool \<Rightarrow> u32" where
  "colour on = (if on then 0xFFFFFFFF else 0xFF000000)"

definition frame_bit :: "(nat \<Rightarrow> u8) \<Rightarrow> nat \<Rightarrow> bool" where
  "frame_bit img k = bit (img (k div 8)) (k mod 8)"

lemma pixel_bit: "j < 8 \<Longrightarrow> pixel bits (2 ^ j) = colour (bit bits j)"
  using and_exp_eq_0_iff_not_bit [of bits j] by (simp add: pixel_def colour_def)

lemma pixel_bits:
  "pixel bits 0x01 = colour (bit bits 0)" "pixel bits 0x02 = colour (bit bits 1)"
  "pixel bits 0x04 = colour (bit bits 2)" "pixel bits 0x08 = colour (bit bits 3)"
  "pixel bits 0x10 = colour (bit bits 4)" "pixel bits 0x20 = colour (bit bits 5)"
  "pixel bits 0x40 = colour (bit bits 6)" "pixel bits 0x80 = colour (bit bits 7)"
  using pixel_bit [of 0 bits] pixel_bit [of 1 bits] pixel_bit [of 2 bits] pixel_bit [of 3 bits]
    pixel_bit [of 4 bits] pixel_bit [of 5 bits] pixel_bit [of 6 bits] pixel_bit [of 7 bits]
  by simp_all

lemma put_pixels_8:
  assumes "\<And>j. j < 8 \<Longrightarrow> f (8 * b + j) = colour (bit bits j)"
  shows "put_pixels (8 * Suc b) dest f m =
    stw 4 (stw 4 (stw 4 (stw 4 (stw 4 (stw 4 (stw 4 (stw 4 (put_pixels (8 * b) dest f m)
      (dest + 32 * of_nat b + 4 * 0) (pixel bits 0x01)) (dest + 32 * of_nat b + 4 * 1) (pixel bits 0x02))
      (dest + 32 * of_nat b + 4 * 2) (pixel bits 0x04)) (dest + 32 * of_nat b + 4 * 3) (pixel bits 0x08))
      (dest + 32 * of_nat b + 4 * 4) (pixel bits 0x10)) (dest + 32 * of_nat b + 4 * 5) (pixel bits 0x20))
      (dest + 32 * of_nat b + 4 * 6) (pixel bits 0x40)) (dest + 32 * of_nat b + 4 * 7) (pixel bits 0x80)"
proof -
  have "8 * Suc b = Suc (Suc (Suc (Suc (Suc (Suc (Suc (Suc (8 * b))))))))" by simp
  then show ?thesis
    unfolding pixel_bits
    using assms [of 0] assms [of 1] assms [of 2] assms [of 3] assms [of 4] assms [of 5] assms [of 6]
      assms [of 7]
    by (simp only: put_pixels.simps) (simp add: algebra_simps eval_nat_numeral)
qed

lemma draw_row_run:
  fixes st :: "'a machine_scheme"
  assumes img: "\<And>i. i < b + n \<Longrightarrow>
      ld8 (st\<lparr>mem := put_pixels (8 * i) dest f m\<rparr>) (src + of_nat i) = Some (img i)"
    and f: "\<And>k. k < 8 * (b + n) \<Longrightarrow> f k = colour (frame_bit img k)"
    and small: "b + n < 2 ^ 31" and reg: "kregion dest (32 * (b + n))"
  shows "draw_row n src (of_nat b) (dest + 32 * of_nat b) (st\<lparr>mem := put_pixels (8 * b) dest f m\<rparr>) =
    Some (st\<lparr>mem := put_pixels (8 * (b + n)) dest f m\<rparr>)"
  using assms
proof (induction n arbitrary: b)
  case (Suc n)
  let ?st = "st\<lparr>mem := put_pixels (8 * b) dest f m\<rparr>"
  let ?d = "dest + 32 * of_nat b"
  have u: "unat (of_nat b :: u32) = b"
    using Suc.prems(3) by (simp add: unsigned_of_nat take_bit_eq_mod)
  then have "(scast (of_nat b :: u32) :: u64) = of_nat b"
    using Suc.prems(3) scast_nonneg [of "of_nat b :: u32"]
    by (simp add: word_unat_eq_iff unat_of_nat64)
  then have bits: "ld8 ?st (src + scast (of_nat b :: u32)) = Some (img b)"
    using Suc.prems(1) [of b] by simp
  have reg32: "kregion ?d (32 * Suc n)"
    using kregion_offset [OF Suc.prems(4), of "32 * b"] by simp
  have cell: "kregion (?d + 4 * of_nat k) 4" if "k < 8" for k
    using kregion_offset [OF kregion_mono [OF reg32, of 32], of "4 * k"] that
    by (auto intro: kregion_mono)
  have cells: "kregion ?d 4" "kregion (?d + 4) 4" "kregion (?d + 8) 4" "kregion (?d + 12) 4"
    "kregion (?d + 16) 4" "kregion (?d + 20) 4" "kregion (?d + 24) 4" "kregion (?d + 28) 4"
    using cell [of 0] cell [of 1] cell [of 2] cell [of 3] cell [of 4] cell [of 5] cell [of 6]
      cell [of 7] by simp_all
  have f8: "f (8 * b + j) = colour (bit (img b) j)" if "j < 8" for j
    using Suc.prems(2) [of "8 * b + j"] that by (simp add: frame_bit_def)
  have "draw_row (Suc n) src (of_nat b) ?d ?st =
      draw_row n src (of_nat b + 1) (?d + 4 * 8) (st\<lparr>mem := put_pixels (8 * Suc b) dest f m\<rparr>)"
    using bits put_pixels_8 [of f b "img b" dest m, OF f8]
    by (simp add: st32_kernel [OF cells(1)] st32_kernel [OF cells(2)] st32_kernel [OF cells(3)]
      st32_kernel [OF cells(4)] st32_kernel [OF cells(5)] st32_kernel [OF cells(6)]
      st32_kernel [OF cells(7)] st32_kernel [OF cells(8)]
      del: put_pixels.simps mult_Suc_right)
  also have "\<dots> = draw_row n src (of_nat (Suc b)) (dest + 32 * of_nat (Suc b))
      (st\<lparr>mem := put_pixels (8 * Suc b) dest f m\<rparr>)" by (simp add: algebra_simps del: put_pixels.simps)
  also have "\<dots> = Some (st\<lparr>mem := put_pixels (8 * (Suc b + n)) dest f m\<rparr>)"
    using Suc.prems by (intro Suc.IH) (simp_all del: put_pixels.simps)
  finally show ?case by simp
qed simp

section \<open>Rows\<close>

text \<open>
  A window of \<open>w\<close> times \<open>h\<close> pixels at column \<open>sx\<close> and row \<open>sy\<close> of a buffer with \<open>fbw\<close> pixels in
  a line: \<open>row_at\<close> is the offset of a row of the window in bytes.
\<close>

definition row_at :: "nat \<Rightarrow> nat \<Rightarrow> nat \<Rightarrow> nat \<Rightarrow> nat" where
  "row_at fbw sx sy y = 4 * ((sy + y) * fbw + sx)"

definition in_window :: "nat \<Rightarrow> nat \<Rightarrow> nat \<Rightarrow> nat \<Rightarrow> nat \<Rightarrow> nat \<Rightarrow> bool" where
  "in_window fbw sx sy w h i \<longleftrightarrow> (\<exists>y<h. row_at fbw sx sy y \<le> i \<and> i < row_at fbw sx sy y + 4 * w)"

lemma row_order:
  assumes "sx + w \<le> fbw" and "y < z"
  shows "row_at fbw sx sy y + 4 * w \<le> row_at fbw sx sy z"
proof -
  have "(sy + y) * fbw + fbw = (sy + Suc y) * fbw" by simp
  also have "\<dots> \<le> (sy + z) * fbw" using assms(2) by (intro mult_le_mono1) simp
  finally have "(sy + y) * fbw + (sx + w) \<le> (sy + z) * fbw + sx" using assms(1) by linarith
  then show ?thesis by (simp add: row_at_def)
qed

lemma row_end:
  assumes "sx + w \<le> fbw" and "sy + h \<le> fbh" and "y < h"
  shows "row_at fbw sx sy y + 4 * w \<le> 4 * (fbw * fbh)"
proof -
  have "(sy + y) * fbw + fbw = (sy + Suc y) * fbw" by simp
  also have "\<dots> \<le> fbh * fbw" using assms(2,3) by (intro mult_le_mono1) simp
  finally show ?thesis using assms(1) by (simp add: row_at_def mult.commute [of fbw])
qed

text \<open>The back buffer at \<open>bb\<close> after the first rows of an image.\<close>

fun drawn :: "nat \<Rightarrow> nat \<Rightarrow> nat \<Rightarrow> nat \<Rightarrow> (nat \<Rightarrow> u8) \<Rightarrow> u64 \<Rightarrow> nat \<Rightarrow> (u64 \<Rightarrow> u8) \<Rightarrow> (u64 \<Rightarrow> u8)" where
  "drawn fbw sx sy w img bb 0 m = m"
| "drawn fbw sx sy w img bb (Suc y) m =
     put_pixels w (bb + of_nat (row_at fbw sx sy y)) (\<lambda>k. colour (frame_bit img (y * w + k)))
       (drawn fbw sx sy w img bb y m)"

text \<open>The video memory at \<open>vr\<close> after the first rows were copied.\<close>

fun shown :: "nat \<Rightarrow> nat \<Rightarrow> nat \<Rightarrow> nat \<Rightarrow> u64 \<Rightarrow> u64 \<Rightarrow> nat \<Rightarrow> (u64 \<Rightarrow> u8) \<Rightarrow> (u64 \<Rightarrow> u8)" where
  "shown fbw sx sy w bb vr 0 m = m"
| "shown fbw sx sy w bb vr (Suc y) m =
     copied (shown fbw sx sy w bb vr y m) (vr + of_nat (row_at fbw sx sy y))
       (bb + of_nat (row_at fbw sx sy y)) (4 * w)"

lemma put_pixels_other:
  "4 * n \<le> 2 ^ 64 \<Longrightarrow> \<not> within x dest (4 * n) \<Longrightarrow> put_pixels n dest f m x = m x"
  by (simp add: put_pixels_byte within_def)

lemma put_pixels_pixel:
  assumes "k < n" and "4 * n \<le> 2 ^ 64"
  shows "ldw 4 (put_pixels n dest f m) (dest + 4 * of_nat k) = f k"
  using assms
proof (induction n)
  case (Suc n)
  show ?case
  proof (cases "k = n")
    case False
    have "within x (dest + 4 * of_nat k) 4 \<Longrightarrow> \<not> within x (dest + 4 * of_nat n) 4" for x
      using within_offset_iff [of "4 * k" 4 x dest] within_offset_iff [of "4 * n" 4 x dest] Suc.prems False
      by simp
    then show ?thesis using Suc False by (simp add: ldw_stw_other)
  qed (simp add: ldw_stw_same)
qed simp

lemma drawn_other:
  assumes "sx + w \<le> fbw" and "sy + h \<le> fbh" and "4 * (fbw * fbh) \<le> 2 ^ 64"
  shows "y \<le> h \<Longrightarrow> \<not> in_window fbw sx sy w y (unat (x - bb)) \<Longrightarrow> drawn fbw sx sy w img bb y m x = m x"
proof (induction y)
  case (Suc y)
  have e: "row_at fbw sx sy y + 4 * w \<le> 2 ^ 64"
    using row_end [OF assms(1,2), of y] Suc.prems(1) assms(3) by linarith
  have "\<not> within x (bb + of_nat (row_at fbw sx sy y)) (4 * w)"
    using Suc.prems(2) within_offset_iff [OF e, of x bb] by (auto simp: in_window_def)
  moreover have "\<not> in_window fbw sx sy w y (unat (x - bb))"
    using Suc.prems(2) by (auto simp: in_window_def intro: less_SucI)
  ultimately show ?case using Suc e by (simp add: put_pixels_other)
qed simp

lemma drawn_pixel:
  assumes "sx + w \<le> fbw" and "sy + h \<le> fbh" and "4 * (fbw * fbh) \<le> 2 ^ 64"
  shows "z \<le> h \<Longrightarrow> y < z \<Longrightarrow> k < w \<Longrightarrow>
    ldw 4 (drawn fbw sx sy w img bb z m) (bb + of_nat (row_at fbw sx sy y) + 4 * of_nat k) =
      colour (frame_bit img (y * w + k))"
proof (induction z)
  case (Suc z)
  have e: "row_at fbw sx sy i + 4 * w \<le> 2 ^ 64" if "i \<le> z" for i
    using row_end [OF assms(1,2), of i] Suc.prems(1) that assms(3) by linarith
  show ?case
  proof (cases "y = z")
    case True
    then show ?thesis using Suc.prems(3) e [of z] by (simp add: put_pixels_pixel)
  next
    case False
    then have "y < z" using Suc.prems(2) by simp
    note apart = row_order [OF assms(1) this, of sy]
    have "\<not> within x (bb + of_nat (row_at fbw sx sy z)) (4 * w)"
      if "within x (bb + of_nat (row_at fbw sx sy y) + 4 * of_nat k) 4" for x
    proof -
      have "within x (bb + of_nat (row_at fbw sx sy y + 4 * k)) 4" using that by (simp add: add.assoc)
      then show ?thesis
        using within_offset_iff [of "row_at fbw sx sy y + 4 * k" 4 x bb] within_offset_iff [OF e, of z x bb]
          apart e [of z] e [of y] Suc.prems(3) \<open>y < z\<close> by simp
    qed
    then have "ldw 4 (drawn fbw sx sy w img bb (Suc z) m)
        (bb + of_nat (row_at fbw sx sy y) + 4 * of_nat k) =
      (ldw 4 (drawn fbw sx sy w img bb z m) (bb + of_nat (row_at fbw sx sy y) + 4 * of_nat k) :: u32)"
      using e [of z] by (intro ldw_cong) (simp add: put_pixels_other)
    then show ?thesis using Suc \<open>y < z\<close> by simp
  qed
qed simp

text \<open>Two ranges of \<open>s\<close> bytes that do not overlap.\<close>

definition apart :: "u64 \<Rightarrow> u64 \<Rightarrow> nat \<Rightarrow> bool" where
  "apart a b s \<longleftrightarrow> unat a + s \<le> unat b \<or> unat b + s \<le> unat a"

lemma within_kregion: "kregion p n \<Longrightarrow> within x p n \<longleftrightarrow> unat p \<le> unat x \<and> unat x < unat p + n"
proof -
  assume r: "kregion p n"
  show ?thesis
  proof
    assume "within x p n"
    then show "unat p \<le> unat x \<and> unat x < unat p + n"
      by (rule withinE) (simp add: kregion_unat_add [OF r])
  next
    assume u: "unat p \<le> unat x \<and> unat x < unat p + n"
    then have "unat (x - p) = unat x - unat p" by (simp add: unat_sub word_le_nat_alt)
    then show "within x p n" using u unfolding within_def by linarith
  qed
qed

lemma apart_within:
  "apart a b s \<Longrightarrow> kregion a s \<Longrightarrow> kregion b s \<Longrightarrow> within x a s \<Longrightarrow> \<not> within x b s"
  by (auto simp: apart_def within_kregion)

text \<open>The same part of two such ranges can be copied forward from one to the other.\<close>

lemma apart_parts:
  assumes "apart a b s" and "kregion a s" and "kregion b s" and "off + n \<le> s"
  shows "kregion (a + of_nat off) n" "kregion (b + of_nat off) n"
    "forward_safe (a + of_nat off) (b + of_nat off) n"
    "within x (a + of_nat off) n \<Longrightarrow> within x a s" "within x (b + of_nat off) n \<Longrightarrow> within x b s"
proof -
  show r: "kregion (a + of_nat off) n" "kregion (b + of_nat off) n"
    using kregion_offset [OF kregion_mono [OF assms(2,4)], of off]
      kregion_offset [OF kregion_mono [OF assms(3,4)], of off] by simp_all
  have s: "s \<le> 2 ^ 64" using assms(2) by (auto simp: kregion_def)
  then show "within x (a + of_nat off) n \<Longrightarrow> within x a s" "within x (b + of_nat off) n \<Longrightarrow> within x b s"
    using assms(4) within_offset_iff [of off n x a] within_offset_iff [of off n x b]
    by (simp_all add: within_def)
  show "forward_safe (a + of_nat off) (b + of_nat off) n"
  proof (cases "n = 0")
    case False
    then have "off < s" using assms(4) by simp
    then show ?thesis
      using assms(1,4) kregion_unat_add [OF assms(2), of off] kregion_unat_add [OF assms(3), of off]
      by (auto simp: forward_safe_def apart_def word_le_nat_alt)
  qed (use le_less_linear in \<open>auto simp: forward_safe_def word_le_nat_alt\<close>)
qed

lemma copied_other: "\<not> within x dst n \<Longrightarrow> copied m dst src n x = m x"
  by (simp add: copied_def)

lemma copied_byte: "i < n \<Longrightarrow> n \<le> 2 ^ 64 \<Longrightarrow> copied m dst src n (dst + of_nat i) = m (src + of_nat i)"
  by (simp add: copied_def within_def unat_of_nat64)

lemma shown_other:
  assumes "sx + w \<le> fbw" and "sy + h \<le> fbh" and "4 * (fbw * fbh) \<le> 2 ^ 64"
  shows "y \<le> h \<Longrightarrow> \<not> in_window fbw sx sy w y (unat (x - vr)) \<Longrightarrow> shown fbw sx sy w bb vr y m x = m x"
proof (induction y)
  case (Suc y)
  have e: "row_at fbw sx sy y + 4 * w \<le> 2 ^ 64"
    using row_end [OF assms(1,2), of y] Suc.prems(1) assms(3) by linarith
  have "\<not> within x (vr + of_nat (row_at fbw sx sy y)) (4 * w)"
    using Suc.prems(2) within_offset_iff [OF e, of x vr] by (auto simp: in_window_def)
  moreover have "\<not> in_window fbw sx sy w y (unat (x - vr))"
    using Suc.prems(2) by (auto simp: in_window_def intro: less_SucI)
  ultimately show ?case using Suc by (simp add: copied_other)
qed simp

lemma in_window_within:
  assumes "sx + w \<le> fbw" and "sy + h \<le> fbh"
  shows "in_window fbw sx sy w h (unat (x - p)) \<Longrightarrow> within x p (4 * (fbw * fbh))"
  using row_end [OF assms] by (fastforce simp: in_window_def within_def)

lemma shown_byte:
  assumes g: "sx + w \<le> fbw" "sy + h \<le> fbh"
    and r: "kregion vr (4 * (fbw * fbh))" "kregion bb (4 * (fbw * fbh))" "apart vr bb (4 * (fbw * fbh))"
  shows "z \<le> h \<Longrightarrow> y < z \<Longrightarrow> i < 4 * w \<Longrightarrow>
    shown fbw sx sy w bb vr z m (vr + of_nat (row_at fbw sx sy y) + of_nat i) =
      m (bb + of_nat (row_at fbw sx sy y) + of_nat i)"
proof (induction z)
  case (Suc z)
  have s: "4 * (fbw * fbh) \<le> 2 ^ 64" using r(1) unfolding kregion_def by linarith
  have e: "row_at fbw sx sy j + 4 * w \<le> 4 * (fbw * fbh)" if "j \<le> z" for j
    using row_end [OF g, of j] Suc.prems(1) that by simp
  show ?case
  proof (cases "y = z")
    case True
    let ?x = "bb + of_nat (row_at fbw sx sy z) + of_nat i"
    have "within ?x (bb + of_nat (row_at fbw sx sy z)) (4 * w)"
    proof -
      have "i < 2 ^ 64" using Suc.prems(3) e [of z] s by linarith
      then show ?thesis using Suc.prems(3) by (simp add: within_def unat_of_nat64)
    qed
    then have "within ?x bb (4 * (fbw * fbh))" using apart_parts(5) [OF r(3,1,2) e, of z] by simp
    then have "\<not> within ?x vr (4 * (fbw * fbh))" using apart_within [OF r(3,1,2)] by blast
    then have "shown fbw sx sy w bb vr z m ?x = m ?x"
      using in_window_within [of sx w fbw sy z fbh ?x vr] g Suc.prems(1)
      by (intro shown_other [OF g s]) auto
    moreover have "4 * w \<le> 2 ^ 64" using e [of z] s by linarith
    ultimately show ?thesis using True Suc.prems(3) by (simp add: copied_byte)
  next
    case False
    then have "y < z" using Suc.prems(2) by simp
    note order = row_order [OF g(1) this, of sy]
    let ?x = "vr + of_nat (row_at fbw sx sy y + i)"
    have ez: "row_at fbw sx sy z + 4 * w \<le> 2 ^ 64" "row_at fbw sx sy y + 4 * w \<le> 2 ^ 64"
      using e [of z] e [of y] \<open>y < z\<close> s by linarith+
    then have "row_at fbw sx sy y + i < 2 ^ 64" using Suc.prems(3) by linarith
    then have "unat (?x - vr) = row_at fbw sx sy y + i"
      by (simp only: add_diff_cancel_left' unat_of_nat64)
    then have "\<not> within ?x (vr + of_nat (row_at fbw sx sy z)) (4 * w)"
      using within_offset_iff [OF ez(1), of ?x vr] order Suc.prems(3) by simp
    then have "shown fbw sx sy w bb vr (Suc z) m ?x = shown fbw sx sy w bb vr z m ?x"
      by (simp add: copied_other)
    then show ?thesis using Suc \<open>y < z\<close> by (simp add: add.assoc)
  qed
qed simp

section \<open>The drawing loops\<close>

lemma scast_of_nat: "n < 2 ^ 31 \<Longrightarrow> (scast (of_nat n :: u32) :: u64) = of_nat n"
proof -
  assume n: "n < 2 ^ 31"
  then have "unat (of_nat n :: u32) = n" by (simp add: unsigned_of_nat take_bit_eq_mod)
  then show ?thesis
    using n scast_nonneg [of "of_nat n :: u32"] by (simp add: word_unat_eq_iff unat_of_nat64)
qed

lemma sint_of_nat: "n < 2 ^ 31 \<Longrightarrow> sint (of_nat n :: u32) = int n"
  using sint32_unat [of "of_nat n :: u32"] by (simp add: unsigned_of_nat take_bit_eq_mod)

text \<open>
  \<open>readable st A p n img\<close>: the \<open>n\<close> bytes at \<open>p\<close> can be read and are \<open>img\<close>, also after any
  change of the memory within \<open>A\<close>, so that neither they nor the page tables that map them are in \<open>A\<close>.
\<close>

definition readable :: "'a machine_scheme \<Rightarrow> (u64 \<Rightarrow> bool) \<Rightarrow> u64 \<Rightarrow> nat \<Rightarrow> (nat \<Rightarrow> u8) \<Rightarrow> bool" where
  "readable st A p n img \<longleftrightarrow>
     (\<forall>m. (\<forall>x. \<not> A x \<longrightarrow> m x = mem st x) \<longrightarrow>
        (\<forall>i<n. ld8 (st\<lparr>mem := m\<rparr>) (p + of_nat i) = Some (img i)))"

lemma on_screen:
  assumes "j < unat (height fb)" and "unat (height fb) < 2 ^ 31"
  shows "\<not> off_screen fb (of_nat j)"
proof -
  have "ucast (height fb) = (of_nat (unat (height fb)) :: u32)" by (metis of_nat_unat)
  then have "sint (ucast (height fb) :: u32) = int (unat (height fb))"
    using sint_of_nat [OF assms(2)] by simp
  moreover have "sint (of_nat j :: u32) = int j" using assms by (intro sint_of_nat) simp
  moreover have "sint (0 :: u32) = 0" "int j < int (unat (height fb))"
    using assms(1) by (simp, simp only: of_nat_less_iff)
  ultimately show ?thesis unfolding off_screen_def word_sless_alt word_sle_eq by linarith
qed

lemma draw_rows_drawn:
  fixes st :: "'a syscalls_scheme"
  defines "fbw \<equiv> \<lambda>fb. unat (pitch fb) div 4" and "fbh \<equiv> \<lambda>fb. unat (height fb)"
  assumes g: "sx + 8 * b \<le> fbw fb" "sy + h \<le> fbh fb" "fbh fb < 2 ^ 31" "sx < 2 ^ 31"
      "h * b < 2 ^ 31"
    and reg: "kregion (backbuffer st) (4 * (fbw fb * fbh fb))"
    and img: "readable st (\<lambda>x. within x (backbuffer st) (4 * (fbw fb * fbh fb))) frame (h * b) img"
  defines "dr \<equiv> \<lambda>y. drawn (fbw fb) sx sy (8 * b) img (backbuffer st) y (mem st)"
  shows "y + n \<le> h \<Longrightarrow> draw_rows n fb frame (of_nat b) (of_nat sx) (of_nat sy) (of_nat y)
      (st\<lparr>mem := dr y\<rparr>) = Some (st\<lparr>mem := dr (y + n)\<rparr>)"
proof (induction n arbitrary: y)
  case (Suc n)
  let ?bb = "backbuffer st" and ?s = "4 * (fbw fb * fbh fb)"
  let ?r = "row_at (fbw fb) sx sy y" and ?f = "\<lambda>k. colour (frame_bit img (y * (8 * b) + k))"
  have y: "y < h" using Suc.prems by simp
  then have b: "b < 2 ^ 31"
    using g(5) le_trans [of b "h * b"] by (cases h) auto
  have "y * b \<le> h * b" using y by (intro mult_le_mono1) simp
  then have yb: "y * b < 2 ^ 31" using g(5) by (rule le_less_trans)
  have s64: "?s \<le> 2 ^ 64" using reg unfolding kregion_def by linarith
  have e: "?r + 4 * (8 * b) \<le> ?s" using row_end [OF g(1,2) y] by simp
  then have er: "?r + 4 * (8 * b) \<le> 2 ^ 64" using s64 by linarith
  have "(of_nat y * of_nat b :: u32) = of_nat (y * b)" by simp
  then have src: "scast (of_nat y * of_nat b :: u32) = (of_nat (y * b) :: u64)"
    using scast_of_nat [OF yb] by (simp only:)
  have scr: "(of_nat sy + of_nat y :: u32) = of_nat (sy + y)" by simp
  have off: "\<not> off_screen fb (of_nat (sy + y))"
    using on_screen [of "sy + y" fb] g(2,3) y by (simp add: fbh_def)
  have "unat (pitch fb) div 4 < 2 ^ 64" by (rule le_less_trans [OF div_le_dividend]) simp
  then have "pitch fb div 4 = of_nat (fbw fb)"
    by (simp add: fbw_def word_unat_eq_iff unat_div unat_of_nat64)
  moreover have "scast (of_nat (sy + y) :: u32) = (of_nat (sy + y) :: u64)"
    using g(2,3) y by (intro scast_of_nat) simp
  ultimately have dest: "?bb + 4 * (scast (of_nat (sy + y) :: u32) * (pitch fb div 4)) +
      4 * scast (of_nat sx :: u32) = ?bb + of_nat ?r"
    by (simp add: row_at_def scast_of_nat [OF g(4)] algebra_simps)
  have row: "draw_row b (frame + of_nat (y * b)) (of_nat 0) (?bb + of_nat ?r + 32 * of_nat 0)
      (st\<lparr>mem := put_pixels (8 * 0) (?bb + of_nat ?r) ?f (dr y)\<rparr>) =
    Some (st\<lparr>mem := put_pixels (8 * (0 + b)) (?bb + of_nat ?r) ?f (dr y)\<rparr>)"
  proof (rule draw_row_run [where img = "\<lambda>i. img (y * b + i)"])
    show "ld8 (st\<lparr>mem := put_pixels (8 * i) (?bb + of_nat ?r) ?f (dr y)\<rparr>)
        (frame + of_nat (y * b) + of_nat i) = Some (img (y * b + i))" if "i < 0 + b" for i
    proof -
      have "put_pixels (8 * i) (?bb + of_nat ?r) ?f (dr y) x = mem st x" if x: "\<not> within x ?bb ?s" for x
      proof -
        have "\<not> within x (?bb + of_nat ?r) (4 * (8 * i))"
        proof
          assume "within x (?bb + of_nat ?r) (4 * (8 * i))"
          then have "within x (?bb + of_nat ?r) (4 * (8 * b))"
            by (rule within_mono) (use \<open>i < 0 + b\<close> in simp)
          then show False
            using within_offset_iff [OF er, of x ?bb] e x by (simp add: within_def)
        qed
        moreover have "\<not> in_window (fbw fb) sx sy (8 * b) y (unat (x - ?bb))"
          using x in_window_within [OF g(1), of sy y "fbh fb" x ?bb] g(2) y by auto
        moreover have "4 * (8 * i) \<le> 2 ^ 64" using er \<open>i < 0 + b\<close> by linarith
        ultimately show ?thesis
          using y drawn_other [OF g(1,2) s64, of y x ?bb img "mem st"]
            put_pixels_other [of "8 * i" x "?bb + of_nat ?r" ?f "dr y"]
          by (simp add: dr_def)
      qed
      moreover have "y * b + i < h * b"
      proof -
        have "y * b + i < Suc y * b" using \<open>i < 0 + b\<close> by simp
        also have "\<dots> \<le> h * b" using y by (intro mult_le_mono1) simp
        finally show ?thesis .
      qed
      ultimately have "ld8 (st\<lparr>mem := put_pixels (8 * i) (?bb + of_nat ?r) ?f (dr y)\<rparr>)
          (frame + of_nat (y * b + i)) = Some (img (y * b + i))"
        using img unfolding readable_def by blast
      then show ?thesis by (simp add: add.assoc)
    qed
    show "?f k = colour (frame_bit (\<lambda>i. img (y * b + i)) k)" for k
    proof -
      have "(y * (8 * b) + k) div 8 = y * b + k div 8" "(y * (8 * b) + k) mod 8 = k mod 8"
        using div_mult_self3 [of 8 k "y * b"] mod_mult_self3 [of "y * b" 8 k] by (simp_all add: ac_simps)
      then show ?thesis by (simp add: frame_bit_def)
    qed
    have "kregion (?bb + of_nat ?r) (4 * (8 * b))"
      using kregion_offset [OF kregion_mono [OF reg e], of ?r] by simp
    then show "kregion (?bb + of_nat ?r) (32 * (0 + b))" by simp
  qed (use b in simp)
  have "nat (sint (of_nat b :: u32)) = b" using sint_of_nat [OF b] by simp
  then have "draw_rows (Suc n) fb frame (of_nat b) (of_nat sx) (of_nat sy) (of_nat y) (st\<lparr>mem := dr y\<rparr>) =
      draw_rows n fb frame (of_nat b) (of_nat sx) (of_nat sy) (of_nat (Suc y)) (st\<lparr>mem := dr (Suc y)\<rparr>)"
    using row off src
    by (simp add: scr dest Let_def dr_def add.commute [of 1] del: of_nat_add of_nat_mult)
  also have "\<dots> = Some (st\<lparr>mem := dr (Suc y + n)\<rparr>)"
    using Suc.prems by (intro Suc.IH) simp
  finally show ?case by simp
qed simp

lemma copy_rows_shown:
  fixes st :: "'a syscalls_scheme"
  defines "fbw \<equiv> \<lambda>fb. unat (pitch fb) div 4" and "fbh \<equiv> \<lambda>fb. unat (height fb)"
  assumes g: "sx + w \<le> fbw fb" "sy + h \<le> fbh fb" "fbh fb < 2 ^ 31" "sx < 2 ^ 31" "4 * w < 2 ^ 31"
    and reg: "kregion (address fb) (4 * (fbw fb * fbh fb))"
      "kregion (backbuffer st) (4 * (fbw fb * fbh fb))"
      "apart (address fb) (backbuffer st) (4 * (fbw fb * fbh fb))"
  defines "sh \<equiv> \<lambda>y. shown (fbw fb) sx sy w (backbuffer st) (address fb) y (mem st)"
  shows "y + n \<le> h \<Longrightarrow> copy_rows n fb (of_nat w) (of_nat sx) (of_nat sy) (of_nat y)
      (st\<lparr>mem := sh y\<rparr>) = Some (st\<lparr>mem := sh (y + n)\<rparr>)"
proof (induction n arbitrary: y)
  case (Suc n)
  let ?bb = "backbuffer st" and ?vr = "address fb" and ?r = "row_at (fbw fb) sx sy y"
  have y: "y < h" using Suc.prems by simp
  have e: "?r + 4 * w \<le> 4 * (fbw fb * fbh fb)" using row_end [OF g(1,2) y] by simp
  have scr: "(of_nat sy + of_nat y :: u32) = of_nat (sy + y)" by simp
  have off: "\<not> off_screen fb (of_nat (sy + y))"
    using on_screen [of "sy + y" fb] g(2,3) y by (simp add: fbh_def)
  have "unat (pitch fb) div 4 < 2 ^ 64" by (rule le_less_trans [OF div_le_dividend]) simp
  then have "pitch fb div 4 = of_nat (fbw fb)"
    by (simp add: fbw_def word_unat_eq_iff unat_div unat_of_nat64)
  moreover have "scast (of_nat (sy + y) :: u32) = (of_nat (sy + y) :: u64)"
    using g(2,3) y by (intro scast_of_nat) simp
  ultimately have row: "4 * (scast (of_nat (sy + y) :: u32) * (pitch fb div 4) + scast (of_nat sx :: u32)) =
      (of_nat ?r :: u64)"
    by (simp add: row_at_def scast_of_nat [OF g(4)] algebra_simps)
  have "(of_nat w * 4 :: u32) = of_nat (4 * w)" by simp
  then have len: "scast (of_nat w * 4 :: u32) = (of_nat (4 * w) :: u64)"
    using scast_of_nat [OF g(5)] by (simp only:)
  have u: "unat (of_nat (4 * w) :: u64) = 4 * w" using g(5) by (intro unat_of_nat64) simp
  note parts = apart_parts(1-3) [OF reg(3,1,2) e]
  have "fast_memcpy (?vr + of_nat ?r) (?bb + of_nat ?r) (of_nat (4 * w)) (st\<lparr>mem := sh y\<rparr>) =
      Some (?vr + of_nat ?r + 8 * (of_nat (4 * w) div 8), st\<lparr>mem := sh (Suc y)\<rparr>)"
    using fast_memcpy_kernel [of "?vr + of_nat ?r" "of_nat (4 * w)" "?bb + of_nat ?r" "st\<lparr>mem := sh y\<rparr>"]
      parts unfolding u by (simp add: sh_def)
  then have "copy_rows (Suc n) fb (of_nat w) (of_nat sx) (of_nat sy) (of_nat y) (st\<lparr>mem := sh y\<rparr>) =
      copy_rows n fb (of_nat w) (of_nat sx) (of_nat sy) (of_nat (Suc y)) (st\<lparr>mem := sh (Suc y)\<rparr>)"
    using off by (simp add: scr row len Let_def add.commute [of 1]
      del: of_nat_add of_nat_mult distrib_left_numeral)
  also have "\<dots> = Some (st\<lparr>mem := sh (Suc y + n)\<rparr>)"
    using Suc.prems by (intro Suc.IH) simp
  finally show ?case by simp
qed simp

section \<open>Properties\<close>

text \<open>
  When a frame fits: its width is a multiple of 8 and it is not larger than the screen, whose
  lines do not overlap; the back buffer at \<open>bb\<close> and the video memory are separate ranges of the
  kernel half, each as long as \<open>pitch\<close> times \<open>height\<close> in whole pixels.
\<close>

definition buffer_bytes :: "limine_framebuffer \<Rightarrow> nat" where
  "buffer_bytes fb = 4 * (unat (pitch fb) div 4 * unat (height fb))"

definition frame_fits :: "limine_framebuffer \<Rightarrow> u64 \<Rightarrow> nat \<Rightarrow> nat \<Rightarrow> bool" where
  "frame_fits fb bb w h \<longleftrightarrow> 8 dvd w \<and> w \<le> unat (width fb) \<and> h \<le> unat (height fb) \<and>
     unat (width fb) < 2 ^ 29 \<and> unat (height fb) < 2 ^ 31 \<and> w * h < 2 ^ 31 \<and>
     unat (width fb) \<le> unat (pitch fb) div 4 \<and>
     kregion bb (buffer_bytes fb) \<and> kregion (address fb) (buffer_bytes fb) \<and>
     apart (address fb) bb (buffer_bytes fb)"

text \<open>The byte offset of pixel \<open>x\<close>, \<open>y\<close> of a centred frame of \<open>w\<close> times \<open>h\<close> pixels.\<close>

definition pixel_at :: "limine_framebuffer \<Rightarrow> nat \<Rightarrow> nat \<Rightarrow> nat \<Rightarrow> nat \<Rightarrow> nat" where
  "pixel_at fb w h x y =
     row_at (unat (pitch fb) div 4) ((unat (width fb) - w) div 2) ((unat (height fb) - h) div 2) y + 4 * x"

lemma half_margin:
  assumes "w \<le> unat (s :: u64)" and "unat s < 2 ^ 31"
  shows "(ucast ((s - scast (of_nat w :: u32)) div 2) :: u32) = of_nat ((unat s - w) div 2)"
proof -
  have w: "w < 2 ^ 31" "unat (of_nat w :: u64) = w" using assms by (simp_all add: unat_of_nat64)
  have "unat (s - of_nat w) = unat s - w"
    using assms(1) w(2) by (subst unat_sub) (simp_all add: word_le_nat_alt)
  then have "unat ((s - scast (of_nat w :: u32)) div 2) = (unat s - w) div 2"
    by (simp add: scast_of_nat [OF w(1)] unat_div)
  then show ?thesis by (metis of_nat_unat)
qed

lemma draw_frame_shown:
  assumes fb: "fb_response st = Some (fb # fbs)" and bb: "backbuffer st \<noteq> 0"
    and fits: "frame_fits fb (backbuffer st) w h"
    and img: "readable st (\<lambda>x. within x (backbuffer st) (buffer_bytes fb)) frame (h * (w div 8)) img"
  defines "sx \<equiv> (unat (width fb) - w) div 2" and "sy \<equiv> (unat (height fb) - h) div 2"
    and "fbw \<equiv> unat (pitch fb) div 4"
  shows "draw_frame frame (of_nat w) (of_nat h) st = Some (st\<lparr>mem :=
    shown fbw sx sy w (backbuffer st) (address fb) h
      (drawn fbw sx sy w img (backbuffer st) h (mem st))\<rparr>)"
proof -
  have f: "8 dvd w" "w \<le> unat (width fb)" "h \<le> unat (height fb)" "unat (width fb) < 2 ^ 29"
    "unat (height fb) < 2 ^ 31" "w * h < 2 ^ 31" "unat (width fb) \<le> fbw"
    using fits by (simp_all add: frame_fits_def fbw_def)
  have reg: "kregion (backbuffer st) (4 * (fbw * unat (height fb)))"
    "kregion (address fb) (4 * (fbw * unat (height fb)))"
    "apart (address fb) (backbuffer st) (4 * (fbw * unat (height fb)))"
    using fits by (simp_all only: frame_fits_def buffer_bytes_def fbw_def)
  define b where "b = w div 8"
  have b: "w = 8 * b" using f(1) by (simp add: b_def)
  have w31: "w < 2 ^ 31" and h31: "h < 2 ^ 31" using f(2-5) by simp_all
  have bpr: "word_of_int (sint (of_nat w :: u32) sdiv 8) = (of_nat b :: u32)"
  proof -
    have "int w sdiv 8 = int b" by (simp add: b signed_divide_int_def sgn_if)
    then show ?thesis by (simp only: sint_of_nat [OF w31] of_int_of_nat_eq)
  qed
  have h: "nat (sint (of_nat h :: u32)) = h" by (simp add: sint_of_nat [OF h31])
  have sx: "sx + w \<le> fbw" "sy + h \<le> unat (height fb)" "sx < 2 ^ 31"
    using f by (simp_all add: sx_def sy_def)
  have hb: "h * b < 2 ^ 31" using f(6) b by (simp add: mult.commute)
  have img': "readable st (\<lambda>x. within x (backbuffer st) (4 * (fbw * unat (height fb)))) frame (h * b) img"
    using img by (simp only: buffer_bytes_def fbw_def b_def)
  have margins: "(ucast ((width fb - scast (of_nat w :: u32)) div 2) :: u32) = of_nat sx"
      "(ucast ((height fb - scast (of_nat h :: u32)) div 2) :: u32) = of_nat sy"
    using half_margin [of w "width fb"] half_margin [of h "height fb"] f(2-5) by (simp_all add: sx_def sy_def)
  let ?dr = "drawn fbw sx sy w img (backbuffer st) h (mem st)"
  have "draw_rows h fb frame (of_nat b) (of_nat sx) (of_nat sy) 0 st = Some (st\<lparr>mem := ?dr\<rparr>)"
    using draw_rows_drawn [of sx b fb sy h st frame img 0 h] sx f(5) hb reg(1) img' b
    by (simp add: fbw_def)
  moreover have "copy_rows h fb (of_nat w) (of_nat sx) (of_nat sy) 0 (st\<lparr>mem := ?dr\<rparr>) =
      Some (st\<lparr>mem := shown fbw sx sy w (backbuffer st) (address fb) h ?dr\<rparr>)"
    using copy_rows_shown [of sx w fb sy h "st\<lparr>mem := ?dr\<rparr>" 0 h] sx f(2,4,5) reg
    by (simp add: fbw_def)
  ultimately show ?thesis
    using fb bb unfolding draw_frame_def
    by (simp add: setup_backbuffer_def bpr h margins Let_def)
qed

lemma draw_frame_ok:
  assumes "fb_response st = Some (fb # fbs)" and "backbuffer st \<noteq> 0"
    and "frame_fits fb (backbuffer st) w h"
    and "readable st (\<lambda>x. within x (backbuffer st) (buffer_bytes fb)) frame (h * (w div 8)) img"
  shows "\<exists>m. draw_frame frame (of_nat w) (of_nat h) st = Some (st\<lparr>mem := m\<rparr>) \<and>
    (\<forall>y<h. \<forall>x<w. ldw 4 m (address fb + of_nat (pixel_at fb w h x y)) =
       (if frame_bit img (y * w + x) then 0xFFFFFFFF else 0xFF000000 :: u32)) \<and>
    (\<forall>a. (\<forall>y<h. \<not> within a (address fb + of_nat (pixel_at fb w h 0 y)) (4 * w)) \<longrightarrow>
       \<not> within a (backbuffer st) (buffer_bytes fb) \<longrightarrow> m a = mem st a)"
proof -
  define sx where "sx = (unat (width fb) - w) div 2"
  define sy where "sy = (unat (height fb) - h) div 2"
  define fbw where "fbw = unat (pitch fb) div 4"
  define fbh where "fbh = unat (height fb)"
  let ?bb = "backbuffer st" and ?vr = "address fb"
  let ?dr = "drawn fbw sx sy w img ?bb h (mem st)"
  let ?m = "shown fbw sx sy w ?bb ?vr h ?dr"
  have f: "w \<le> unat (width fb)" "h \<le> fbh" "unat (width fb) \<le> fbw"
    using assms(3) by (simp_all add: frame_fits_def fbw_def fbh_def)
  have size: "buffer_bytes fb = 4 * (fbw * fbh)" by (simp only: buffer_bytes_def fbw_def fbh_def)
  have reg: "kregion ?vr (4 * (fbw * fbh))" "kregion ?bb (4 * (fbw * fbh))" "apart ?vr ?bb (4 * (fbw * fbh))"
    using assms(3) by (simp_all only: frame_fits_def size)
  have s: "4 * (fbw * fbh) \<le> 2 ^ 64" using reg(1) unfolding kregion_def by linarith
  have g: "sx + w \<le> fbw" "sy + h \<le> fbh" using f by (simp_all add: sx_def sy_def fbh_def)
  have at: "pixel_at fb w h x y = row_at fbw sx sy y + 4 * x" for x y
    by (simp add: pixel_at_def sx_def sy_def fbw_def)
  have "ldw 4 ?m (?vr + of_nat (pixel_at fb w h x y)) = colour (frame_bit img (y * w + x))"
    if "y < h" "x < w" for x y
  proof -
    have "?m (?vr + of_nat (row_at fbw sx sy y) + of_nat (4 * x + c)) =
        ?dr (?bb + of_nat (row_at fbw sx sy y) + of_nat (4 * x + c))" if "c < 4" for c
      using \<open>y < h\<close> \<open>x < w\<close> that by (intro shown_byte [OF g reg]) simp_all
    then have "ldw 4 ?m (?vr + of_nat (row_at fbw sx sy y) + 4 * of_nat x) =
        (ldw 4 ?dr (?bb + of_nat (row_at fbw sx sy y) + 4 * of_nat x) :: u32)"
      by (intro ldw_shift) (simp add: add.assoc)
    then show ?thesis using drawn_pixel [OF g s, of h y x img ?bb "mem st"] that
      by (simp add: at add.assoc)
  qed
  moreover have "?m a = mem st a"
    if out: "\<forall>y<h. \<not> within a (?vr + of_nat (pixel_at fb w h 0 y)) (4 * w)"
      and bb: "\<not> within a ?bb (buffer_bytes fb)" for a
  proof -
    have e: "row_at fbw sx sy y + 4 * w \<le> 2 ^ 64" if "y < h" for y
      using row_end [OF g that] s by linarith
    have "\<not> in_window fbw sx sy w h (unat (a - ?vr))"
      using out within_offset_iff [OF e, of _ a ?vr] by (auto simp: in_window_def at)
    then have "?m a = ?dr a" by (intro shown_other [OF g s]) simp_all
    also have "\<not> in_window fbw sx sy w h (unat (a - ?bb))"
      using bb in_window_within [OF g, of a ?bb] by (auto simp: size)
    then have "?dr a = mem st a" by (intro drawn_other [OF g s]) simp_all
    finally show ?thesis .
  qed
  moreover have "draw_frame frame (of_nat w) (of_nat h) st = Some (st\<lparr>mem := ?m\<rparr>)"
    using draw_frame_shown [OF assms] by (simp only: sx_def sy_def fbw_def)
  ultimately show ?thesis by (auto simp: colour_def)
qed

text \<open>
  C10. System call 4 for a frame that fits shows it: every pixel \<open>(x, y)\<close> of the centred rectangle
  is white where bit \<open>y * w + x\<close> of the packed frame is 1 and black where it is 0, all other
  bytes of the video memory are as they were, and nothing outside the two buffers changes.
\<close>

theorem draw_frame_pixels:
  assumes "fb_response st = Some (fb # fbs)" and "backbuffer st \<noteq> 0"
    and "frame_fits fb (backbuffer st) w h"
    and "readable st (\<lambda>x. within x (backbuffer st) (buffer_bytes fb)) frame (h * (w div 8)) img"
  shows "\<exists>m. draw_frame frame (of_nat w) (of_nat h) st = Some (st\<lparr>mem := m\<rparr>) \<and>
    (\<forall>y<h. \<forall>x<w. ldw 4 m (address fb + of_nat (pixel_at fb w h x y)) =
       (if frame_bit img (y * w + x) then 0xFFFFFFFF else 0xFF000000 :: u32)) \<and>
    (\<forall>a. (\<forall>y<h. \<not> within a (address fb + of_nat (pixel_at fb w h 0 y)) (4 * w)) \<longrightarrow>
       \<not> within a (backbuffer st) (buffer_bytes fb) \<longrightarrow> m a = mem st a)"
  using assms by (rule draw_frame_ok)

definition demo_fb :: limine_framebuffer where
  "demo_fb = \<lparr>address = 0xFFFF800010000000, width = 16, height = 4, pitch = 64\<rparr>"

definition demo_syscalls :: syscalls where
  "demo_syscalls = fs.extend demo_fs
     \<lparr>fb_response = Some [demo_fb], backbuffer = 0xFFFF900000100000, backbuffer_size = 256\<rparr>"

lemma demo_syscalls_simps:
  "fb_response demo_syscalls = Some [demo_fb]" "backbuffer demo_syscalls = 0xFFFF900000100000"
  "mem demo_syscalls = mem demo_fs" "cr3 demo_syscalls = 0"
  "hhdm_offset demo_syscalls = 0xFFFF800000000000" "inputs demo_syscalls = (\<lambda>_ _. 0xFF)"
  by (simp_all add: demo_syscalls_def fs.defs demo_fs_def tables.defs demo_tables_def segments.defs
    demo_segments_def process.defs demo_process_def)

lemma demo_fb_fits: "frame_fits demo_fb (backbuffer demo_syscalls) 8 2" "buffer_bytes demo_fb = 256"
  by (simp_all add: frame_fits_def demo_fb_def demo_syscalls_simps buffer_bytes_def kregion_def
    khalf_def apart_def)

theorem draw_frame_pixels_witness:
  "\<exists>m. draw_frame 0xFFFF800000001000 8 2 demo_syscalls = Some (demo_syscalls\<lparr>mem := m\<rparr>) \<and>
     ldw 4 m 0xFFFF800010000050 = (0xFF000000 :: u32) \<and>
     ldw 4 m 0xFFFF800010000054 = (0xFFFFFFFF :: u32)"
proof -
  let ?img = "\<lambda>i. if i = 0 then 0x42 else mem demo_fs (0xFFFF800000001000 + of_nat i)"
  have b0: "mem demo_fs 0xFFFF800000001000 = 0x42"
    using demo_archive(4) by simp
  have "readable demo_syscalls (\<lambda>x. within x (backbuffer demo_syscalls) (buffer_bytes demo_fb))
      0xFFFF800000001000 (2 * (8 div 8)) ?img"
    unfolding readable_def
  proof (intro allI impI)
    fix m and i :: nat
    assume m: "\<forall>x. \<not> within x (backbuffer demo_syscalls) (buffer_bytes demo_fb) \<longrightarrow> m x = mem demo_syscalls x"
      and "i < 2 * (8 div 8)"
    then have "i = 0 \<or> i = 1" by auto
    then show "ld8 (demo_syscalls\<lparr>mem := m\<rparr>) (0xFFFF800000001000 + of_nat i) = Some (?img i)"
      using b0 m [rule_format, of "0xFFFF800000001000"] m [rule_format, of "0xFFFF800000001001"]
      by (elim disjE) (simp_all add: demo_fb_fits demo_syscalls_simps ld8_kernel khalf_def within_def)
  qed
  from draw_frame_pixels [OF _ _ demo_fb_fits(1) this] obtain m where
    m: "draw_frame 0xFFFF800000001000 8 2 demo_syscalls = Some (demo_syscalls\<lparr>mem := m\<rparr>)"
      "\<forall>y<2. \<forall>x<8. ldw 4 m (address demo_fb + of_nat (pixel_at demo_fb 8 2 x y)) =
        (if frame_bit ?img (y * 8 + x) then 0xFFFFFFFF else 0xFF000000 :: u32)"
    using demo_syscalls_simps(1,2) by auto
  have "pixel_at demo_fb 8 2 0 0 = 0x50" "pixel_at demo_fb 8 2 1 0 = 0x54"
    "address demo_fb = 0xFFFF800010000000"
    by (simp_all add: pixel_at_def row_at_def demo_fb_def)
  moreover have "\<not> frame_bit ?img 0" "frame_bit ?img 1"
    by (simp_all add: frame_bit_def bit_numeral_rec)
  ultimately have "ldw 4 m 0xFFFF800010000050 = (0xFF000000 :: u32)"
      "ldw 4 m 0xFFFF800010000054 = (0xFFFFFFFF :: u32)"
    using m(2) [rule_format, of 0 0] m(2) [rule_format, of 0 1] by simp_all
  then show ?thesis using m(1) by blast
qed

lemma st8_unmapped: "resolve st a = None \<Longrightarrow> st8 st a v = None"
  by (simp add: st8_def)

text \<open>
  C36. When the heap has no block as large as the screen and page 0 is not mapped, as after
  \<open>vmm_initialize\<close>, the first system call 4 does not come back: the NULL that \<open>kmalloc\<close> returns is
  used as the back buffer, and clearing it faults.
\<close>

theorem draw_frame_without_memory:
  assumes "fb_response st = Some (fb # fbs)" and "backbuffer st = 0" and "tx_live st"
    and "heap st bs" and "unat (pitch fb * height fb) + 24 < 2 ^ 64" and "pitch fb * height fb \<noteq> 0"
    and "alloc_list (unat (pitch fb * height fb) + 24) bs = None" and "walk st 0 = None"
  shows "draw_frame frame w h st = None"
proof -
  let ?st = "st\<lparr>backbuffer_size := pitch fb * height fb\<rparr>"
  have "heap ?st bs" "tx_live ?st" using assms(3,4) by (simp_all add: heap_def tx_live_def)
  then obtain st1 out where 1: "kmalloc (pitch fb * height fb) ?st = Some (0, st1)" "printed out ?st st1"
    using kmalloc_ok [of ?st bs "pitch fb * height fb"] assms(5,7) by auto
  have b: "backbuffer_size st1 = pitch fb * height fb" using 1(2) by (auto simp: printed_def)
  have "walk (st1\<lparr>backbuffer := 0\<rparr>) 0 = walk st 0"
    using 1(2) by (simp add: walk_def printed_frame)
  then have "resolve (st1\<lparr>backbuffer := 0\<rparr>) 0 = None"
    using assms(8) by (simp add: resolve_def khalf_def)
  moreover obtain n where "unat (pitch fb * height fb) = Suc n"
    using assms(6) by (cases "unat (pitch fb * height fb)") (simp_all add: unsigned_eq_0_iff)
  ultimately have "memset 0 0 (pitch fb * height fb) (st1\<lparr>backbuffer := 0\<rparr>) = None"
    by (simp add: memset_def st8_unmapped)
  then have "setup_backbuffer fb st = None"
    using 1(1) assms(2) b by (simp add: setup_backbuffer_def Let_def)
  then show ?thesis using assms(1) by (simp add: draw_frame_def)
qed

theorem draw_frame_without_memory_witness:
  "draw_frame 0 8 8 (demo_syscalls\<lparr>mem := mem demo_thread, free_list := 0xFFFF910000000000,
     backbuffer := 0, fb_response := Some [demo_fb\<lparr>height := 1024\<rparr>]\<rparr>) = None"
proof (rule draw_frame_without_memory [where bs = "[(4096, True)]" and fbs = "[]" and
      fb = "demo_fb\<lparr>height := 1024\<rparr>"])
  let ?st = "demo_syscalls\<lparr>mem := mem demo_thread, free_list := 0xFFFF910000000000,
     backbuffer := 0, fb_response := Some [demo_fb\<lparr>height := 1024\<rparr>]\<rparr>"
  show "heap ?st [(4096, True)]"
    using demo_thread_heap by (simp add: heap_def demo_thread_simps del: heap_at.simps)
  have m0: "mem demo_thread 0xFFFF800000000000 = 0" by (simp add: demo_thread_def far_stw)
  have "\<not> present (entry_at (mem demo_thread) 0xFFFF800000000000 0 0)"
    using m0 by (simp add: entry_at_def entry_addr_def bit_ldw)
  then show "walk ?st 0 = None"
    by (simp add: walk_def va_path_def page_index_def Let_def demo_syscalls_simps)
qed (auto simp: demo_fb_def demo_syscalls_simps tx_live_def)

section \<open>Registers across a system call\<close>

lemma reg_list_nth:
  "reg_list r ! 3 = rbx r" "reg_list r ! 4 = rdx r" "reg_list r ! 5 = rcx r" "reg_list r ! 6 = rax r"
  "(reg_list r)[6 := v] = reg_list (r\<lparr>rax := v\<rparr>)" "List.length (reg_list r) = 20"
  by (simp_all add: reg_list_def)

text \<open>What the handler reads through \<open>regs\<close>, and what storing to \<open>regs->rax\<close> does to the frame.\<close>

lemma frame_reads:
  assumes "frame_at st sp r"
  shows "ld64 st (sp + 24) = Some (rbx r)" "ld64 st (sp + 32) = Some (rdx r)"
    "ld64 st (sp + 40) = Some (rcx r)" "ld64 st (sp + 48) = Some (rax r)"
    "\<exists>m. st64 st (sp + 48) v = Some (st\<lparr>mem := m\<rparr>) \<and> frame_at (st\<lparr>mem := m\<rparr>) sp (r\<lparr>rax := v\<rparr>) \<and>
       (\<forall>x. \<not> within x sp 160 \<longrightarrow> m x = mem st x)"
proof -
  have reg: "kregion sp 160" and ws: "words (mem st) sp 20 = reg_list r"
    using assms by (simp_all add: frame_at_def)
  have cell: "kregion (sp + of_nat (8 * i)) 8" if "i < 20" for i
    using kregion_offset [OF reg, of "8 * i"] that by (auto intro: kregion_mono)
  have w: "ldw 8 (mem st) (sp + 8 * of_nat i) = reg_list r ! i" if "i < 20" for i
    using words_nth [OF that, of "mem st" sp] ws by simp
  show "ld64 st (sp + 24) = Some (rbx r)" "ld64 st (sp + 32) = Some (rdx r)"
    "ld64 st (sp + 40) = Some (rcx r)" "ld64 st (sp + 48) = Some (rax r)"
    using cell [of 3] cell [of 4] cell [of 5] cell [of 6] w [of 3] w [of 4] w [of 5] w [of 6]
    by (simp_all add: kernel_mem reg_list_nth)
  let ?m = "stw 8 (mem st) (sp + 8 * of_nat 6) v"
  have "st64 st (sp + 48) v = Some (st\<lparr>mem := ?m\<rparr>)"
    using cell [of 6] by (simp add: kernel_mem)
  moreover have "frame_at (st\<lparr>mem := ?m\<rparr>) sp (r\<lparr>rax := v\<rparr>)"
    using reg ws words_update [of 6 20 "mem st" sp v] by (simp add: frame_at_def reg_list_nth)
  moreover have "?m x = mem st x" if "\<not> within x sp 160" for x
    using that within_offset_iff [of 48 8 x sp] by (intro stw_outside) (auto simp: within_def)
  ultimately show "\<exists>m. st64 st (sp + 48) v = Some (st\<lparr>mem := m\<rparr>) \<and>
      frame_at (st\<lparr>mem := m\<rparr>) sp (r\<lparr>rax := v\<rparr>) \<and> (\<forall>x. \<not> within x sp 160 \<longrightarrow> m x = mem st x)"
    by blast
qed

text \<open>A call whose handler leaves the saved frame as that of \<open>r'\<close> comes back with \<open>r'\<close>.\<close>

lemma isr128_returns:
  assumes "kregion (sp - 160) 160"
    and "\<And>m. frame_at (st\<lparr>mem := m\<rparr>) (sp - 160) r \<Longrightarrow>
      (\<And>x. \<not> within x (sp - 160) 160 \<Longrightarrow> m x = mem st x) \<Longrightarrow>
      \<exists>st'. syscall_handler irq (sp - 160) (st\<lparr>mem := m\<rparr>) = Some (Returned st') \<and>
        frame_at st' (sp - 160) r' \<and> P st'"
  shows "\<exists>st'. isr128 irq r sp st = Some (Some r', st') \<and> P st'"
proof -
  obtain m where m: "do { (sp, st) \<leftarrow> push_list (cpu_frame r) sp st; push_list (pusha64 r) sp st } =
        Some (sp - 160, st\<lparr>mem := m\<rparr>)" "frame_at (st\<lparr>mem := m\<rparr>) (sp - 160) r"
      "\<forall>x. \<not> within x (sp - 160) 160 \<longrightarrow> m x = mem st x"
    using save_frame [OF assms(1), of r st] by blast
  obtain st' where st': "syscall_handler irq (sp - 160) (st\<lparr>mem := m\<rparr>) = Some (Returned st')"
      "frame_at st' (sp - 160) r'" "P st'"
    using assms(2) [OF m(2)] m(3) by blast
  have "isr128 irq r sp st = Some (Some r', st')"
    using m(1) st'(1) restore_frame [OF st'(2)]
    by (auto simp: isr128_def bind_eq_Some_conv)
  then show ?thesis using st'(3) by blast
qed

text \<open>
  \<open>only_sends out sp st st'\<close>: the call has sent \<open>out\<close> to the serial port, polling its status, has
  used the frame below \<open>sp\<close>, and has changed nothing else of the state.
\<close>

definition only_sends :: "u8 list \<Rightarrow> u64 \<Rightarrow> 'a machine_scheme \<Rightarrow> 'a machine_scheme \<Rightarrow> bool" where
  "only_sends out sp st st' \<longleftrightarrow>
     (\<exists>m k. st' = st\<lparr>mem := m, in_pos := (in_pos st)(PORT + 5 := k),
              outlog := outlog st @ map (Pair PORT) out\<rparr> \<and>
        (\<forall>x. \<not> within x (sp - 160) 160 \<longrightarrow> m x = mem st x))"

lemma printed_only_sends:
  assumes "printed out (st\<lparr>mem := m\<rparr>) st'" and "\<And>x. \<not> within x (sp - 160) 160 \<Longrightarrow> m x = mem st x"
  shows "only_sends out sp st st'"
proof -
  obtain k where "st' = st\<lparr>mem := m, in_pos := (in_pos st)(PORT + 5 := k),
      outlog := outlog st @ map (Pair PORT) out\<rparr>"
    using assms(1) by (auto simp: printed_def)
  then show ?thesis using assms(2) unfolding only_sends_def by blast
qed

lemma syscall_uptime:
  assumes "kregion (sp - 160) 160" and "rax r = 3"
  shows "\<exists>st'. isr128 irq r sp st = Some (Some (r\<lparr>rax := uptime_ms st\<rparr>), st') \<and> only_sends [] sp st st'"
proof (rule isr128_returns [OF assms(1)])
  fix m
  assume f: "frame_at (st\<lparr>mem := m\<rparr>) (sp - 160) r" "\<And>x. \<not> within x (sp - 160) 160 \<Longrightarrow> m x = mem st x"
  obtain m' where m': "st64 (st\<lparr>mem := m\<rparr>) (sp - 160 + 48) (uptime_ms st) = Some (st\<lparr>mem := m'\<rparr>)"
      "frame_at (st\<lparr>mem := m'\<rparr>) (sp - 160) (r\<lparr>rax := uptime_ms st\<rparr>)"
      "\<forall>x. \<not> within x (sp - 160) 160 \<longrightarrow> m' x = m x"
    using frame_reads(5) [OF f(1), of "uptime_ms st"] by auto
  have "only_sends [] sp st (st\<lparr>mem := m'\<rparr>)"
    by (rule printed_only_sends [OF printed_Nil]) (use f(2) m'(3) in simp)
  then show "\<exists>st'. syscall_handler irq (sp - 160) (st\<lparr>mem := m\<rparr>) = Some (Returned st') \<and>
      frame_at st' (sp - 160) (r\<lparr>rax := uptime_ms st\<rparr>) \<and> only_sends [] sp st st'"
    using frame_reads(4) [OF f(1)] assms(2) m'(1,2)
    by (intro exI [of _ "st\<lparr>mem := m'\<rparr>"]) (simp add: syscall_handler_def)
qed

lemma printed_syscall:
  assumes "printed out st st'" and "frame_at st sp r"
  shows "frame_at st' sp r"
  using assms(2) frame_at_cong [of sp st' st r] printed_frame(1) [OF assms(1)] by simp

lemma syscall_prints:
  assumes "kregion (sp - 160) 160" and "tx_live st"
    and "\<And>st. tx_live st \<Longrightarrow> frame_at st (sp - 160) r \<Longrightarrow>
      \<exists>st'. syscall_handler irq (sp - 160) st = Some (Returned st') \<and> printed out st st'"
  shows "\<exists>st'. isr128 irq r sp st = Some (Some r, st') \<and> only_sends out sp st st'"
proof (rule isr128_returns [OF assms(1)])
  fix m
  assume f: "frame_at (st\<lparr>mem := m\<rparr>) (sp - 160) r" "\<And>x. \<not> within x (sp - 160) 160 \<Longrightarrow> m x = mem st x"
  have "tx_live (st\<lparr>mem := m\<rparr>)" using assms(2) by (simp add: tx_live_def)
  from assms(3) [OF this f(1)] obtain st' where
    st': "syscall_handler irq (sp - 160) (st\<lparr>mem := m\<rparr>) = Some (Returned st')"
      "printed out (st\<lparr>mem := m\<rparr>) st'" by blast
  then show "\<exists>st'. syscall_handler irq (sp - 160) (st\<lparr>mem := m\<rparr>) = Some (Returned st') \<and>
      frame_at st' (sp - 160) r \<and> only_sends out sp st st'"
    using printed_syscall [OF st'(2) f(1)] printed_only_sends [OF st'(2) f(2)] by blast
qed

text \<open>System call 2 stops the processor behind its message.\<close>

lemma syscall_exit:
  assumes "kregion (sp - 160) 160" and "tx_live st" and "rax r = 2"
  shows "\<exists>st'. isr128 irq r sp st = Some (None, st') \<and>
    only_sends (lit (nl @ ''Video Finished! System Halted.'' @ nl)) sp st st'"
proof -
  obtain m where m: "do { (sp, st) \<leftarrow> push_list (cpu_frame r) sp st; push_list (pusha64 r) sp st } =
        Some (sp - 160, st\<lparr>mem := m\<rparr>)" "frame_at (st\<lparr>mem := m\<rparr>) (sp - 160) r"
      "\<forall>x. \<not> within x (sp - 160) 160 \<longrightarrow> m x = mem st x"
    using save_frame [OF assms(1), of r st] by blast
  have "tx_live (st\<lparr>mem := m\<rparr>)" using assms(2) by (simp add: tx_live_def)
  moreover have "render Map.empty (nl @ ''Video Finished! System Halted.'' @ nl) [] =
      Some (lit (nl @ ''Video Finished! System Halted.'' @ nl))" by simp
  ultimately obtain st' where st': "kprintf (nl @ ''Video Finished! System Halted.'' @ nl) []
        (st\<lparr>mem := m\<rparr>) = Some st'"
      "printed (lit (nl @ ''Video Finished! System Halted.'' @ nl)) (st\<lparr>mem := m\<rparr>) st'"
    using kprintf_live by fastforce
  have "syscall_handler irq (sp - 160) (st\<lparr>mem := m\<rparr>) = Some (Halted st')"
    using st'(1) frame_reads(4) [OF m(2)] assms(3) by (simp add: syscall_handler_def)
  then have "isr128 irq r sp st = Some (None, st')"
    using m(1) by (auto simp: isr128_def bind_eq_Some_conv)
  then show ?thesis using printed_only_sends [OF st'(2)] m(3) by blast
qed

text \<open>
  System call 5 waits for an interrupt, whatever that does, as long as it comes back and leaves
  the frame on this stack alone.
\<close>

definition spares_frame ::
  "('a machine_scheme \<Rightarrow> 'a machine_scheme option) \<Rightarrow> u64 \<Rightarrow> 'a machine_scheme \<Rightarrow> bool" where
  "spares_frame irq sp st \<longleftrightarrow>
     (\<forall>m. (\<forall>x. \<not> within x (sp - 160) 160 \<longrightarrow> m x = mem st x) \<longrightarrow>
        (\<exists>st'. irq (st\<lparr>mem := m\<rparr>) = Some st' \<and> (\<forall>x. within x (sp - 160) 160 \<longrightarrow> mem st' x = m x)))"

lemma syscall_yield:
  assumes "kregion (sp - 160) 160" and "rax r = 5" and "spares_frame irq sp st"
  shows "\<exists>st'. isr128 irq r sp st = Some (Some r, st') \<and> (\<exists>m. irq (st\<lparr>mem := m\<rparr>) = Some st')"
proof (rule isr128_returns [OF assms(1)])
  fix m
  assume f: "frame_at (st\<lparr>mem := m\<rparr>) (sp - 160) r" "\<And>x. \<not> within x (sp - 160) 160 \<Longrightarrow> m x = mem st x"
  obtain st' where st': "irq (st\<lparr>mem := m\<rparr>) = Some st'" "\<forall>x. within x (sp - 160) 160 \<longrightarrow> mem st' x = m x"
    using assms(3) f(2) unfolding spares_frame_def by blast
  then have "frame_at st' (sp - 160) r"
    using f(1) frame_at_cong [of "sp - 160" st' "st\<lparr>mem := m\<rparr>" r] by simp
  then show "\<exists>st'. syscall_handler irq (sp - 160) (st\<lparr>mem := m\<rparr>) = Some (Returned st') \<and>
      frame_at st' (sp - 160) r \<and> (\<exists>m. irq (st\<lparr>mem := m\<rparr>) = Some st')"
    using st'(1) frame_reads(4) [OF f(1)] assms(2)
    by (intro exI [of _ st']) (auto simp: syscall_handler_def)
qed

text \<open>
  C33. Seen from the program, through \<open>isr128\<close>, every system call but 4, which draws: 1 sends the
  low byte of rbx; 2 sends its message and stops the processor, and the program does not go on; 3
  returns the uptime in rax; 5 returns when the interrupt it waits for has left the frame on this
  stack alone; every other number is reported with its low 32 bits as a signed decimal number.
  The program goes on with every register it had, but for the result of 3; and the calls other
  than 5, whose interrupt is arbitrary, change nothing in the machine but the saved frame, the
  polling of the serial port and what was sent.
\<close>

theorem system_calls_keep_registers:
  assumes "kregion (sp - 160) 160" and "tx_live st"
  shows "(rax r = 1 \<longrightarrow> (\<exists>st'. isr128 irq r sp st = Some (Some r, st') \<and>
      only_sends [ucast (rbx r)] sp st st')) \<and>
    (rax r = 2 \<longrightarrow> (\<exists>st'. isr128 irq r sp st = Some (None, st') \<and>
      only_sends (lit (nl @ ''Video Finished! System Halted.'' @ nl)) sp st st')) \<and>
    (rax r = 3 \<longrightarrow> (\<exists>st'. isr128 irq r sp st = Some (Some (r\<lparr>rax := uptime_ms st\<rparr>), st') \<and>
      only_sends [] sp st st')) \<and>
    (rax r = 5 \<longrightarrow> spares_frame irq sp st \<longrightarrow> (\<exists>st'. isr128 irq r sp st = Some (Some r, st') \<and>
      (\<exists>m. irq (st\<lparr>mem := m\<rparr>) = Some st'))) \<and>
    (rax r \<notin> {1, 2, 3, 4, 5} \<longrightarrow> (\<exists>st'. isr128 irq r sp st = Some (Some r, st') \<and>
      only_sends (lit ''Unknown syscall '' @ number_text False (ucast (rax r)) @ lit nl) sp st st'))"
proof (intro conjI impI)
  show "\<exists>st'. isr128 irq r sp st = Some (Some (r\<lparr>rax := uptime_ms st\<rparr>), st') \<and> only_sends [] sp st st'"
    if "rax r = 3" by (rule syscall_uptime [OF assms(1) that])
  show "\<exists>st'. isr128 irq r sp st = Some (None, st') \<and>
      only_sends (lit (nl @ ''Video Finished! System Halted.'' @ nl)) sp st st'"
    if "rax r = 2" by (rule syscall_exit [OF assms that])
  show "\<exists>st'. isr128 irq r sp st = Some (Some r, st') \<and> (\<exists>m. irq (st\<lparr>mem := m\<rparr>) = Some st')"
    if "rax r = 5" "spares_frame irq sp st" by (rule syscall_yield [OF assms(1) that])
  show "\<exists>st'. isr128 irq r sp st = Some (Some r, st') \<and> only_sends [ucast (rbx r)] sp st st'"
    if one: "rax r = 1"
  proof (rule syscall_prints [OF assms])
    fix st :: "'a syscalls_scheme"
    assume st: "tx_live st" "frame_at st (sp - 160) r"
    then show "\<exists>st'. syscall_handler irq (sp - 160) st = Some (Returned st') \<and>
        printed [ucast (rbx r)] st st'"
      using serial_putchar_live [OF st(1), of "ucast (rbx r)"] one frame_reads(1,4) [OF st(2)]
      by (auto simp: syscall_handler_def)
  qed
  let ?out = "lit ''Unknown syscall '' @ number_text False (ucast (rax r)) @ lit nl"
  show "\<exists>st'. isr128 irq r sp st = Some (Some r, st') \<and> only_sends ?out sp st st'"
    if other: "rax r \<notin> {1, 2, 3, 4, 5}"
  proof (rule syscall_prints [OF assms])
    fix st :: "'a syscalls_scheme"
    assume st: "tx_live st" "frame_at st (sp - 160) r"
    have "render Map.empty (''Unknown syscall %d'' @ nl) [rax r] = Some ?out" by simp
    moreover have "List.length ?out \<le> 2147483647"
      using length_number_text [of False "ucast (rax r)"] by simp
    ultimately obtain st' where "kprintf (''Unknown syscall %d'' @ nl) [rax r] st = Some st'"
        "printed ?out st st'" using kprintf_live st(1) by blast
    then show "\<exists>st'. syscall_handler irq (sp - 160) st = Some (Returned st') \<and> printed ?out st st'"
      using other frame_reads(4) [OF st(2)] by (simp add: syscall_handler_def)
  qed
qed

definition demo_regs :: registers where
  "demo_regs = \<lparr>rdi = 0, rsi = 0, rbp = 0, rbx = 0x41, rdx = 0, rcx = 0, rax = 1, r8 = 0, r9 = 0,
     r10 = 0, r11 = 0, r12 = 0, r13 = 0, r14 = 0, r15 = 7, rip = 0x400010, cs = 0x1B, rflags = 0x202,
     rsp = 0x7FFFF0, ss = 0x23\<rparr>"

theorem system_calls_keep_registers_witness:
  "(\<exists>st'. isr128 Some demo_regs 0xFFFF900000008000 demo_syscalls = Some (Some demo_regs, st') \<and>
     outlog st' = outlog demo_syscalls @ [(PORT, 0x41)]) \<and>
   (\<exists>st'. isr128 Some (demo_regs\<lparr>rax := 5\<rparr>) 0xFFFF900000008000 demo_syscalls =
     Some (Some (demo_regs\<lparr>rax := 5\<rparr>), st'))"
proof -
  have ok: "kregion (0xFFFF900000008000 - 160) 160" "tx_live demo_syscalls"
    by (auto simp: kregion_def khalf_def tx_live_def demo_syscalls_simps)
  have "spares_frame Some 0xFFFF900000008000 demo_syscalls" by (auto simp: spares_frame_def)
  then show ?thesis
    using system_calls_keep_registers [OF ok, of demo_regs Some]
      system_calls_keep_registers [OF ok, of "demo_regs\<lparr>rax := 5\<rparr>" Some]
    by (auto simp: demo_regs_def only_sends_def)
qed

end
