(* ===== verification/Video.thy ===== *)
theory Video
  imports Syscall
begin

text \<open>
  The video player (userland/init/init.c, with \<open>abort\<close> of libc/stdlib/abort.c) and the encoder of
  misc/index.js that makes its input. The player is a user program: \<open>rd\<close> reads a byte of its
  address space, where \<open>None\<close> is a fault, \<open>clk n\<close> is the answer to its uptime call number \<open>n\<close>,
  and the frames it passes to system call 4 and the text it prints are logged in its state. The
  player never stops by itself; its endless loop is modelled by the number of passes made.
\<close>

unbundle bit_operations_syntax

section \<open>The encoder\<close>

text \<open>
  The loop of \<open>process\<close> over the pixels, given as their brightness; \<open>currentColor\<close> is \<open>None\<close>
  where the code has -1.
\<close>

definition run_byte :: "bool \<Rightarrow> nat \<Rightarrow> u8" where
  "run_byte c n = push_bit 7 (if c then 1 else 0) OR of_nat n"

fun rle_loop :: "bool list \<Rightarrow> bool option \<Rightarrow> nat \<Rightarrow> u8 list \<Rightarrow> bool option \<times> nat \<times> u8 list" where
  "rle_loop [] currentColor runLength rleBuffer = (currentColor, runLength, rleBuffer)"
| "rle_loop (isBright # px) currentColor runLength rleBuffer =
     (case currentColor of
        None \<Rightarrow> rle_loop px (Some isBright) 1 rleBuffer
      | Some c \<Rightarrow>
          if c = isBright \<and> runLength < 127 then rle_loop px (Some c) (runLength + 1) rleBuffer
          else rle_loop px (Some isBright) 1 (rleBuffer @ [run_byte c runLength]))"

definition rle_encode :: "bool list list \<Rightarrow> u8 list" where
  "rle_encode frames =
     (case rle_loop (concat frames) None 0 [] of
        (Some c, runLength, rleBuffer) \<Rightarrow>
          if runLength > 0 then rleBuffer @ [run_byte c runLength] else rleBuffer
      | (None, runLength, rleBuffer) \<Rightarrow> rleBuffer)"

text \<open>A pixel is bright when the mean of its three bytes is at least 128.\<close>

definition is_bright :: "u8 \<times> u8 \<times> u8 \<Rightarrow> bool" where
  "is_bright p = (case p of (r, g, b) \<Rightarrow> unat r + unat g + unat b \<ge> 3 * 128)"

definition le_bytes :: "nat \<Rightarrow> nat \<Rightarrow> u8 list" where
  "le_bytes k n = map (\<lambda>i. of_nat (n div 256 ^ i mod 256)) [0..<k]"

text \<open>The whole file: magic, width, height, number of frames, runs.\<close>

definition video_file :: "nat \<Rightarrow> nat \<Rightarrow> (u8 \<times> u8 \<times> u8) list list \<Rightarrow> u8 list" where
  "video_file w h frames =
     [0x42, 0x41, 0x44, 0] @ le_bytes 2 w @ le_bytes 2 h @ le_bytes 4 (List.length frames) @
     rle_encode (map (map is_bright) frames)"

section \<open>init.c\<close>

abbreviation MAX_FRAME_BYTES :: nat where "MAX_FRAME_BYTES \<equiv> 65536"

record player =
  frame_buffer :: "u8 list"
  rle_ptr :: u64
  current_color :: u8
  current_run :: u8
  drawn_frames :: "(u8 list \<times> u32 \<times> u32) list"
  clock_reads :: nat
  console :: "u8 list"

datatype 'a run = Aborted 'a | Running 'a

text \<open>The three system calls, and \<open>printf\<close> with the text it prints (theory \<open>Printf\<close>).\<close>

definition uptime :: "(nat \<Rightarrow> u64) \<Rightarrow> player \<Rightarrow> u64 \<times> player" where
  "uptime clk st = (clk (clock_reads st), st\<lparr>clock_reads := Suc (clock_reads st)\<rparr>)"

definition draw_call :: "u32 \<Rightarrow> u32 \<Rightarrow> player \<Rightarrow> player" where
  "draw_call w h st = st\<lparr>drawn_frames := drawn_frames st @ [(frame_buffer st, w, h)]\<rparr>"

definition yield_call :: "player \<Rightarrow> player" where
  "yield_call st = st"

definition say :: "string \<Rightarrow> u64 list \<Rightarrow> player \<Rightarrow> player option" where
  "say fmt args st = map_option (\<lambda>out. st\<lparr>console := console st @ out\<rparr>) (render Map.empty fmt args)"

definition abort :: "player \<Rightarrow> player run option" where
  "abort st = map_option Aborted (say ''Userland Program Aborted.'' [] st)"

text \<open>The search for the magic in the first 4096 bytes of the mapping.\<close>

definition magic_at :: "(u64 \<Rightarrow> u8 option) \<Rightarrow> u64 \<Rightarrow> bool option" where
  "magic_at rd p =
     do {
       a \<leftarrow> rd p;
       if a \<noteq> 0x42 then Some False else do {
       b \<leftarrow> rd (p + 1);
       if b \<noteq> 0x41 then Some False else do {
       c \<leftarrow> rd (p + 2);
       if c \<noteq> 0x44 then Some False else do {
       d \<leftarrow> rd (p + 3);
       Some (d = 0)
     }}}}"

fun find_magic :: "nat \<Rightarrow> (u64 \<Rightarrow> u8 option) \<Rightarrow> u64 \<Rightarrow> u32 \<Rightarrow> u64 option option" where
  "find_magic 0 rd file i = Some None"
| "find_magic (Suc n) rd file i =
     do {
       m \<leftarrow> magic_at rd (file + scast i);
       if m then Some (Some (file + scast i)) else find_magic n rd file (i + 1)
     }"

text \<open>An index outside the buffer has no meaning.\<close>

fun clear_buffer :: "nat \<Rightarrow> u32 \<Rightarrow> u8 list \<Rightarrow> u8 list option" where
  "clear_buffer 0 i fb = Some fb"
| "clear_buffer (Suc n) i fb =
     (if unat i < List.length fb then clear_buffer n (i + 1) (fb[unat i := 0]) else None)"

fun set_bits :: "nat \<Rightarrow> u32 \<Rightarrow> u32 \<Rightarrow> u8 list \<Rightarrow> u8 list option" where
  "set_bits 0 i pixels_drawn fb = Some fb"
| "set_bits (Suc n) i pixels_drawn fb =
     (let px = sint (pixels_drawn + i); j = nat (px sdiv 8) in
      if 0 \<le> px \<and> j < List.length fb
      then set_bits n (i + 1) pixels_drawn (fb[j := fb ! j OR push_bit (nat (px smod 8)) 1])
      else None)"

partial_function (option) decode_loop ::
  "(u64 \<Rightarrow> u8 option) \<Rightarrow> u32 \<Rightarrow> u32 \<Rightarrow> player \<Rightarrow> player option" where
  "decode_loop rd pixels_per_frame pixels_drawn st =
     (if pixels_drawn <s pixels_per_frame then
        do {
          st \<leftarrow> (if current_run st = 0 then
                  do {
                    b \<leftarrow> rd (rle_ptr st);
                    Some (st\<lparr>rle_ptr := rle_ptr st + 1, current_color := drop_bit 7 b,
                      current_run := b AND 0x7F\<rparr>)
                  }
                else Some st);
          let to_draw = ucast (current_run st);
          let to_draw = (if pixels_per_frame <s pixels_drawn + to_draw
                         then pixels_per_frame - pixels_drawn else to_draw);
          st \<leftarrow> (if current_color st = 1 then
                  do {
                    fb \<leftarrow> set_bits (nat (sint to_draw)) 0 pixels_drawn (frame_buffer st);
                    Some (st\<lparr>frame_buffer := fb\<rparr>)
                  }
                else Some st);
          let st = st\<lparr>current_run := current_run st - ucast to_draw\<rparr>;
          decode_loop rd pixels_per_frame (pixels_drawn + to_draw) st
        }
      else Some st)"

partial_function (option) wait_until :: "(nat \<Rightarrow> u64) \<Rightarrow> u64 \<Rightarrow> player \<Rightarrow> player option" where
  "wait_until clk expected_time st =
     (if fst (uptime clk st) < expected_time
      then wait_until clk expected_time (yield_call (snd (uptime clk st)))
      else Some (snd (uptime clk st)))"

fun play_frames ::
  "nat \<Rightarrow> (u64 \<Rightarrow> u8 option) \<Rightarrow> (nat \<Rightarrow> u64) \<Rightarrow> u32 \<Rightarrow> u32 \<Rightarrow> u16 \<Rightarrow> u16 \<Rightarrow> u64 \<Rightarrow> u32 \<Rightarrow>
     player \<Rightarrow> player option" where
  "play_frames 0 rd clk bytes_per_frame pixels_per_frame w h start_time current_frame st = Some st"
| "play_frames (Suc n) rd clk bytes_per_frame pixels_per_frame w h start_time current_frame st =
     do {
       fb \<leftarrow> clear_buffer (nat (sint bytes_per_frame)) 0 (frame_buffer st);
       st \<leftarrow> decode_loop rd pixels_per_frame 0 (st\<lparr>frame_buffer := fb\<rparr>);
       let st = draw_call (ucast w) (ucast h) st;
       let expected_time = start_time + ucast (current_frame * 1000 div 30);
       st \<leftarrow> wait_until clk expected_time st;
       play_frames n rd clk bytes_per_frame pixels_per_frame w h start_time (current_frame + 1) st
     }"

definition play_pass ::
  "(u64 \<Rightarrow> u8 option) \<Rightarrow> (nat \<Rightarrow> u64) \<Rightarrow> u64 \<Rightarrow> u32 \<Rightarrow> u32 \<Rightarrow> u16 \<Rightarrow> u16 \<Rightarrow> u32 \<Rightarrow> player \<Rightarrow>
     player option" where
  "play_pass rd clk file bytes_per_frame pixels_per_frame w h total_frames st =
     (let (start_time, st) = uptime clk st in
      play_frames (unat total_frames) rd clk bytes_per_frame pixels_per_frame w h start_time 0
        (st\<lparr>rle_ptr := file + 12, current_color := 0, current_run := 0\<rparr>))"

fun play_passes ::
  "nat \<Rightarrow> (u64 \<Rightarrow> u8 option) \<Rightarrow> (nat \<Rightarrow> u64) \<Rightarrow> u64 \<Rightarrow> u32 \<Rightarrow> u32 \<Rightarrow> u16 \<Rightarrow> u16 \<Rightarrow> u32 \<Rightarrow> player \<Rightarrow>
     player option" where
  "play_passes 0 rd clk file bytes_per_frame pixels_per_frame w h total_frames st = Some st"
| "play_passes (Suc n) rd clk file bytes_per_frame pixels_per_frame w h total_frames st =
     do {
       st \<leftarrow> play_pass rd clk file bytes_per_frame pixels_per_frame w h total_frames st;
       play_passes n rd clk file bytes_per_frame pixels_per_frame w h total_frames st
     }"

text \<open>\<open>_start\<close> with the first \<open>passes\<close> rounds of its endless loop.\<close>

definition player_start ::
  "nat \<Rightarrow> (u64 \<Rightarrow> u8 option) \<Rightarrow> (nat \<Rightarrow> u64) \<Rightarrow> player \<Rightarrow> player run option" where
  "player_start passes rd clk st =
     do {
       found \<leftarrow> find_magic 4096 rd 0x80000000 0;
       case found of
         None \<Rightarrow> do { st \<leftarrow> say (''Error: Invalid or missing video.bad!'' @ nl) [] st; abort st }
       | Some file \<Rightarrow>
           do {
             b4 \<leftarrow> rd (file + 4); b5 \<leftarrow> rd (file + 5);
             let w = (ucast (ucast b4 OR push_bit 8 (ucast b5) :: u32) :: u16);
             b6 \<leftarrow> rd (file + 6); b7 \<leftarrow> rd (file + 7);
             let h = (ucast (ucast b6 OR push_bit 8 (ucast b7) :: u32) :: u16);
             b8 \<leftarrow> rd (file + 8); b9 \<leftarrow> rd (file + 9); b10 \<leftarrow> rd (file + 10); b11 \<leftarrow> rd (file + 11);
             let total_frames = (ucast b8 OR push_bit 8 (ucast b9) OR push_bit 16 (ucast b10) OR
               push_bit 24 (ucast b11) :: u32);
             let pixels_per_frame = (ucast w * ucast h :: u32);
             let bytes_per_frame = (word_of_int (sint (ucast w * ucast h + 7 :: u32) sdiv 8) :: u32);
             if 65536 <s bytes_per_frame then
               do {
                 st \<leftarrow> say (''Error: Video resolution too large for frame_buffer!'' @ nl) [] st;
                 abort st
               }
             else
               do {
                 st \<leftarrow> say (''Playing Video!!'' @ nl) [] st;
                 st \<leftarrow> say (''Resolution: %dx%d'' @ nl) [ucast w, ucast h] st;
                 st \<leftarrow> say (''Frames:     %d'' @ nl) [ucast total_frames] st;
                 map_option Running
                   (play_passes passes rd clk file bytes_per_frame pixels_per_frame w h total_frames st)
               }
           }
     }"

section \<open>Runs\<close>

text \<open>The pixels that a list of run bytes stands for.\<close>

definition rle_bits :: "u8 list \<Rightarrow> bool list" where
  "rle_bits xs = concat (map (\<lambda>b. replicate (unat (b AND 0x7F)) (bit b 7)) xs)"

lemma rle_bits_simps [simp]:
  "rle_bits [] = []" "rle_bits (b # xs) = replicate (unat (b AND 0x7F)) (bit b 7) @ rle_bits xs"
  "rle_bits (xs @ ys) = rle_bits xs @ rle_bits ys"
  by (simp_all add: rle_bits_def)

lemma mask7: "(0x7F :: u8) = mask 7"
  by (simp add: mask_eq_exp_minus_1)

lemma run_byte_parts:
  assumes "n \<le> 127"
  shows "unat (run_byte c n AND 0x7F) = n" "bit (run_byte c n) 7 = c"
proof -
  have u: "unat (of_nat n :: u8) = n" using assms by (simp add: unsigned_of_nat take_bit_eq_mod)
  have "take_bit 7 (of_nat n :: u8) = of_nat n"
    using assms u by (simp add: word_unat_eq_iff take_bit_eq_mod unat_mod)
  then have high: "\<not> bit (of_nat n :: u8) k" if "7 \<le> k" for k
    using that by (metis bit_take_bit_iff not_less)
  have "run_byte c n AND 0x7F = of_nat n"
    using \<open>take_bit 7 (of_nat n :: u8) = of_nat n\<close>
    by (simp add: run_byte_def mask7 take_bit_eq_mask [symmetric] take_bit_push_bit)
  then show "unat (run_byte c n AND 0x7F) = n" by (simp only: u)
  show "bit (run_byte c n) 7 = c"
    using high [of 7] by (simp add: run_byte_def bit_simps)
qed

lemma rle_loop_run:
  "1 \<le> n \<Longrightarrow> n \<le> 127 \<Longrightarrow> \<exists>c' n' buf'. rle_loop px (Some c) n buf = (Some c', n', buf') \<and> 1 \<le> n' \<and>
     n' \<le> 127 \<and> rle_bits buf' @ replicate n' c' = rle_bits buf @ replicate n c @ px"
proof (induction px arbitrary: c n buf)
  case (Cons p px)
  show ?case
  proof (cases "c = p \<and> n < 127")
    case True
    have "replicate (n + 1) c @ px = replicate n c @ p # px"
      using True by (simp add: replicate_app_Cons_same)
    then show ?thesis using Cons.IH [of "n + 1" c buf] True by auto
  next
    case False
    then have "rle_loop (p # px) (Some c) n buf = rle_loop px (Some p) 1 (buf @ [run_byte c n])" by auto
    then show ?thesis
      using Cons.IH [of 1 p "buf @ [run_byte c n]"] run_byte_parts [OF Cons.prems(2), of c] by simp
  qed
qed simp

lemma rle_encode_bits: "rle_bits (rle_encode frames) = concat frames"
proof (cases "concat frames")
  case (Cons p px)
  obtain c n buf where "rle_loop px (Some p) 1 [] = (Some c, n, buf)" "1 \<le> n" "n \<le> 127"
      "rle_bits buf @ replicate n c = replicate 1 p @ px"
    using rle_loop_run [of 1 px p "[]"] by auto
  then show ?thesis
    using Cons run_byte_parts [of n c] by (simp add: rle_encode_def)
qed (simp add: rle_encode_def del: concat_eq_Nil_conv)

section \<open>The frame buffer\<close>

abbreviation fbit :: "u8 list \<Rightarrow> nat \<Rightarrow> bool" where
  "fbit fb j \<equiv> frame_bit (\<lambda>k. fb ! k) j"

lemma sdiv_nat: "int k sdiv 8 = int (k div 8)" "int k smod 8 = int (k mod 8)"
  by (simp_all add: signed_divide_int_def signed_modulo_int_def sgn_if zdiv_int zmod_int minus_div_mult_eq_mod)

lemma set_bits_ok:
  "D + i + n \<le> 8 * List.length fb \<Longrightarrow> D + i + n < 2 ^ 31 \<Longrightarrow>
     \<exists>fb'. set_bits n (of_nat i) (of_nat D) fb = Some fb' \<and> List.length fb' = List.length fb \<and>
       (\<forall>j < 8 * List.length fb. fbit fb' j = (fbit fb j \<or> D + i \<le> j \<and> j < D + i + n))"
proof (induction n arbitrary: i fb)
  case (Suc n)
  let ?k = "D + i"
  have k: "?k < 2 ^ 31" "?k div 8 < List.length fb" using Suc.prems by auto
  have "(of_nat D + of_nat i :: u32) = of_nat ?k" by simp
  then have px: "sint (of_nat D + of_nat i :: u32) = int ?k" using sint_of_nat [OF k(1)] by simp
  let ?fb = "fb[?k div 8 := fb ! (?k div 8) OR push_bit (?k mod 8) 1]"
  have step: "set_bits (Suc n) (of_nat i) (of_nat D) fb = set_bits n (of_nat (Suc i)) (of_nat D) ?fb"
    using k(2) px sdiv_nat [of ?k] by (simp add: Let_def add.commute)
  obtain fb' where fb': "set_bits n (of_nat (Suc i)) (of_nat D) ?fb = Some fb'"
      "List.length fb' = List.length ?fb"
      "\<forall>j < 8 * List.length ?fb. fbit fb' j = (fbit ?fb j \<or> D + Suc i \<le> j \<and> j < D + Suc i + n)"
    using Suc.IH [of "Suc i" ?fb] Suc.prems by auto
  have "fbit ?fb j = (fbit fb j \<or> j = ?k)" if "j < 8 * List.length fb" for j
  proof (cases "j div 8 = ?k div 8")
    case True
    then have "j = ?k \<longleftrightarrow> j mod 8 = ?k mod 8" by (metis div_mod_decomp)
    then show ?thesis using True k(2) by (auto simp: frame_bit_def bit_simps bit_1_iff)
  qed (auto simp: frame_bit_def)
  then show ?case using step fb' by (intro exI [of _ fb']) auto
qed auto

lemma clear_buffer_ok:
  "i + n \<le> List.length fb \<Longrightarrow> i + n < 2 ^ 31 \<Longrightarrow>
     \<exists>fb'. clear_buffer n (of_nat i) fb = Some fb' \<and> List.length fb' = List.length fb \<and>
       (\<forall>j. i \<le> j \<and> j < i + n \<longrightarrow> fb' ! j = 0) \<and> (\<forall>j. \<not> (i \<le> j \<and> j < i + n) \<longrightarrow> fb' ! j = fb ! j)"
proof (induction n arbitrary: i fb)
  case (Suc n)
  have "unat (of_nat i :: u32) = i" using Suc.prems by (simp add: unsigned_of_nat take_bit_eq_mod)
  then have step: "clear_buffer (Suc n) (of_nat i) fb = clear_buffer n (of_nat (Suc i)) (fb[i := 0])"
    using Suc.prems by (simp add: add.commute)
  obtain fb' where fb': "clear_buffer n (of_nat (Suc i)) (fb[i := 0]) = Some fb'"
      "List.length fb' = List.length fb" "\<forall>j. Suc i \<le> j \<and> j < Suc i + n \<longrightarrow> fb' ! j = 0"
      "\<forall>j. \<not> (Suc i \<le> j \<and> j < Suc i + n) \<longrightarrow> fb' ! j = fb[i := 0] ! j"
    using Suc.IH [of "Suc i" "fb[i := 0]"] Suc.prems by auto
  have "fb' ! j = 0" if "i \<le> j \<and> j < i + Suc n" for j
    using fb'(3,4) that Suc.prems by (cases "j = i") auto
  moreover have "fb' ! j = fb ! j" if "\<not> (i \<le> j \<and> j < i + Suc n)" for j
    using fb'(4) that by (cases "j = i") auto
  ultimately show ?case using step fb'(1,2) by (intro exI [of _ fb']) simp
qed auto

section \<open>Decoding one frame\<close>

text \<open>
  \<open>stream rd st bits\<close>: the pixels still to come, from the run in progress and from bytes that can
  be read, are \<open>bits\<close>.
\<close>

definition stream :: "(u64 \<Rightarrow> u8 option) \<Rightarrow> player \<Rightarrow> u8 list \<Rightarrow> bool list \<Rightarrow> bool" where
  "stream rd st xs bits \<longleftrightarrow> (\<forall>i<List.length xs. rd (rle_ptr st + of_nat i) = Some (xs ! i)) \<and>
     bits = replicate (unat (current_run st)) (current_color st = 1) @ rle_bits xs"

lemma stream_Cons:
  assumes "stream rd st (x # xs) bits" and "current_run st = 0"
  shows "rd (rle_ptr st) = Some x"
    "stream rd (st\<lparr>rle_ptr := rle_ptr st + 1, current_color := drop_bit 7 x, current_run := x AND 0x7F\<rparr>)
       xs bits"
proof -
  have "drop_bit 7 x = 1 \<longleftrightarrow> bit x 7"
  proof
    assume "drop_bit 7 x = 1"
    then have "bit (drop_bit 7 x) 0" by simp
    then show "bit x 7" by (simp add: bit_simps)
  next
    assume "bit x 7"
    then show "drop_bit 7 x = 1"
      by (intro bit_word_eqI) (auto simp: bit_simps bit_1_iff bit_above numeral_eq_Suc less_Suc_eq)
  qed
  then show "rd (rle_ptr st) = Some x"
    "stream rd (st\<lparr>rle_ptr := rle_ptr st + 1, current_color := drop_bit 7 x, current_run := x AND 0x7F\<rparr>)
       xs bits"
    using assms unfolding stream_def by (force simp: add.assoc)+
qed

text \<open>One round of the loop, once a run is in progress.\<close>

definition draw_run :: "u32 \<Rightarrow> u32 \<Rightarrow> player \<Rightarrow> (u32 \<times> player) option" where
  "draw_run pixels_per_frame pixels_drawn st =
     do {
       let to_draw = ucast (current_run st);
       let to_draw = (if pixels_per_frame <s pixels_drawn + to_draw
                      then pixels_per_frame - pixels_drawn else to_draw);
       st \<leftarrow> (if current_color st = 1 then
               do {
                 fb \<leftarrow> set_bits (nat (sint to_draw)) 0 pixels_drawn (frame_buffer st);
                 Some (st\<lparr>frame_buffer := fb\<rparr>)
               }
             else Some st);
       Some (to_draw, st\<lparr>current_run := current_run st - ucast to_draw\<rparr>)
     }"

lemma decode_loop_draw:
  "decode_loop rd p d st =
     (if d <s p then
        do {
          st \<leftarrow> (if current_run st = 0 then
                  do {
                    b \<leftarrow> rd (rle_ptr st);
                    Some (st\<lparr>rle_ptr := rle_ptr st + 1, current_color := drop_bit 7 b,
                      current_run := b AND 0x7F\<rparr>)
                  }
                else Some st);
          (t, st) \<leftarrow> draw_run p d st;
          decode_loop rd p (d + t) st
        }
      else Some st)"
  by (subst decode_loop.simps) (simp add: draw_run_def Let_def)

lemma draw_run_ok:
  assumes P: "P \<le> 8 * List.length (frame_buffer st)" "P < 2 ^ 30" "D \<le> P"
  defines "t \<equiv> min (unat (current_run st)) (P - D)"
  shows "\<exists>fb. draw_run (of_nat P) (of_nat D) st =
      Some (of_nat t, st\<lparr>frame_buffer := fb, current_run := current_run st - of_nat t\<rparr>) \<and>
    List.length fb = List.length (frame_buffer st) \<and>
    (\<forall>j < 8 * List.length fb. fbit fb j =
       (fbit (frame_buffer st) j \<or> current_color st = 1 \<and> D \<le> j \<and> j < D + t))"
proof -
  let ?r = "unat (current_run st)" and ?fb = "frame_buffer st"
  have r: "?r < 256" by (rule unat_lt_256)
  have eq: "(of_nat D + ucast (current_run st) :: u32) = of_nat (D + ?r)" by simp
  have small: "P < 2 ^ 31" "D + ?r < 2 ^ 31" using P r by simp_all
  have cmp: "of_nat P <s (of_nat D + ucast (current_run st) :: u32) \<longleftrightarrow> P < D + ?r"
    unfolding word_sless_alt eq sint_of_nat [OF small(1)] sint_of_nat [OF small(2)]
    by (rule of_nat_less_iff)
  have t: "(if of_nat P <s (of_nat D + ucast (current_run st) :: u32) then of_nat P - of_nat D
      else ucast (current_run st) :: u32) = of_nat t"
    using P(3) unfolding cmp by (auto simp: t_def min_def of_nat_diff)
  have t31: "t < 2 ^ 31" "D + 0 + t \<le> P" using P r by (auto simp: t_def)
  have n: "nat (sint (of_nat t :: u32)) = t" using sint_of_nat [OF t31(1)] by simp
  have narrow: "(ucast (of_nat t :: u32) :: u8) = of_nat t"
    using r by (simp add: word_unat_eq_iff unsigned_ucast_eq unsigned_of_nat take_bit_eq_mod t_def)
  obtain fb where fb: "set_bits t (of_nat 0) (of_nat D) ?fb = Some fb" "List.length fb = List.length ?fb"
      "\<forall>j < 8 * List.length ?fb. fbit fb j = (fbit ?fb j \<or> D + 0 \<le> j \<and> j < D + 0 + t)"
    using set_bits_ok [of D 0 t ?fb] P t31 by auto
  show ?thesis
  proof (cases "current_color st = 1")
    case True
    then show ?thesis using fb by (intro exI [of _ fb]) (simp add: draw_run_def t n narrow Let_def)
  next
    case False
    then show ?thesis by (intro exI [of _ ?fb]) (simp add: draw_run_def t narrow Let_def)
  qed
qed

definition same_log :: "player \<Rightarrow> player \<Rightarrow> bool" where
  "same_log st st' \<longleftrightarrow> drawn_frames st' = drawn_frames st \<and> clock_reads st' = clock_reads st \<and>
     console st' = console st"

lemma decode_loop_ok:
  assumes "stream rd st xs bits" and "P - D \<le> List.length bits" and "D \<le> P"
    and "P \<le> 8 * List.length (frame_buffer st)" and "P < 2 ^ 30"
  shows "\<exists>st' ys. decode_loop rd (of_nat P) (of_nat D) st = Some st' \<and>
    stream rd st' ys (drop (P - D) bits) \<and> same_log st st' \<and>
    List.length (frame_buffer st') = List.length (frame_buffer st) \<and>
    (\<forall>j < 8 * List.length (frame_buffer st). fbit (frame_buffer st') j =
       (fbit (frame_buffer st) j \<or> D \<le> j \<and> j < P \<and> bits ! (j - D)))"
  using assms
proof (induction "List.length xs + (P - D)" arbitrary: xs bits D st rule: less_induct)
  case less
  have cmp: "(of_nat D :: u32) <s of_nat P \<longleftrightarrow> D < P"
    using less.prems(3,5) sint_of_nat [of D] sint_of_nat [of P] by (simp add: word_sless_alt)
  show ?case
  proof (cases "D < P")
    case False
    then show ?thesis
      using less.prems cmp by (intro exI [of _ st] exI [of _ xs])
        (auto simp: decode_loop.simps same_log_def)
  next
    case True
    obtain st1 zs where 1: "stream rd st1 zs bits" "same_log st st1" "frame_buffer st1 = frame_buffer st"
        "current_run st \<noteq> 0 \<Longrightarrow> st1 = st \<and> zs = xs"
        "current_run st = 0 \<Longrightarrow> List.length zs < List.length xs \<and>
          do { b \<leftarrow> rd (rle_ptr st); Some (st\<lparr>rle_ptr := rle_ptr st + 1, current_color := drop_bit 7 b,
            current_run := b AND 0x7F\<rparr>) } = Some st1"
    proof (cases "current_run st = 0")
      case run: True
      then obtain x xs' where xs: "xs = x # xs'"
        using less.prems(1,2) True by (cases xs) (auto simp: stream_def)
      note read = stream_Cons [OF less.prems(1) [unfolded xs] run]
      show ?thesis
        by (rule that [OF read(2)]) (use run xs read(1) in \<open>simp_all add: same_log_def\<close>)
    next
      case run: False
      show ?thesis by (rule that [OF less.prems(1)]) (use run in \<open>simp_all add: same_log_def\<close>)
    qed
    define r where "r = unat (current_run st1)"
    define t where "t = min r (P - D)"
    obtain fb where fb: "draw_run (of_nat P) (of_nat D) st1 = Some (of_nat t,
          st1\<lparr>frame_buffer := fb, current_run := current_run st1 - of_nat t\<rparr>)"
        "List.length fb = List.length (frame_buffer st)"
        "\<forall>j < 8 * List.length fb. fbit fb j =
          (fbit (frame_buffer st) j \<or> current_color st1 = 1 \<and> D \<le> j \<and> j < D + t)"
      using draw_run_ok [of P st1 D] less.prems(3-5) 1(3) by (auto simp: t_def r_def)
    let ?st2 = "st1\<lparr>frame_buffer := fb, current_run := current_run st1 - of_nat t\<rparr>"
    have r: "r < 256" by (simp add: r_def unat_lt_256)
    have bits: "bits = replicate r (current_color st1 = 1) @ rle_bits zs"
      using 1(1) by (simp add: stream_def r_def)
    have "t \<le> r" by (simp add: t_def)
    then have "unat (current_run st1 - of_nat t) = r - t"
      using r by (subst unat_sub) (simp_all add: word_le_nat_alt unsigned_of_nat take_bit_eq_mod r_def)
    then have "stream rd ?st2 zs (drop t bits)"
      using 1(1) \<open>t \<le> r\<close> by (simp add: stream_def bits)
    moreover have "List.length zs + (P - (D + t)) < List.length xs + (P - D)"
    proof (cases "current_run st = 0")
      case False
      then have "0 < t" using 1(4) True by (simp add: t_def r_def unat_gt_0)
      then show ?thesis using False 1(4) True by simp
    qed (use 1(5) in auto)
    moreover have "P - (D + t) \<le> List.length (drop t bits)" "D + t \<le> P"
      using less.prems(2,3) by (simp_all add: t_def)
    ultimately obtain st' ys where 2: "decode_loop rd (of_nat P) (of_nat (D + t)) ?st2 = Some st'"
        "stream rd st' ys (drop (P - (D + t)) (drop t bits))" "same_log ?st2 st'"
        "List.length (frame_buffer st') = List.length fb"
        "\<forall>j < 8 * List.length fb. fbit (frame_buffer st') j =
          (fbit fb j \<or> D + t \<le> j \<and> j < P \<and> drop t bits ! (j - (D + t)))"
      using less.hyps [of zs "D + t" ?st2 "drop t bits"] less.prems(4,5) fb(2) by auto
    have "decode_loop rd (of_nat P) (of_nat D) st = Some st'"
      using 2(1) fb(1) 1(4,5) True
      by (subst decode_loop_draw) (auto simp: cmp bind_eq_Some_conv)
    moreover have "drop (P - (D + t)) (drop t bits) = drop (P - D) bits"
      using True by (simp add: t_def)
    moreover have "fbit (frame_buffer st') j = (fbit (frame_buffer st) j \<or> D \<le> j \<and> j < P \<and> bits ! (j - D))"
      if j: "j < 8 * List.length (frame_buffer st)" for j
    proof (cases "D \<le> j \<and> j < D + t")
      case True
      then have "j - D < r" "j < P" using \<open>t \<le> r\<close> by (auto simp: t_def)
      then have "bits ! (j - D) = (current_color st1 = 1)" by (simp add: bits nth_append)
      then show ?thesis using True 2(5) fb(2,3) j \<open>j < P\<close> by simp
    next
      case False
      have "drop t bits ! (j - (D + t)) = bits ! (j - D)" if "D + t \<le> j" "j < P"
        using that less.prems(2) by (simp add: nth_drop add.commute)
      then show ?thesis using False 2(5) fb(2,3) j by auto
    qed
    ultimately show ?thesis
      using 2(2-4) 1(2) fb(2) by (intro exI [of _ st'] exI [of _ ys]) (simp add: same_log_def)
  qed
qed

section \<open>Playing\<close>

text \<open>
  The clock keeps running: from any reading on it comes to any time a frame waits for, which is
  at most \<open>2 ^ 32 div 30\<close> milliseconds after the start.
\<close>

definition clk_live :: "(nat \<Rightarrow> u64) \<Rightarrow> bool" where
  "clk_live clk \<longleftrightarrow> (\<forall>m n. \<forall>d \<le> 143165576. \<exists>k\<ge>n. clk m + d \<le> clk k)"

lemma wait_until_reached:
  "t \<le> clk (clock_reads st + d) \<Longrightarrow> \<exists>n. wait_until clk t st = Some (st\<lparr>clock_reads := n\<rparr>)"
proof (induction d arbitrary: st)
  case 0
  then show ?case by (subst wait_until.simps) (auto simp: uptime_def)
next
  case (Suc d)
  let ?st = "st\<lparr>clock_reads := Suc (clock_reads st)\<rparr>"
  show ?case
  proof (cases "clk (clock_reads st) < t")
    case True
    then have "wait_until clk t st = wait_until clk t ?st"
      by (subst wait_until.simps) (simp add: uptime_def yield_call_def)
    then show ?thesis using Suc.IH [of ?st] Suc.prems by simp
  next
    case False
    then show ?thesis by (subst wait_until.simps) (auto simp: uptime_def)
  qed
qed

lemma wait_until_live:
  assumes "clk_live clk"
  shows "\<exists>n. wait_until clk (clk m + ucast (cf * 1000 div 30 :: u32)) st = Some (st\<lparr>clock_reads := n\<rparr>)"
proof -
  have "unat (cf * 1000) < 4294967296" using unsigned_less [of "cf * 1000"] by simp
  then have "unat (cf * 1000) div 30 \<le> 4294967295 div 30" by (intro div_le_mono) simp
  then have "(ucast (cf * 1000 div 30) :: u64) \<le> 143165576"
    by (simp add: word_le_nat_alt unat_div)
  then obtain k where "clock_reads st \<le> k" "clk m + ucast (cf * 1000 div 30) \<le> clk k"
    using assms unfolding clk_live_def by blast
  then show ?thesis using wait_until_reached [of _ clk st "k - clock_reads st"] by simp
qed

text \<open>A drawn frame shows a list of pixels when its first bits are those pixels.\<close>

definition shows_frame :: "u32 \<Rightarrow> u32 \<Rightarrow> u8 list \<times> u32 \<times> u32 \<Rightarrow> bool list \<Rightarrow> bool" where
  "shows_frame w h d px \<longleftrightarrow> snd d = (w, h) \<and> List.length (fst d) = MAX_FRAME_BYTES \<and>
     (\<forall>j < List.length px. fbit (fst d) j = px ! j)"

lemma play_frames_ok:
  assumes clk: "clk_live clk" and P: "P \<le> 8 * MAX_FRAME_BYTES"
  shows "\<forall>px\<in>set frames. List.length px = P \<Longrightarrow> stream rd st xs (concat frames @ rest) \<Longrightarrow>
    List.length (frame_buffer st) = MAX_FRAME_BYTES \<Longrightarrow>
    \<exists>st' ds. play_frames (List.length frames) rd clk (of_nat ((P + 7) div 8)) (of_nat P) w h (clk m) cf st =
        Some st' \<and> drawn_frames st' = drawn_frames st @ ds \<and> console st' = console st \<and>
      List.length (frame_buffer st') = MAX_FRAME_BYTES \<and>
      list_all2 (shows_frame (ucast w) (ucast h)) ds frames"
proof (induction frames arbitrary: st xs cf)
  case Nil
  then show ?case by auto
next
  case (Cons px frames)
  have len: "List.length px = P" using Cons.prems(1) by simp
  have b: "(P + 7) div 8 \<le> MAX_FRAME_BYTES" "8 * ((P + 7) div 8) \<ge> P" using P by simp_all
  then have "sint (of_nat ((P + 7) div 8) :: u32) = int ((P + 7) div 8)" by (intro sint_of_nat) simp
  then have n: "nat (sint (of_nat ((P + 7) div 8) :: u32)) = (P + 7) div 8" by simp
  obtain fb where fb: "clear_buffer ((P + 7) div 8) 0 (frame_buffer st) = Some fb"
      "List.length fb = MAX_FRAME_BYTES" "\<forall>j < (P + 7) div 8. fb ! j = 0"
    using clear_buffer_ok [of 0 "(P + 7) div 8" "frame_buffer st"] Cons.prems(3) b by auto
  have zero: "\<not> fbit fb j" if "j < P" for j
  proof -
    have "j div 8 < (P + 7) div 8" using that b(2) by linarith
    then show ?thesis using fb(3) by (simp add: frame_bit_def)
  qed
  let ?st = "st\<lparr>frame_buffer := fb\<rparr>"
  have "stream rd ?st xs (px @ concat frames @ rest)" using Cons.prems(2) by (simp add: stream_def)
  then obtain st1 ys where 1: "decode_loop rd (of_nat P) 0 ?st = Some st1"
      "stream rd st1 ys (concat frames @ rest)" "same_log ?st st1"
      "List.length (frame_buffer st1) = MAX_FRAME_BYTES"
      "\<forall>j < 8 * MAX_FRAME_BYTES. fbit (frame_buffer st1) j =
        (fbit fb j \<or> j < P \<and> (px @ concat frames @ rest) ! j)"
    using decode_loop_ok [of rd ?st xs "px @ concat frames @ rest" P 0] P fb(2) len by auto
  have "fbit (frame_buffer st1) j = px ! j" if "j < P" for j
    using 1(5) zero [OF that] that P len by (simp add: nth_append)
  then have shown: "shows_frame (ucast w) (ucast h) (frame_buffer st1, ucast w, ucast h) px"
    using 1(4) len by (simp add: shows_frame_def)
  let ?st1 = "draw_call (ucast w) (ucast h) st1"
  obtain k where 2: "wait_until clk (clk m + ucast (cf * 1000 div 30)) ?st1 =
      Some (?st1\<lparr>clock_reads := k\<rparr>)" using wait_until_live [OF clk] by blast
  have "stream rd (?st1\<lparr>clock_reads := k\<rparr>) ys (concat frames @ rest)"
    using 1(2) by (simp add: stream_def draw_call_def)
  then obtain st' ds where 3:
    "play_frames (List.length frames) rd clk (of_nat ((P + 7) div 8)) (of_nat P) w h (clk m) (cf + 1)
       (?st1\<lparr>clock_reads := k\<rparr>) = Some st'"
    "drawn_frames st' = drawn_frames ?st1 @ ds" "console st' = console ?st1"
    "List.length (frame_buffer st') = MAX_FRAME_BYTES"
    "list_all2 (shows_frame (ucast w) (ucast h)) ds frames"
    using Cons.IH [of "?st1\<lparr>clock_reads := k\<rparr>" ys "cf + 1"] Cons.prems(1) 1(4)
    by (auto simp: draw_call_def)
  have "play_frames (List.length (px # frames)) rd clk (of_nat ((P + 7) div 8)) (of_nat P) w h (clk m) cf st =
      Some st'" using fb(1) 1(1) 2 3(1) by (simp add: n Let_def)
  moreover have "drawn_frames st' = drawn_frames st @ (frame_buffer st1, ucast w, ucast h) # ds"
    "console st' = console st"
    using 3(2,3) 1(3) by (simp_all add: draw_call_def same_log_def)
  ultimately show ?case using shown 3(4,5)
    by (intro exI [of _ st'] exI [of _ "(frame_buffer st1, ucast w, ucast h) # ds"]) simp
qed

section \<open>The header\<close>

lemma length_le_bytes [simp]: "List.length (le_bytes k n) = k"
  by (simp add: le_bytes_def)

lemma bit_le_byte: "i < k \<Longrightarrow> bit (le_bytes k n ! i) j \<longleftrightarrow> j < 8 \<and> bit n (8 * i + j)"
proof -
  have "n div 256 ^ i mod 256 = take_bit 8 (drop_bit (8 * i) n)"
    by (simp add: take_bit_eq_mod drop_bit_eq_div power_mult)
  moreover assume "i < k"
  ultimately show ?thesis by (simp add: le_bytes_def bit_simps add.commute) auto
qed

lemma header_u16:
  assumes "n < 2 ^ 16"
  shows "(ucast (ucast (le_bytes 2 n ! 0) OR push_bit 8 (ucast (le_bytes 2 n ! 1)) :: u32) :: u16) = of_nat n"
proof (rule bit_word_eqI)
  fix j assume "j < LENGTH(16)"
  then consider "j < 8" | i where "j = 8 + i" "i < 8"
    by (cases "j < 8") (auto simp: not_less le_iff_add)
  then show "bit (ucast (ucast (le_bytes 2 n ! 0) OR push_bit 8 (ucast (le_bytes 2 n ! 1)) :: u32) :: u16) j =
      bit (of_nat n :: u16) j"
    by cases (simp_all add: bit_simps bit_le_byte)
qed

lemma header_u32:
  assumes "n < 2 ^ 32"
  shows "(ucast (le_bytes 4 n ! 0) OR push_bit 8 (ucast (le_bytes 4 n ! 1)) OR
    push_bit 16 (ucast (le_bytes 4 n ! 2)) OR push_bit 24 (ucast (le_bytes 4 n ! 3)) :: u32) = of_nat n"
    (is "?w = _")
proof (rule bit_word_eqI)
  fix j assume "j < LENGTH(32)"
  then consider "j < 8" | i where "j = 8 + i" "i < 8" | i where "j = 16 + i" "i < 8"
    | i where "j = 24 + i" "i < 8"
  proof -
    assume j: "j < LENGTH(32)"
    obtain q r where jq: "j = 8 * q + r" "r < 8"
      by (metis mult_div_mod_eq mod_less_divisor zero_less_numeral)
    then have "q = 0 \<or> q = 1 \<or> q = 2 \<or> q = 3" using j by auto
    then show ?thesis using that jq by (elim disjE) simp_all
  qed
  then show "bit ?w j = bit (of_nat n :: u32) j"
    by cases (simp_all add: bit_simps bit_le_byte)
qed

text \<open>The first twelve bytes of a video file.\<close>

definition video_header :: "nat \<Rightarrow> nat \<Rightarrow> nat \<Rightarrow> u8 list" where
  "video_header w h n = [0x42, 0x41, 0x44, 0] @ le_bytes 2 w @ le_bytes 2 h @ le_bytes 4 n"

lemma video_file_header:
  "video_file w h frames =
     video_header w h (List.length frames) @ rle_encode (map (map is_bright) frames)"
  by (simp add: video_file_def video_header_def)

lemma header_bytes:
  "List.length (video_header w h n) = 12" "video_header w h n ! 0 = 0x42"
  "video_header w h n ! 1 = 0x41" "video_header w h n ! 2 = 0x44" "video_header w h n ! 3 = 0"
  "video_header w h n ! 4 = le_bytes 2 w ! 0" "video_header w h n ! 5 = le_bytes 2 w ! 1"
  "video_header w h n ! 6 = le_bytes 2 h ! 0" "video_header w h n ! 7 = le_bytes 2 h ! 1"
  "video_header w h n ! 8 = le_bytes 4 n ! 0" "video_header w h n ! 9 = le_bytes 4 n ! 1"
  "video_header w h n ! 10 = le_bytes 4 n ! 2" "video_header w h n ! 11 = le_bytes 4 n ! 3"
  by (simp_all add: video_header_def nth_append nth_Cons')

lemma find_magic_skip:
  "off < n \<Longrightarrow> k + n \<le> 4096 \<Longrightarrow> \<forall>i<off. magic_at rd (file + of_nat (k + i)) = Some False \<Longrightarrow>
     magic_at rd (file + of_nat (k + off)) = Some True \<Longrightarrow>
     find_magic n rd file (of_nat k) = Some (Some (file + of_nat (k + off)))"
proof (induction off arbitrary: n k)
  case 0
  then have "(scast (of_nat k :: u32) :: u64) = of_nat k" by (simp add: scast_of_nat)
  then show ?case using 0 by (cases n) simp_all
next
  case (Suc off)
  obtain n' where n: "n = Suc n'" using Suc.prems(1) by (cases n) simp_all
  have k: "(scast (of_nat k :: u32) :: u64) = of_nat k" using Suc.prems(1,2) by (simp add: scast_of_nat)
  have "magic_at rd (file + of_nat k) = Some False" using Suc.prems(3) [rule_format, of 0] by simp
  moreover have "find_magic n' rd file (of_nat (Suc k)) = Some (Some (file + of_nat (Suc k + off)))"
  proof (rule Suc.IH)
    show "\<forall>i<off. magic_at rd (file + of_nat (Suc k + i)) = Some False"
      using Suc.prems(3) by (metis Suc_less_eq add_Suc add_Suc_right)
  qed (use Suc.prems n in simp_all)
  ultimately show ?case using k n by (simp add: add.commute add.left_commute)
qed

definition file_at :: "(u64 \<Rightarrow> u8 option) \<Rightarrow> u64 \<Rightarrow> u8 list \<Rightarrow> bool" where
  "file_at rd p xs \<longleftrightarrow> (\<forall>i < List.length xs. rd (p + of_nat i) = Some (xs ! i))"

lemma play_pass_ok:
  assumes "clk_live clk" and "P \<le> 8 * MAX_FRAME_BYTES" and "\<forall>px\<in>set frames. List.length px = P"
    and "file_at rd (file + 12) (rle_encode frames)" and "List.length frames < 2 ^ 32"
    and "List.length (frame_buffer st) = MAX_FRAME_BYTES"
  shows "\<exists>st' ds. play_pass rd clk file (of_nat ((P + 7) div 8)) (of_nat P) w h (of_nat (List.length frames)) st =
      Some st' \<and> drawn_frames st' = drawn_frames st @ ds \<and> console st' = console st \<and>
    List.length (frame_buffer st') = MAX_FRAME_BYTES \<and> list_all2 (shows_frame (ucast w) (ucast h)) ds frames"
proof -
  let ?st = "(snd (uptime clk st))\<lparr>rle_ptr := file + 12, current_color := 0, current_run := 0\<rparr>"
  have "stream rd ?st (rle_encode frames) (concat frames @ [])"
    using assms(4) by (simp add: stream_def file_at_def rle_encode_bits)
  moreover have "unat (of_nat (List.length frames) :: u32) = List.length frames"
    using assms(5) by (simp add: unsigned_of_nat take_bit_eq_mod)
  ultimately show ?thesis
    using play_frames_ok [OF assms(1-3), of rd ?st "rle_encode frames" "[]" w h "clock_reads st" 0] assms(6)
    by (simp add: play_pass_def uptime_def)
qed

lemma play_passes_ok:
  assumes "clk_live clk" and "P \<le> 8 * MAX_FRAME_BYTES" and "\<forall>px\<in>set frames. List.length px = P"
    and "file_at rd (file + 12) (rle_encode frames)" and "List.length frames < 2 ^ 32"
  shows "List.length (frame_buffer st) = MAX_FRAME_BYTES \<Longrightarrow>
    \<exists>st' ds. play_passes n rd clk file (of_nat ((P + 7) div 8)) (of_nat P) w h
        (of_nat (List.length frames)) st = Some st' \<and>
      drawn_frames st' = drawn_frames st @ ds \<and>
      list_all2 (shows_frame (ucast w) (ucast h)) ds (concat (replicate n frames))"
proof (induction n arbitrary: st)
  case (Suc n)
  obtain st1 ds where 1: "play_pass rd clk file (of_nat ((P + 7) div 8)) (of_nat P) w h
        (of_nat (List.length frames)) st = Some st1" "drawn_frames st1 = drawn_frames st @ ds"
      "List.length (frame_buffer st1) = MAX_FRAME_BYTES"
      "list_all2 (shows_frame (ucast w) (ucast h)) ds frames"
    using play_pass_ok [OF assms Suc.prems] by blast
  obtain st2 es where 2: "play_passes n rd clk file (of_nat ((P + 7) div 8)) (of_nat P) w h
        (of_nat (List.length frames)) st1 = Some st2" "drawn_frames st2 = drawn_frames st1 @ es"
      "list_all2 (shows_frame (ucast w) (ucast h)) es (concat (replicate n frames))"
    using Suc.IH [OF 1(3)] by blast
  show ?case
    using 1(1,2,4) 2 by (intro exI [of _ st2] exI [of _ "ds @ es"]) (simp add: list_all2_appendI)
qed simp

lemma say_plain: "plain fmt (List.length args) \<Longrightarrow> \<exists>out. say fmt args st = Some (st\<lparr>console := console st @ out\<rparr>)"
  using plain_render [of fmt args Map.empty] by (auto simp: say_def)

text \<open>The size of a frame as the player computes it.\<close>

lemma frame_sizes:
  assumes "w < 2 ^ 16" and "h < 2 ^ 16" and "w * h \<le> 8 * MAX_FRAME_BYTES"
  shows "ucast (of_nat w :: u16) * ucast (of_nat h :: u16) = (of_nat (w * h) :: u32)"
    and "word_of_int (sint (ucast (of_nat w :: u16) * ucast (of_nat h :: u16) + 7 :: u32) sdiv 8) =
      (of_nat ((w * h + 7) div 8) :: u32)"
    and "\<not> 65536 <s (of_nat ((w * h + 7) div 8) :: u32)"
proof -
  have "(ucast (of_nat k :: u16) :: u32) = of_nat k" if "k < 2 ^ 16" for k
    using that by (simp add: word_unat_eq_iff unsigned_ucast_eq unsigned_of_nat take_bit_eq_mod)
  then show p: "ucast (of_nat w :: u16) * ucast (of_nat h :: u16) = (of_nat (w * h) :: u32)"
    using assms(1,2) by simp
  have "(of_nat (w * h) + 7 :: u32) = of_nat (w * h + 7)" by simp
  moreover have "sint (of_nat (w * h + 7) :: u32) = int (w * h + 7)"
    using assms(3) by (intro sint_of_nat) simp
  ultimately have "sint (ucast (of_nat w :: u16) * ucast (of_nat h :: u16) + 7 :: u32) sdiv 8 =
      int ((w * h + 7) div 8)"
    unfolding p by (simp only: sdiv_nat)
  then show "word_of_int (sint (ucast (of_nat w :: u16) * ucast (of_nat h :: u16) + 7 :: u32) sdiv 8) =
      (of_nat ((w * h + 7) div 8) :: u32)"
    by (simp only: of_int_of_nat_eq)
  have le: "(w * h + 7) div 8 \<le> 65536" using assms(3) by simp
  then have "sint (of_nat ((w * h + 7) div 8) :: u32) = int ((w * h + 7) div 8)"
    by (intro sint_of_nat) simp
  then show "\<not> 65536 <s (of_nat ((w * h + 7) div 8) :: u32)"
    using le by (simp add: word_sless_alt)
qed

lemma file_at_append:
  assumes "file_at rd p (xs @ ys)"
  shows "file_at rd p xs" and "file_at rd (p + of_nat (List.length xs)) ys"
proof -
  have "rd (p + of_nat (List.length xs) + of_nat i) = Some (ys ! i)" if "i < List.length ys" for i
    using assms that unfolding file_at_def
    by (auto dest!: spec [of _ "List.length xs + i"] simp: nth_append add.assoc)
  then show "file_at rd (p + of_nat (List.length xs)) ys" by (simp add: file_at_def)
  show "file_at rd p xs" using assms by (auto simp: file_at_def nth_append dest: spec)
qed

text \<open>
  The player up to its endless loop, for a file whose magic is found and whose size passes the
  check.
\<close>

lemma start_header:
  assumes w: "w < 2 ^ 16" "h < 2 ^ 16" and n: "n < 2 ^ 32"
    and hdr: "file_at rd (0x80000000 + of_nat off) (video_header w h n)"
    and off: "off < 4096" "\<forall>i<off. magic_at rd (0x80000000 + of_nat i) = Some False"
  defines "pixels \<equiv> ucast (of_nat w :: u16) * ucast (of_nat h :: u16) :: u32"
  defines "bytes_pf \<equiv> word_of_int (sint (pixels + 7) sdiv 8) :: u32"
  assumes small: "\<not> 65536 <s bytes_pf"
  shows "\<exists>out. player_start passes rd clk st = map_option Running (play_passes passes rd clk
    (0x80000000 + of_nat off) bytes_pf pixels (of_nat w) (of_nat h) (of_nat n) (st\<lparr>console := out\<rparr>))"
proof -
  let ?p = "0x80000000 + of_nat off :: u64"
  have rd: "rd (?p + of_nat i) = Some (video_header w h n ! i)" if "i < 12" for i
    using hdr that unfolding file_at_def by (simp only: header_bytes)
  have b: "rd ?p = Some 0x42" "rd (?p + 1) = Some 0x41" "rd (?p + 2) = Some 0x44"
    "rd (?p + 3) = Some 0" "rd (?p + 4) = Some (le_bytes 2 w ! 0)"
    "rd (?p + 5) = Some (le_bytes 2 w ! 1)" "rd (?p + 6) = Some (le_bytes 2 h ! 0)"
    "rd (?p + 7) = Some (le_bytes 2 h ! 1)"
    "rd (?p + 8) = Some (le_bytes 4 n ! 0)" "rd (?p + 9) = Some (le_bytes 4 n ! 1)"
    "rd (?p + 10) = Some (le_bytes 4 n ! 2)" "rd (?p + 11) = Some (le_bytes 4 n ! 3)"
    using rd [of 0] rd [of 1] rd [of 2] rd [of 3] rd [of 4] rd [of 5] rd [of 6] rd [of 7] rd [of 8]
      rd [of 9] rd [of 10] rd [of 11]
    by (simp_all add: header_bytes(2-13) header_bytes(3) [unfolded One_nat_def])
  have magic_here: "magic_at rd ?p = Some True"
    unfolding magic_at_def b by simp
  have magic: "find_magic 4096 rd 0x80000000 0 = Some (Some ?p)"
    using find_magic_skip [of off 4096 0 rd "0x80000000"] magic_here off by simp
  obtain o1 where 1: "say (''Playing Video!!'' @ nl) [] st = Some (st\<lparr>console := o1\<rparr>)"
    using say_plain [of "''Playing Video!!'' @ nl" "[]" st] by auto
  obtain o2 where 2: "say (''Resolution: %dx%d'' @ nl) [ucast (of_nat w :: u16), ucast (of_nat h :: u16)]
      (st\<lparr>console := o1\<rparr>) = Some (st\<lparr>console := o2\<rparr>)"
    using say_plain [of "''Resolution: %dx%d'' @ nl" "[ucast (of_nat w :: u16), ucast (of_nat h :: u16)]"
      "st\<lparr>console := o1\<rparr>"] by auto
  obtain o3 where 3: "say (''Frames:     %d'' @ nl) [ucast (of_nat n :: u32)] (st\<lparr>console := o2\<rparr>) =
      Some (st\<lparr>console := o3\<rparr>)"
    using say_plain [of "''Frames:     %d'' @ nl" "[ucast (of_nat n :: u32)]" "st\<lparr>console := o2\<rparr>"] by auto
  have "player_start passes rd clk st = map_option Running (play_passes passes rd clk
      ?p bytes_pf pixels (of_nat w) (of_nat h) (of_nat n) (st\<lparr>console := o3\<rparr>))"
    unfolding player_start_def
    using magic b 1 2 3 header_u16 [OF w(1)] header_u16 [OF w(2)] header_u32 [OF n] small
    by (simp add: Let_def bytes_pf_def pixels_def)
  then show ?thesis by blast
qed

lemma narrow_u16: "k < 2 ^ 16 \<Longrightarrow> (ucast (of_nat k :: u16) :: u32) = of_nat k"
  by (simp add: word_unat_eq_iff unsigned_ucast_eq unsigned_of_nat take_bit_eq_mod)

lemma start_plays:
  fixes frames :: "(u8 \<times> u8 \<times> u8) list list"
  assumes w: "w < 2 ^ 16" "h < 2 ^ 16" "w * h \<le> 8 * MAX_FRAME_BYTES"
    and len: "\<forall>px\<in>set frames. List.length px = w * h" "List.length frames < 2 ^ 32"
    and map: "file_at rd (0x80000000 + of_nat off) (video_file w h frames)"
    and off: "off < 4096" "\<forall>i<off. magic_at rd (0x80000000 + of_nat i) = Some False"
    and clk: "clk_live clk" and fb: "List.length (frame_buffer st) = MAX_FRAME_BYTES"
  shows "\<exists>st' ds. player_start passes rd clk st = Some (Running st') \<and>
    drawn_frames st' = drawn_frames st @ ds \<and>
    list_all2 (shows_frame (of_nat w) (of_nat h)) ds
      (concat (replicate passes (map (map is_bright) frames)))"
proof -
  let ?p = "0x80000000 + of_nat off :: u64" and ?frames = "map (map is_bright) frames"
  have hdr: "file_at rd ?p (video_header w h (List.length frames))"
    and data: "file_at rd (?p + 12) (rle_encode ?frames)"
    using file_at_append [OF map [unfolded video_file_header]] by (simp_all add: header_bytes(1))
  obtain out where start: "player_start passes rd clk st = map_option Running (play_passes passes rd clk
      ?p (of_nat ((w * h + 7) div 8)) (of_nat (w * h)) (of_nat w) (of_nat h)
      (of_nat (List.length frames)) (st\<lparr>console := out\<rparr>))"
    using start_header [OF w(1,2) len(2) hdr off, of passes clk st] frame_sizes [OF w]
    unfolding frame_sizes(1) [OF w] by (auto simp del: of_nat_mult)
  have "\<forall>px\<in>set ?frames. List.length px = w * h" "List.length ?frames < 2 ^ 32" using len by auto
  moreover have "List.length (frame_buffer (st\<lparr>console := out\<rparr>)) = MAX_FRAME_BYTES" using fb by simp
  ultimately obtain st' ds where "play_passes passes rd clk ?p (of_nat ((w * h + 7) div 8))
        (of_nat (w * h)) (of_nat w) (of_nat h) (of_nat (List.length frames)) (st\<lparr>console := out\<rparr>) = Some st'"
      "drawn_frames st' = drawn_frames st @ ds"
      "list_all2 (shows_frame (ucast (of_nat w :: u16)) (ucast (of_nat h :: u16))) ds
        (concat (replicate passes ?frames))"
    using play_passes_ok [OF clk w(3) _ data, of "st\<lparr>console := out\<rparr>" passes "of_nat w" "of_nat h"] by auto
  then show ?thesis using start narrow_u16 w(1,2) by auto
qed

section \<open>Sizes that overflow\<close>

text \<open>With sizes that are not positive no byte is cleared or decoded, and the buffer is drawn as it is.\<close>

lemma play_frames_empty:
  assumes clk: "clk_live clk" and size: "sint b \<le> 0" "\<not> 0 <s pixels"
  shows "\<exists>st'. play_frames n rd clk b pixels w h (clk m) cf st = Some st' \<and>
    frame_buffer st' = frame_buffer st \<and>
    drawn_frames st' = drawn_frames st @ replicate n (frame_buffer st, ucast w, ucast h)"
proof (induction n arbitrary: cf st)
  case (Suc n)
  have zero: "nat (sint b) = 0" using size(1) by simp
  let ?st = "draw_call (ucast w) (ucast h) st"
  obtain k where 1: "wait_until clk (clk m + ucast (cf * 1000 div 30)) ?st = Some (?st\<lparr>clock_reads := k\<rparr>)"
    using wait_until_live [OF clk] by blast
  obtain st' where 2: "play_frames n rd clk b pixels w h (clk m) (cf + 1) (?st\<lparr>clock_reads := k\<rparr>) = Some st'"
      "frame_buffer st' = frame_buffer st"
      "drawn_frames st' = drawn_frames ?st @ replicate n (frame_buffer st, ucast w, ucast h)"
    using Suc.IH [of "cf + 1" "?st\<lparr>clock_reads := k\<rparr>"] by (auto simp: draw_call_def)
  have "decode_loop rd pixels 0 st = Some st" using size(2) by (simp add: decode_loop.simps)
  then have "play_frames (Suc n) rd clk b pixels w h (clk m) cf st = Some st'"
    using 1 2(1) by (simp add: zero Let_def)
  then show ?case using 2(2,3) by (simp add: draw_call_def)
qed simp

lemma play_passes_empty:
  assumes "clk_live clk" and "sint b \<le> 0" and "\<not> 0 <s pixels"
  shows "\<exists>st'. play_passes passes rd clk file b pixels w h n st = Some st' \<and>
    frame_buffer st' = frame_buffer st \<and>
    drawn_frames st' = drawn_frames st @ replicate (passes * unat n) (frame_buffer st, ucast w, ucast h)"
proof (induction passes arbitrary: st)
  case (Suc passes)
  let ?st = "(snd (uptime clk st))\<lparr>rle_ptr := file + 12, current_color := 0, current_run := 0\<rparr>"
  obtain st1 where 1: "play_pass rd clk file b pixels w h n st = Some st1"
      "frame_buffer st1 = frame_buffer st"
      "drawn_frames st1 = drawn_frames st @ replicate (unat n) (frame_buffer st, ucast w, ucast h)"
    using play_frames_empty [OF assms, of "unat n" rd w h "clock_reads st" 0 ?st]
    by (auto simp: play_pass_def uptime_def)
  obtain st2 where 2: "play_passes passes rd clk file b pixels w h n st1 = Some st2"
      "frame_buffer st2 = frame_buffer st1"
      "drawn_frames st2 = drawn_frames st1 @
        replicate (passes * unat n) (frame_buffer st1, ucast w, ucast h)" using Suc.IH by blast
  have "play_passes (Suc passes) rd clk file b pixels w h n st = Some st2" using 1(1) 2(1) by simp
  then show ?case using 1(2,3) 2(2,3) by (simp add: replicate_add)
qed simp

lemma overflowed_sizes:
  assumes "w < 2 ^ 16" and "h < 2 ^ 16" and "2 ^ 31 \<le> w * h"
  defines "pixels \<equiv> ucast (of_nat w :: u16) * ucast (of_nat h :: u16) :: u32"
  defines "bytes_pf \<equiv> word_of_int (sint (pixels + 7) sdiv 8) :: u32"
  shows "\<not> 65536 <s bytes_pf" and "sint bytes_pf \<le> 0" and "\<not> 0 <s pixels" and "MAX_FRAME_BYTES < h * (w div 8)"
proof -
  have le: "w \<le> 65535" "h \<le> 65535" using assms(1,2) by simp_all
  then have "w * h \<le> 65535 * 65535" by (intro mult_le_mono)
  then have n: "w * h \<le> 4294836225" "2147483648 \<le> w * h" using assms(3) by simp_all
  have "pixels = of_nat (w * h)" by (simp add: pixels_def narrow_u16 [OF assms(1)] narrow_u16 [OF assms(2)])
  then have p: "unat pixels = w * h" using n(1) by (simp only: unat_of_nat) simp
  have p7: "unat (pixels + 7) = w * h + 7" using n p by (subst unat_add_lem [THEN iffD1]) simp_all
  have s: "sint pixels = int (w * h) - 2 ^ 32" "sint (pixels + 7) = int (w * h) + 7 - 2 ^ 32"
    unfolding sint32_unat p p7 using n(2) by simp_all
  have neg: "int (w * h) - 2 ^ 32 < 0" "int (w * h) + 7 - 2 ^ 32 < 0"
      "- (2 ^ 31) \<le> int (w * h) + 7 - 2 ^ 32"
  proof -
    have "int (w * h) \<le> int 4294836225" "int 2147483648 \<le> int (w * h)"
      using n by (simp_all only: of_nat_le_iff)
    then have "int (w * h) \<le> 4294836225" "2147483648 \<le> int (w * h)" by (simp_all only: of_nat_numeral)
    then show "int (w * h) - 2 ^ 32 < 0" "int (w * h) + 7 - 2 ^ 32 < 0"
      "- (2 ^ 31) \<le> int (w * h) + 7 - 2 ^ 32" by (simp_all del: of_nat_mult)
  qed
  let ?q = "\<bar>sint (pixels + 7)\<bar> div 8"
  have div: "sint (pixels + 7) sdiv 8 = - ?q" using neg(2) s(2) by (simp add: signed_divide_int_def)
  have q: "0 \<le> ?q" "?q \<le> 2 ^ 30" using neg(2,3) s(2) by simp_all
  then have sz: "sint bytes_pf = - ?q"
    unfolding bytes_pf_def div sint_sbintrunc' by (intro signed_take_bit_int_eq_self) simp_all
  then show "\<not> 65536 <s bytes_pf" "sint bytes_pf \<le> 0" using q by (simp_all add: word_sless_alt)
  show "\<not> 0 <s pixels" using neg(1) s(1) by (simp add: word_sless_alt)
  have "w * h = h * (8 * (w div 8)) + h * (w mod 8)"
    by (simp only: distrib_left [symmetric] mult_div_mod_eq mult.commute)
  moreover have "h * (w mod 8) \<le> 65535 * 7" using le(2) by (intro mult_le_mono) simp_all
  ultimately show "MAX_FRAME_BYTES < h * (w div 8)" using n(2) by simp
qed

section \<open>Properties\<close>

text \<open>
  C3. Encoder and player fit: for every video whose frames have \<open>w * h\<close> pixels and fit the frame
  buffer, a player that finds the encoded file in the first page of its mapping, behind bytes
  that are no magic, terminates each pass over it and, in any number of passes, draws exactly the frames that were encoded, in order, each with every
  pixel black or white as the original is dark or bright, whatever the buffer held before.
\<close>

theorem video_roundtrip:
  fixes frames :: "(u8 \<times> u8 \<times> u8) list list"
  assumes "w < 2 ^ 16" and "h < 2 ^ 16" and "w * h \<le> 8 * MAX_FRAME_BYTES"
    and "\<forall>px\<in>set frames. List.length px = w * h" and "List.length frames < 2 ^ 32"
    and "file_at rd (0x80000000 + of_nat off) (video_file w h frames)"
    and "off < 4096" and "\<forall>i<off. magic_at rd (0x80000000 + of_nat i) = Some False"
    and "clk_live clk"
    and "List.length (frame_buffer st) = MAX_FRAME_BYTES"
  shows "\<exists>st' ds. player_start passes rd clk st = Some (Running st') \<and>
    drawn_frames st' = drawn_frames st @ ds \<and>
    list_all2 (shows_frame (of_nat w) (of_nat h)) ds
      (concat (replicate passes (map (map is_bright) frames)))"
  using assms by (rule start_plays)

definition demo_player :: player where
  "demo_player = \<lparr>frame_buffer = replicate 65536 0xFF, rle_ptr = 0, current_color = 0, current_run = 0,
     drawn_frames = [], clock_reads = 0, console = []\<rparr>"

definition read_list :: "u64 \<Rightarrow> u8 list \<Rightarrow> u64 \<Rightarrow> u8 option" where
  "read_list p xs a = (if unat (a - p) < List.length xs then Some (xs ! unat (a - p)) else None)"

lemma file_at_read_list:
  assumes "List.length (xs @ ys) \<le> 2 ^ 64"
  shows "file_at (read_list p (xs @ ys)) (p + of_nat (List.length xs)) ys"
  unfolding file_at_def
proof (intro allI impI)
  fix i assume i: "i < List.length ys"
  have "unat (of_nat (List.length xs) + of_nat i :: u64) = List.length xs + i"
    using assms i unat_of_nat64 [of "List.length xs + i"] by simp
  then show "read_list p (xs @ ys) (p + of_nat (List.length xs) + of_nat i) = Some (ys ! i)"
    using i by (simp add: read_list_def add.assoc nth_append)
qed

text \<open>A video of one frame, behind a byte that could begin the magic.\<close>

lemma clk_live_counter: "clk_live of_nat"
  unfolding clk_live_def
proof (intro allI impI)
  fix m n and d :: u64
  let ?k = "n * 2 ^ 64 + unat (of_nat m + d :: u64)"
  have "(of_nat (n * 2 ^ 64) :: u64) = 0" unfolding word_of_nat_eq_0_iff by simp
  then have "(of_nat ?k :: u64) = of_nat m + d" by (simp only: of_nat_add of_nat_unat ucast_id add_0)
  moreover have "n \<le> ?k" by simp
  ultimately show "\<exists>k\<ge>n. of_nat m + d \<le> (of_nat k :: u64)" by (metis order_refl)
qed

theorem video_roundtrip_witness:
  "\<exists>st' d. player_start 1
      (read_list 0x80000000 ([0x42] @ video_file 2 1 [[(255, 255, 255), (0, 0, 9)]])) of_nat
      demo_player = Some (Running st') \<and> drawn_frames st' = [d] \<and> snd d = (2, 1) \<and>
     fbit (fst d) 0 \<and> \<not> fbit (fst d) 1"
proof -
  let ?v = "[[(255, 255, 255), (0, 0, 9)]] :: (u8 \<times> u8 \<times> u8) list list"
  let ?rd = "read_list 0x80000000 ([0x42] @ video_file 2 1 ?v)"
  have "List.length ([0x42] @ video_file 2 1 ?v) \<le> 2 ^ 64"
    by (simp add: video_file_def rle_encode_def is_bright_def)
  from file_at_read_list [OF this, of "0x80000000"]
  have at: "file_at ?rd (0x80000000 + of_nat 1) (video_file 2 1 ?v)" by simp
  have no: "\<forall>i<1. magic_at ?rd (0x80000000 + of_nat i) = Some False"
    by (simp add: magic_at_def read_list_def video_file_def)
  from video_roundtrip [OF _ _ _ _ _ at _ no clk_live_counter, of demo_player 1] show ?thesis
    by (auto simp: demo_player_def shows_frame_def list_all2_Cons2 is_bright_def)
qed



end
