(* ===== verification/Screen.thy ===== *)
theory Screen
  imports Video
begin

text \<open>
  Player and kernel together: a program that fills its frame buffer and makes system call 4
  again and again, as \<open>draw_frame\<close> of init.c does, and what the screen shows after each call.
  \<open>display\<close> is the invariant of the drawing state of syscall.c, from before the first call, when
  the back buffer has still to be taken from the heap, on.
\<close>

unbundle bit_operations_syntax

section \<open>The invariant of the drawing state\<close>

definition screen_bytes :: "limine_framebuffer \<Rightarrow> nat" where
  "screen_bytes fb = unat (pitch fb) * unat (height fb)"

text \<open>The cells that drawing may change: the heap of \<open>n\<close> bytes and the video memory.\<close>

definition screen_cell :: "'a kheap_scheme \<Rightarrow> limine_framebuffer \<Rightarrow> nat \<Rightarrow> u64 \<Rightarrow> bool" where
  "screen_cell st fb n x \<longleftrightarrow> within x (free_list st) n \<or> within x (address fb) (screen_bytes fb)"

definition screen_ok :: "limine_framebuffer \<Rightarrow> u64 \<Rightarrow> nat \<Rightarrow> bool" where
  "screen_ok fb h n \<longleftrightarrow> unat (width fb) < 2 ^ 29 \<and> unat (height fb) < 2 ^ 31 \<and>
     unat (width fb) \<le> unat (pitch fb) div 4 \<and> screen_bytes fb + 24 < 2 ^ 64 \<and>
     kregion (address fb) (screen_bytes fb) \<and>
     (unat (address fb) + screen_bytes fb \<le> unat h \<or> unat h + n \<le> unat (address fb))"

definition display :: "'a syscalls_scheme \<Rightarrow> limine_framebuffer \<Rightarrow> blocks \<Rightarrow> bool" where
  "display st fb bs \<longleftrightarrow> heap st bs \<and> tx_live st \<and> (\<exists>fbs. fb_response st = Some (fb # fbs)) \<and>
     screen_ok fb (free_list st) (total bs) \<and>
     (if backbuffer st = 0 then alloc_list (screen_bytes fb + 24) bs \<noteq> None
      else \<exists>off k. (off, k) \<in> live bs \<and> screen_bytes fb \<le> k \<and> backbuffer st = free_list st + of_nat off)"

lemma screen_size:
  assumes "screen_ok fb h n"
  shows "unat (pitch fb * height fb) = screen_bytes fb" "buffer_bytes fb \<le> screen_bytes fb"
proof -
  have "unat (pitch fb) * unat (height fb) < 2 ^ LENGTH(64)"
    using assms by (simp add: screen_ok_def screen_bytes_def)
  then show "unat (pitch fb * height fb) = screen_bytes fb"
    by (simp add: screen_bytes_def unat_word_ariths)
  have "4 * (unat (pitch fb) div 4) \<le> unat (pitch fb)" by simp
  then have "4 * (unat (pitch fb) div 4) * unat (height fb) \<le> screen_bytes fb"
    unfolding screen_bytes_def by (rule mult_le_mono1)
  then show "buffer_bytes fb \<le> screen_bytes fb" by (simp only: buffer_bytes_def mult.assoc)
qed

text \<open>A payload that is in use: where it lies, and that its bytes belong to the heap only.\<close>

lemma payload_region:
  assumes "heap st bs" and "(off, k) \<in> live bs" and "s \<le> k"
  shows "kregion (free_list st + of_nat off) s"
    "unat (free_list st + of_nat off) = unat (free_list st) + off" "off + s \<le> total bs"
    "within x (free_list st + of_nat off) s \<Longrightarrow>
       within x (free_list st) (total bs) \<and> \<not> hdr bs (unat (x - free_list st))"
proof -
  have r: "kregion (free_list st) (Suc (total bs))" using assms(1) by (simp add: heap_def)
  note o = heap_offset [OF assms(1,2)]
  show b: "off + s \<le> total bs" using o(2) assms(3) by linarith
  have "kregion (free_list st) (off + s)" using r b by (rule kregion_mono [OF _ le_SucI])
  then show "kregion (free_list st + of_nat off) s" by (rule kregion_next)
  show "unat (free_list st + of_nat off) = unat (free_list st) + off"
    using kregion_unat_add [OF r] o(1) by simp
  assume "within x (free_list st + of_nat off) s"
  then have k: "within x (free_list st + of_nat off) k" using assms(3) by (rule within_mono)
  then have "within x (free_list st) (total bs)" using o(2,6) by (simp add: within_def)
  then show "within x (free_list st) (total bs) \<and> \<not> hdr bs (unat (x - free_list st))"
    using live_bytes_kept [OF assms(1,2) k] by blast
qed

lemma heap_mem_cong:
  fixes st :: "'a kheap_scheme" and st' :: "'b kheap_scheme"
  assumes "heap st bs" and "free_list st' = free_list st"
    and "\<And>x. hdr bs (unat (x - free_list st)) \<Longrightarrow> mem st' x = mem st x"
  shows "heap st' bs"
proof -
  have "kregion (free_list st) (Suc (total bs))" "sizes_ok bs" using assms(1) by (simp_all add: heap_def)
  moreover from this(1) have "total bs \<le> 2 ^ 64" using kregion_small by fastforce
  ultimately have "heap_at (mem st') (free_list st) bs = heap_at (mem st) (free_list st) bs"
    using assms(3) by (intro heap_at_cong) auto
  then show ?thesis using assms(1,2) by (simp add: heap_def)
qed

section \<open>The first frame\<close>

lemma kregion_apart:
  assumes "kregion a n" and "kregion b k" and "unat a + n \<le> unat b \<or> unat b + k \<le> unat a"
  shows "within x a n \<Longrightarrow> \<not> within x b k"
  using assms by (auto simp: within_kregion)

text \<open>
  Taking the back buffer: the heap has one more block in use, of at least the size of the screen;
  buffer and video memory are cleared.
\<close>

lemma setup_backbuffer_first:
  fixes st :: "'a syscalls_scheme"
  assumes d: "display st fb bs" and z: "backbuffer st = 0"
  shows "\<exists>st' bs'. setup_backbuffer fb st = Some st' \<and> display st' fb bs' \<and> backbuffer st' \<noteq> 0 \<and>
    total bs' = total bs \<and> (\<exists>m p n. st' = st\<lparr>backbuffer_size := n, backbuffer := p, mem := m\<rparr>) \<and>
    (\<forall>x. within x (address fb) (screen_bytes fb) \<longrightarrow> mem st' x = 0) \<and>
    (\<forall>x. \<not> screen_cell st fb (total bs) x \<longrightarrow> mem st' x = mem st x)"
proof -
  let ?S = "screen_bytes fb" and ?sz = "pitch fb * height fb" and ?h = "free_list st" and ?v = "address fb"
  have heap: "heap st bs" and tx: "tx_live st" and ok: "screen_ok fb ?h (total bs)"
    and fbr: "\<exists>fbs. fb_response st = Some (fb # fbs)"
    and al: "alloc_list (?S + 24) bs \<noteq> None"
    using d z by (simp_all add: display_def)
  note S = screen_size [OF ok]
  have s64: "?S + 24 < 2 ^ 64" and v: "kregion ?v ?S"
    "unat ?v + ?S \<le> unat ?h \<or> unat ?h + total bs \<le> unat ?v" using ok by (simp_all add: screen_ok_def)
  let ?st = "st\<lparr>backbuffer_size := ?sz\<rparr>"
  have heap0: "heap ?st bs" "tx_live ?st" using heap tx by (simp_all add: heap_def tx_live_def)
  obtain off bs' where r: "alloc_list (?S + 24) bs = Some (off, bs')" using al by auto
  define p where "p = ?h + of_nat (off + 24)"
  obtain m where m: "kmalloc ?sz ?st = Some (p, ?st\<lparr>mem := m\<rparr>)" "heap (?st\<lparr>mem := m\<rparr>) bs'"
      "\<And>x. \<not> hdr bs' (unat (x - ?h)) \<Longrightarrow> m x = mem st x"
    using kmalloc_ok [OF heap0(1), of ?sz] S(1) s64 heap0(2) r by (auto simp: p_def)
  have ok_bs: "sizes_ok bs" using heap by (simp add: heap_def)
  have tot: "total bs' = total bs" using alloc_list_total [of _ bs off bs'] r by simp
  obtain k where k: "?S \<le> k" "(off + 24, k) \<in> live bs'"
    using alloc_list_live [OF r ok_bs] by auto
  have fl: "free_list (?st\<lparr>mem := m\<rparr>) = ?h" by simp
  note pay = payload_region [OF m(2) k(2,1), unfolded fl, folded p_def]
  have p0: "p \<noteq> 0"
    using heap_pointer_inj(2) [OF m(2), of "off + 24"] heap_offset(1) [OF m(2) k(2)] by (simp add: p_def)
  let ?m1 = "filled m p ?S 0" and ?st' = "st\<lparr>backbuffer_size := ?sz, backbuffer := p\<rparr>"
  have ap: "unat ?v + ?S \<le> unat p \<or> unat p + ?S \<le> unat ?v"
    using v(2) pay(2,3) tot by auto
  have apart: "apart ?v p ?S" using ap by (simp add: apart_def)
  have fwd: "forward_safe ?v p ?S"
    using apart_parts(3) [OF apart v(1), of 0 ?S] pay(1) by simp
  let ?m2 = "copied ?m1 ?v p ?S"
  have ms: "memset p 0 ?sz (?st'\<lparr>mem := m\<rparr>) = Some (p, ?st'\<lparr>mem := ?m1\<rparr>)"
    using memset_kernel [of p ?sz 0 "?st'\<lparr>mem := m\<rparr>"] pay(1) S(1) by simp
  have mc: "fast_memcpy ?v p ?sz (?st'\<lparr>mem := ?m1\<rparr>) = Some (?v + 8 * (?sz div 8), ?st'\<lparr>mem := ?m2\<rparr>)"
    using fast_memcpy_kernel [of ?v ?sz p "?st'\<lparr>mem := ?m1\<rparr>"] pay(1) v(1) fwd S(1) by simp
  have swap: "?st\<lparr>mem := m, backbuffer := p\<rparr> = ?st'\<lparr>mem := m\<rparr>" by simp
  have run: "setup_backbuffer fb st = Some (?st'\<lparr>mem := ?m2\<rparr>)"
    using z m(1) ms mc by (simp add: setup_backbuffer_def Let_def swap)
  have hb: "within x ?h (total bs)" if "hdr bs' (unat (x - ?h))" for x
    using hdr_bound [OF that] m(2) tot by (simp add: heap_def within_def)
  have vh: "\<not> within x ?h (total bs)" if "within x ?v ?S" for x
  proof -
    have "kregion ?h (total bs)" using heap by (auto simp: heap_def intro: kregion_mono)
    then show ?thesis using that kregion_apart [OF v(1) _ v(2)] by blast
  qed
  have kept: "?m2 x = m x" if "\<not> within x ?v ?S" "\<not> within x p ?S" for x
    using that by (simp add: copied_def filled_def)
  have "heap (?st'\<lparr>mem := ?m2\<rparr>) bs'"
  proof (rule heap_mem_cong [OF m(2)])
    fix x assume "hdr bs' (unat (x - free_list (?st\<lparr>mem := m\<rparr>)))"
    then have x: "hdr bs' (unat (x - ?h))" by simp
    then have "\<not> within x ?v ?S" using vh hb by blast
    moreover have "\<not> within x p ?S" using pay(4) [of x] x by auto
    ultimately show "mem (?st'\<lparr>mem := ?m2\<rparr>) x = mem (?st\<lparr>mem := m\<rparr>) x" using kept by simp
  qed simp
  moreover have "tx_live (?st'\<lparr>mem := ?m2\<rparr>)" using tx by (simp add: tx_live_def)
  moreover have "\<exists>o' k. (o', k) \<in> live bs' \<and> ?S \<le> k \<and> p = ?h + of_nat o'"
    using k p_def by blast
  ultimately have disp: "display (?st'\<lparr>mem := ?m2\<rparr>) fb bs'"
    using fbr ok p0 tot by (simp add: display_def)
  have "?m2 x = 0" if "within x ?v ?S" for x
  proof -
    have "within (p + (x - ?v)) p ?S" using that by (simp add: within_def)
    then show ?thesis using that by (simp add: copied_def filled_def)
  qed
  moreover have "?m2 x = mem st x" if "\<not> screen_cell st fb (total bs) x" for x
  proof -
    have x: "\<not> within x ?v ?S" "\<not> within x ?h (total bs)" using that by (auto simp: screen_cell_def)
    then have "\<not> within x p ?S" using pay(4) [of x] tot by auto
    then show ?thesis using kept x m(3) hb by metis
  qed
  ultimately show ?thesis using run disp tot p0
    by (intro exI [of _ "?st'\<lparr>mem := ?m2\<rparr>"] exI [of _ bs']) auto
qed

section \<open>Every frame\<close>

text \<open>The frames that fit the screen.\<close>

definition size_ok :: "limine_framebuffer \<Rightarrow> nat \<Rightarrow> nat \<Rightarrow> bool" where
  "size_ok fb w h \<longleftrightarrow> 8 dvd w \<and> w \<le> unat (width fb) \<and> h \<le> unat (height fb) \<and> w * h < 2 ^ 31"

text \<open>Row \<open>y\<close> of the centred frame in the video memory, and the colour of a pixel there.\<close>

definition on_row :: "limine_framebuffer \<Rightarrow> nat \<Rightarrow> nat \<Rightarrow> nat \<Rightarrow> u64 \<Rightarrow> bool" where
  "on_row fb w h y a \<longleftrightarrow> within a (address fb + of_nat (pixel_at fb w h 0 y)) (4 * w)"

definition screen_pixel :: "'a machine_scheme \<Rightarrow> limine_framebuffer \<Rightarrow> nat \<Rightarrow> nat \<Rightarrow> nat \<Rightarrow> nat \<Rightarrow> u32" where
  "screen_pixel st fb w h x y = ldw 4 (mem st) (address fb + of_nat (pixel_at fb w h x y))"

lemma display_fits:
  assumes "display st fb bs" and "backbuffer st \<noteq> 0" and "size_ok fb w h"
  shows "frame_fits fb (backbuffer st) w h"
    and "within x (backbuffer st) (buffer_bytes fb) \<Longrightarrow>
      within x (free_list st) (total bs) \<and> \<not> hdr bs (unat (x - free_list st))"
proof -
  have heap: "heap st bs" and ok: "screen_ok fb (free_list st) (total bs)"
    using assms(1) by (simp_all add: display_def)
  obtain off k where k: "(off, k) \<in> live bs" "screen_bytes fb \<le> k" "backbuffer st = free_list st + of_nat off"
    using assms(1,2) by (auto simp: display_def)
  note S = screen_size [OF ok]
  have b: "buffer_bytes fb \<le> k" using S(2) k(2) by simp
  note pay = payload_region [OF heap k(1) b, folded k(3)]
  show "within x (backbuffer st) (buffer_bytes fb) \<Longrightarrow>
      within x (free_list st) (total bs) \<and> \<not> hdr bs (unat (x - free_list st))"
    using pay(4) by blast
  have v: "kregion (address fb) (screen_bytes fb)"
    "unat (address fb) + screen_bytes fb \<le> unat (free_list st) \<or>
     unat (free_list st) + total bs \<le> unat (address fb)"
    using ok by (simp_all add: screen_ok_def)
  then have "apart (address fb) (backbuffer st) (buffer_bytes fb)"
    using pay(2,3) S(2) unfolding apart_def by linarith
  then show "frame_fits fb (backbuffer st) w h"
    using assms(3) ok pay(1) kregion_mono [OF v(1) S(2)]
    unfolding frame_fits_def size_ok_def screen_ok_def by blast
qed

lemma readable_mono:
  assumes "readable st A p n img" and "\<And>x. B x \<Longrightarrow> A x"
  shows "readable st B p n img"
  using assms unfolding readable_def by (metis (no_types, lifting))

lemma readable_cong:
  fixes st :: "'a machine_scheme" and st' :: "'b machine_scheme"
  assumes img: "readable st A p n img" and "cr3 st' = cr3 st" and "hhdm_offset st' = hhdm_offset st"
    and mem: "\<And>x. \<not> A x \<Longrightarrow> mem st' x = mem st x"
  shows "readable st' A p n img"
proof -
  have "ld8 (st'\<lparr>mem := m\<rparr>) a = ld8 (st\<lparr>mem := m\<rparr>) a" for m a
    using assms(2,3) by (simp add: ld8_def resolve_def walk_def)
  then show ?thesis using img mem by (simp only: readable_def) simp
qed

text \<open>The screen after a call that finds the back buffer in place.\<close>

lemma draw_next_frame:
  fixes st :: "'a syscalls_scheme"
  assumes d: "display st fb bs" and nz: "backbuffer st \<noteq> 0" and sz: "size_ok fb w h"
    and img: "readable st (screen_cell st fb (total bs)) frame (h * (w div 8)) img"
  shows "\<exists>m. draw_frame frame (of_nat w) (of_nat h) st = Some (st\<lparr>mem := m\<rparr>) \<and>
    display (st\<lparr>mem := m\<rparr>) fb bs \<and>
    (\<forall>y<h. \<forall>x<w. screen_pixel (st\<lparr>mem := m\<rparr>) fb w h x y = colour (frame_bit img (y * w + x))) \<and>
    (\<forall>a. within a (address fb) (screen_bytes fb) \<longrightarrow> (\<forall>y<h. \<not> on_row fb w h y a) \<longrightarrow> m a = mem st a) \<and>
    (\<forall>a. \<not> screen_cell st fb (total bs) a \<longrightarrow> m a = mem st a)"
proof -
  note fits = display_fits [OF d nz sz]
  obtain fbs where fbr: "fb_response st = Some (fb # fbs)" using d by (auto simp: display_def)
  have ok: "screen_ok fb (free_list st) (total bs)" and heap: "heap st bs"
    using d by (simp_all add: display_def)
  have vr: "kregion (address fb) (screen_bytes fb)"
    "unat (address fb) + screen_bytes fb \<le> unat (free_list st) \<or>
     unat (free_list st) + total bs \<le> unat (address fb)"
    using ok by (simp_all add: screen_ok_def)
  have hr: "kregion (free_list st) (total bs)" using heap by (auto simp: heap_def intro: kregion_mono)
  note va = kregion_apart [OF vr(1) hr vr(2)]
  have "readable st (\<lambda>x. within x (backbuffer st) (buffer_bytes fb)) frame (h * (w div 8)) img"
    using readable_mono [OF img] fits(2) by (auto simp: screen_cell_def)
  from draw_frame_ok [OF fbr nz fits(1) this] obtain m where
    m: "draw_frame frame (of_nat w) (of_nat h) st = Some (st\<lparr>mem := m\<rparr>)"
      "\<forall>y<h. \<forall>x<w. ldw 4 m (address fb + of_nat (pixel_at fb w h x y)) =
        (if frame_bit img (y * w + x) then 0xFFFFFFFF else 0xFF000000 :: u32)"
      "\<And>a. (\<forall>y<h. \<not> on_row fb w h y a) \<Longrightarrow> \<not> within a (backbuffer st) (buffer_bytes fb) \<Longrightarrow> m a = mem st a"
    unfolding on_row_def by blast
  have row: "within a (address fb) (screen_bytes fb)" if "y < h" "on_row fb w h y a" for y a
  proof -
    let ?f = "unat (pitch fb) div 4" and ?sx = "(unat (width fb) - w) div 2"
      and ?sy = "(unat (height fb) - h) div 2"
    have g: "?sx + w \<le> ?f" "?sy + h \<le> unat (height fb)"
      using sz ok by (auto simp: size_ok_def screen_ok_def)
    have e: "pixel_at fb w h 0 y + 4 * w \<le> buffer_bytes fb"
      using row_end [OF g that(1)] by (simp add: pixel_at_def buffer_bytes_def)
    moreover have "screen_bytes fb \<le> 2 ^ 64" using ok by (simp add: screen_ok_def)
    ultimately show ?thesis
      using that(2) within_part [of "pixel_at fb w h 0 y" "4 * w" "screen_bytes fb" a "address fb"]
        screen_size(2) [OF ok] by (simp add: on_row_def)
  qed
  have out: "m a = mem st a" if "\<not> screen_cell st fb (total bs) a" for a
    using that m(3) [of a] row [of _ a] fits(2) [of a] by (auto simp: screen_cell_def)
  have "heap (st\<lparr>mem := m\<rparr>) bs"
  proof (rule heap_mem_cong [OF heap])
    fix x assume x: "hdr bs (unat (x - free_list st))"
    then have "within x (free_list st) (total bs)"
      using hdr_bound [OF x] heap by (simp add: heap_def within_def)
    then show "mem (st\<lparr>mem := m\<rparr>) x = mem st x"
      using m(3) [of x] row [of _ x] va [of x] fits(2) [of x] x by auto
  qed simp
  then have disp: "display (st\<lparr>mem := m\<rparr>) fb bs" using d nz by (simp add: display_def tx_live_def)
  have "m a = mem st a" if "within a (address fb) (screen_bytes fb)" "\<forall>y<h. \<not> on_row fb w h y a" for a
    using m(3) [of a] that va [of a] fits(2) [of a] by blast
  then show ?thesis using m(1,2) disp out
    by (intro exI [of _ m]) (simp add: screen_pixel_def colour_def)
qed

text \<open>The same for every call; the first one clears the rest of the screen.\<close>

lemma draw_frame_display:
  fixes st :: "'a syscalls_scheme"
  assumes d: "display st fb bs" and sz: "size_ok fb w h"
    and img: "readable st (screen_cell st fb (total bs)) frame (h * (w div 8)) img"
  shows "\<exists>st' bs' m p n. draw_frame frame (of_nat w) (of_nat h) st = Some st' \<and>
    st' = st\<lparr>backbuffer_size := n, backbuffer := p, mem := m\<rparr> \<and> p \<noteq> 0 \<and>
    display st' fb bs' \<and> total bs' = total bs \<and>
    (\<forall>y<h. \<forall>x<w. screen_pixel st' fb w h x y = colour (frame_bit img (y * w + x))) \<and>
    (\<forall>a. within a (address fb) (screen_bytes fb) \<longrightarrow> (\<forall>y<h. \<not> on_row fb w h y a) \<longrightarrow>
       m a = (if backbuffer st = 0 then 0 else mem st a)) \<and>
    (\<forall>a. \<not> screen_cell st fb (total bs) a \<longrightarrow> m a = mem st a)"
proof (cases "backbuffer st = 0")
  case False
  from draw_next_frame [OF d False sz img] obtain m where m:
    "draw_frame frame (of_nat w) (of_nat h) st = Some (st\<lparr>mem := m\<rparr>)" "display (st\<lparr>mem := m\<rparr>) fb bs"
    "\<forall>y<h. \<forall>x<w. screen_pixel (st\<lparr>mem := m\<rparr>) fb w h x y = colour (frame_bit img (y * w + x))"
    "\<forall>a. within a (address fb) (screen_bytes fb) \<longrightarrow> (\<forall>y<h. \<not> on_row fb w h y a) \<longrightarrow> m a = mem st a"
    "\<forall>a. \<not> screen_cell st fb (total bs) a \<longrightarrow> m a = mem st a" by blast
  have eq: "st\<lparr>mem := m\<rparr> = st\<lparr>backbuffer_size := backbuffer_size st, backbuffer := backbuffer st, mem := m\<rparr>"
    by simp
  have "\<forall>a. within a (address fb) (screen_bytes fb) \<longrightarrow> (\<forall>y<h. \<not> on_row fb w h y a) \<longrightarrow>
      m a = (if backbuffer st = 0 then 0 else mem st a)" using m(4) False by metis
  then show ?thesis using m(1-3,5) eq False by blast
next
  case True
  obtain st1 bs' m1 p n where 1: "setup_backbuffer fb st = Some st1" "display st1 fb bs'" "p \<noteq> 0"
      "total bs' = total bs" "st1 = st\<lparr>backbuffer_size := n, backbuffer := p, mem := m1\<rparr>"
      "\<forall>x. within x (address fb) (screen_bytes fb) \<longrightarrow> m1 x = 0"
      "\<forall>x. \<not> screen_cell st fb (total bs) x \<longrightarrow> m1 x = mem st x"
    using setup_backbuffer_first [OF d True] by force
  obtain fbs where fbr: "fb_response st = Some (fb # fbs)" using d by (auto simp: display_def)
  have same: "draw_frame frame (of_nat w) (of_nat h) st = draw_frame frame (of_nat w) (of_nat h) st1"
    using 1(1,3) fbr by (simp add: draw_frame_def 1(5)) (simp add: setup_backbuffer_def)
  have cell: "screen_cell st1 fb (total bs') = screen_cell st fb (total bs)"
    by (intro ext) (simp add: screen_cell_def 1(4,5))
  have "readable st1 (screen_cell st1 fb (total bs')) frame (h * (w div 8)) img"
    unfolding cell by (rule readable_cong [OF img]) (use 1(7) in \<open>simp_all add: 1(5)\<close>)
  from draw_next_frame [OF 1(2) _ sz this] obtain m where m:
    "draw_frame frame (of_nat w) (of_nat h) st1 = Some (st1\<lparr>mem := m\<rparr>)" "display (st1\<lparr>mem := m\<rparr>) fb bs'"
    "\<forall>y<h. \<forall>x<w. screen_pixel (st1\<lparr>mem := m\<rparr>) fb w h x y = colour (frame_bit img (y * w + x))"
    "\<forall>a. within a (address fb) (screen_bytes fb) \<longrightarrow> (\<forall>y<h. \<not> on_row fb w h y a) \<longrightarrow> m a = mem st1 a"
    "\<forall>a. \<not> screen_cell st fb (total bs) a \<longrightarrow> m a = mem st1 a"
    unfolding cell using 1(3,5) by auto
  have eq: "st1\<lparr>mem := m\<rparr> = st\<lparr>backbuffer_size := n, backbuffer := p, mem := m\<rparr>" by (simp add: 1(5))
  have m1: "mem st1 = m1" by (simp add: 1(5))
  have "\<forall>a. within a (address fb) (screen_bytes fb) \<longrightarrow> (\<forall>y<h. \<not> on_row fb w h y a) \<longrightarrow>
      m a = (if backbuffer st = 0 then 0 else mem st a)"
    using m(4) True 1(6) m1 by metis
  moreover have "\<forall>a. \<not> screen_cell st fb (total bs) a \<longrightarrow> m a = mem st a"
    using m(5) 1(7) m1 by metis
  ultimately show ?thesis using m(1) [folded same] eq m(2,3) 1(3,4) by blast
qed

section \<open>The call from the program\<close>

text \<open>
  \<open>draw_frame\<close> of init.c: the arguments in the registers, and the trap. \<open>int\<close> arguments are
  passed in 32-bit registers, whose upper halves the processor clears.
\<close>

definition draw_regs :: "registers \<Rightarrow> u64 \<Rightarrow> u32 \<Rightarrow> u32 \<Rightarrow> registers" where
  "draw_regs r frame w h = r\<lparr>rax := 4, rbx := frame, rcx := ucast w, rdx := ucast h\<rparr>"

definition user_draw_frame ::
  "('a syscalls_scheme \<Rightarrow> 'a syscalls_scheme option) \<Rightarrow> registers \<Rightarrow> u64 \<Rightarrow> u64 \<Rightarrow> u32 \<Rightarrow> u32 \<Rightarrow>
     'a syscalls_scheme \<Rightarrow> (registers option \<times> 'a syscalls_scheme) option" where
  "user_draw_frame irq r sp frame w h st = isr128 irq (draw_regs r frame w h) sp st"

text \<open>The cells that a call may change: those of drawing and the saved frame on the kernel stack.\<close>

definition call_cell :: "'a kheap_scheme \<Rightarrow> limine_framebuffer \<Rightarrow> nat \<Rightarrow> u64 \<Rightarrow> u64 \<Rightarrow> bool" where
  "call_cell st fb n sp x \<longleftrightarrow> screen_cell st fb n x \<or> within x (sp - 160) 160"

definition stack_ok :: "'a kheap_scheme \<Rightarrow> limine_framebuffer \<Rightarrow> nat \<Rightarrow> u64 \<Rightarrow> bool" where
  "stack_ok st fb n sp \<longleftrightarrow> kregion (sp - 160) 160 \<and>
     (unat (sp - 160) + 160 \<le> unat (free_list st) \<or> unat (free_list st) + n \<le> unat (sp - 160)) \<and>
     (unat (sp - 160) + 160 \<le> unat (address fb) \<or> unat (address fb) + screen_bytes fb \<le> unat (sp - 160))"

lemma stack_apart:
  assumes "stack_ok st fb n sp" and "kregion (free_list st) n" and "kregion (address fb) (screen_bytes fb)"
    and "within x (sp - 160) 160"
  shows "\<not> screen_cell st fb n x"
  using assms kregion_apart [of "sp - 160" 160 "free_list st" n x]
    kregion_apart [of "sp - 160" 160 "address fb" "screen_bytes fb" x]
  by (auto simp: stack_ok_def screen_cell_def)

lemma display_regions:
  assumes "display st fb bs"
  shows "kregion (free_list st) (total bs)" "kregion (address fb) (screen_bytes fb)"
  using assms by (auto simp: display_def heap_def screen_ok_def intro: kregion_mono)

text \<open>The invariant depends on the cells of drawing only.\<close>

lemma display_mem_cong:
  fixes st :: "'a syscalls_scheme"
  assumes d: "display st fb bs" and m: "\<And>x. screen_cell st fb (total bs) x \<Longrightarrow> m x = mem st x"
  shows "display (st\<lparr>mem := m\<rparr>) fb bs"
proof -
  have h: "heap st bs" using d by (simp add: display_def)
  have "heap (st\<lparr>mem := m\<rparr>) bs"
  proof (rule heap_mem_cong [OF h])
    fix x assume x: "hdr bs (unat (x - free_list st))"
    then show "mem (st\<lparr>mem := m\<rparr>) x = mem st x"
      using hdr_bound [OF x] h m by (simp add: heap_def screen_cell_def within_def)
  qed simp
  then show ?thesis using d by (simp add: display_def tx_live_def)
qed

lemma user_draw_ok:
  fixes st :: "'a syscalls_scheme"
  assumes d: "display st fb bs" and sz: "size_ok fb w h" and sp: "stack_ok st fb (total bs) sp"
    and img: "readable st (call_cell st fb (total bs) sp) frame (h * (w div 8)) img"
  shows "\<exists>st'. user_draw_frame irq r sp frame (of_nat w) (of_nat h) st =
      Some (Some (draw_regs r frame (of_nat w) (of_nat h)), st') \<and>
    (\<exists>bs'. display st' fb bs' \<and> total bs' = total bs) \<and>
    (\<exists>m p n. st' = st\<lparr>backbuffer_size := n, backbuffer := p, mem := m\<rparr> \<and> p \<noteq> 0) \<and>
    (\<forall>y<h. \<forall>x<w. screen_pixel st' fb w h x y = colour (frame_bit img (y * w + x))) \<and>
    (\<forall>a. within a (address fb) (screen_bytes fb) \<longrightarrow> (\<forall>y<h. \<not> on_row fb w h y a) \<longrightarrow>
       mem st' a = (if backbuffer st = 0 then 0 else mem st a)) \<and>
    (\<forall>a. \<not> call_cell st fb (total bs) sp a \<longrightarrow> mem st' a = mem st a)"
  unfolding user_draw_frame_def
proof (rule isr128_returns)
  let ?r = "draw_regs r frame (of_nat w) (of_nat h)"
  show "kregion (sp - 160) 160" using sp by (simp add: stack_ok_def)
  fix m
  assume fr: "frame_at (st\<lparr>mem := m\<rparr>) (sp - 160) ?r"
    and m: "\<And>x. \<not> within x (sp - 160) 160 \<Longrightarrow> m x = mem st x"
  note apart = stack_apart [OF sp display_regions [OF d]]
  let ?st = "st\<lparr>mem := m\<rparr>"
  have disp: "display ?st fb bs" by (rule display_mem_cong [OF d]) (use apart m in blast)
  have cell: "screen_cell ?st fb (total bs) = screen_cell st fb (total bs)"
    by (intro ext) (simp add: screen_cell_def)
  have "readable st (screen_cell st fb (total bs)) frame (h * (w div 8)) img"
    by (rule readable_mono [OF img]) (simp add: call_cell_def)
  have "readable ?st (call_cell st fb (total bs) sp) frame (h * (w div 8)) img"
    by (rule readable_cong [OF img]) (use m in \<open>simp_all add: call_cell_def\<close>)
  then have "readable ?st (screen_cell ?st fb (total bs)) frame (h * (w div 8)) img"
    unfolding cell by (rule readable_mono) (simp add: call_cell_def)
  from draw_frame_display [OF disp sz this] obtain st' bs' m' p n where st':
    "draw_frame frame (of_nat w) (of_nat h) ?st = Some st'"
    "st' = ?st\<lparr>backbuffer_size := n, backbuffer := p, mem := m'\<rparr>" "p \<noteq> 0"
    "display st' fb bs'" "total bs' = total bs"
    "\<forall>y<h. \<forall>x<w. screen_pixel st' fb w h x y = colour (frame_bit img (y * w + x))"
    "\<forall>a. within a (address fb) (screen_bytes fb) \<longrightarrow> (\<forall>y<h. \<not> on_row fb w h y a) \<longrightarrow>
       m' a = (if backbuffer st = 0 then 0 else m a)"
    "\<forall>a. \<not> screen_cell st fb (total bs) a \<longrightarrow> m' a = m a"
    unfolding cell by auto
  have "rax ?r = 4" "rbx ?r = frame" "rcx ?r = ucast (of_nat w :: u32)" "rdx ?r = ucast (of_nat h :: u32)"
    by (simp_all add: draw_regs_def)
  then have call: "syscall_handler irq (sp - 160) ?st = Some (Returned st')"
    using frame_reads(1-4) [OF fr] st'(1) by (simp add: syscall_handler_def)
  have m': "mem st' = m'" by (simp add: st'(2))
  have "frame_at st' (sp - 160) ?r = frame_at ?st (sp - 160) ?r"
    using st'(8) apart m' by (intro frame_at_cong) simp
  moreover have "st' = st\<lparr>backbuffer_size := n, backbuffer := p, mem := m'\<rparr>" by (simp add: st'(2))
  moreover have "mem st' a = mem st a" if "\<not> call_cell st fb (total bs) sp a" for a
    using that st'(8) m m' by (simp add: call_cell_def)
  moreover have "mem st' a = (if backbuffer st = 0 then 0 else mem st a)"
    if "within a (address fb) (screen_bytes fb)" "\<forall>y<h. \<not> on_row fb w h y a" for a
  proof -
    have "\<not> within a (sp - 160) 160" using apart [of a] that(1) by (auto simp: screen_cell_def)
    then show ?thesis using st'(7) that m m' by auto
  qed
  ultimately show "\<exists>st'. syscall_handler irq (sp - 160) ?st = Some (Returned st') \<and>
      frame_at st' (sp - 160) ?r \<and> (\<exists>bs'. display st' fb bs' \<and> total bs' = total bs) \<and>
      (\<exists>m p n. st' = st\<lparr>backbuffer_size := n, backbuffer := p, mem := m\<rparr> \<and> p \<noteq> 0) \<and>
      (\<forall>y<h. \<forall>x<w. screen_pixel st' fb w h x y = colour (frame_bit img (y * w + x))) \<and>
      (\<forall>a. within a (address fb) (screen_bytes fb) \<longrightarrow> (\<forall>y<h. \<not> on_row fb w h y a) \<longrightarrow>
         mem st' a = (if backbuffer st = 0 then 0 else mem st a)) \<and>
      (\<forall>a. \<not> call_cell st fb (total bs) sp a \<longrightarrow> mem st' a = mem st a)"
    using call fr st'(3-6) by blast
qed

section \<open>The buffer of the program\<close>

text \<open>
  \<open>user_buffer st A p n q\<close>: the \<open>n\<close> bytes at the address \<open>p\<close> of the program are mapped to the
  distinct cells \<open>q 0\<close>, \<open>q 1\<close>, ... outside \<open>A\<close>, and neither writing to these nor to the cells of
  \<open>A\<close> can change that.
\<close>

definition user_buffer :: "'a machine_scheme \<Rightarrow> (u64 \<Rightarrow> bool) \<Rightarrow> u64 \<Rightarrow> nat \<Rightarrow> (nat \<Rightarrow> u64) \<Rightarrow> bool" where
  "user_buffer st A p n q \<longleftrightarrow> inj_on q {..<n} \<and> (\<forall>i<n. \<not> A (q i)) \<and>
     (\<forall>m. (\<forall>x. \<not> A x \<longrightarrow> (\<forall>i<n. x \<noteq> q i) \<longrightarrow> m x = mem st x) \<longrightarrow>
        (\<forall>i<n. resolve (st\<lparr>mem := m\<rparr>) (p + of_nat i) = Some (q i)))"

lemma user_buffer_cong:
  fixes st :: "'a machine_scheme" and st' :: "'b machine_scheme"
  assumes u: "user_buffer st A p n q" and "cr3 st' = cr3 st" and "hhdm_offset st' = hhdm_offset st"
    and mem: "\<And>x. \<not> A x \<Longrightarrow> \<forall>i<n. x \<noteq> q i \<Longrightarrow> mem st' x = mem st x"
  shows "user_buffer st' A p n q"
proof -
  have "resolve (st'\<lparr>mem := m\<rparr>) a = resolve (st\<lparr>mem := m\<rparr>) a" for m a
    using assms(2,3) by (simp add: resolve_def walk_def)
  then show ?thesis using u mem by (simp only: user_buffer_def) simp
qed

lemma user_buffer_resolve:
  "user_buffer st A p n q \<Longrightarrow> i < n \<Longrightarrow> resolve st (p + of_nat i) = Some (q i)"
  unfolding user_buffer_def by (elim conjE allE [of _ "mem st"]) simp

text \<open>The program stores the bytes of a frame.\<close>

fun fill_buffer :: "u64 \<Rightarrow> u8 list \<Rightarrow> 'a machine_scheme \<Rightarrow> 'a machine_scheme option" where
  "fill_buffer p [] st = Some st"
| "fill_buffer p (b # bs) st =
     do {
       st \<leftarrow> st8 st p b;
       fill_buffer (p + 1) bs st
     }"

lemma fill_buffer_ok:
  fixes st :: "'a machine_scheme"
  shows "user_buffer st A p n q \<Longrightarrow> k + List.length xs \<le> n \<Longrightarrow>
    \<exists>m. fill_buffer (p + of_nat k) xs st = Some (st\<lparr>mem := m\<rparr>) \<and>
      (\<forall>i<List.length xs. m (q (k + i)) = xs ! i) \<and>
      (\<forall>x. (\<forall>i<List.length xs. x \<noteq> q (k + i)) \<longrightarrow> m x = mem st x)"
proof (induction xs arbitrary: k st)
  case Nil
  then show ?case by (intro exI [of _ "mem st"]) simp
next
  case (Cons b xs)
  have k: "k < n" using Cons.prems(2) by simp
  let ?st = "st\<lparr>mem := (mem st)(q k := b)\<rparr>"
  have st8: "st8 st (p + of_nat k) b = Some ?st"
    using user_buffer_resolve [OF Cons.prems(1) k] by (simp add: st8_def)
  have u: "user_buffer ?st A p n q"
    by (rule user_buffer_cong [OF Cons.prems(1)]) (use k in auto)
  obtain m where m: "fill_buffer (p + of_nat (Suc k)) xs ?st = Some (?st\<lparr>mem := m\<rparr>)"
      "\<forall>i<List.length xs. m (q (Suc k + i)) = xs ! i"
      "\<forall>x. (\<forall>i<List.length xs. x \<noteq> q (Suc k + i)) \<longrightarrow> m x = mem ?st x"
    using Cons.IH [OF u, of "Suc k"] Cons.prems(2) by auto
  have inj: "q k \<noteq> q (Suc k + i)" if "i < List.length xs" for i
    using Cons.prems that inj_onD [of q "{..<n}" k "Suc k + i"] by (auto simp: user_buffer_def)
  have "m (q (k + i)) = (b # xs) ! i" if "i < List.length (b # xs)" for i
  proof (cases i)
    case 0
    then show ?thesis using m(3) inj by simp
  next
    case (Suc j)
    then show ?thesis using m(2) that by simp
  qed
  moreover have "m x = mem st x" if x: "\<forall>i<List.length (b # xs). x \<noteq> q (k + i)" for x
  proof -
    have "x \<noteq> q k" using x [rule_format, of 0] by simp
    moreover have "x \<noteq> q (Suc k + i)" if "i < List.length xs" for i
      using x [rule_format, of "Suc i"] that by simp
    ultimately show ?thesis using m(3) by simp
  qed
  moreover have "fill_buffer (p + of_nat k) (b # xs) st = Some (st\<lparr>mem := m\<rparr>)"
    using st8 m(1) by (simp add: add.assoc add.commute [of 1])
  ultimately show ?case by blast
qed

lemma user_buffer_readable:
  assumes u: "user_buffer st A p n q" and img: "\<And>i. i < k \<Longrightarrow> mem st (q i) = img i" and "k \<le> n"
  shows "readable st A p k img"
  unfolding readable_def
proof (intro allI impI)
  fix m i assume m: "\<forall>x. \<not> A x \<longrightarrow> m x = mem st x" and i: "i < k"
  have "resolve (st\<lparr>mem := m\<rparr>) (p + of_nat i) = Some (q i)"
    using u m i assms(3) by (simp add: user_buffer_def)
  moreover have "\<not> A (q i)" using u i assms(3) by (simp add: user_buffer_def)
  ultimately show "ld8 (st\<lparr>mem := m\<rparr>) (p + of_nat i) = Some (img i)"
    using m img [OF i] by (simp add: ld8_def)
qed

section \<open>A sequence of frames\<close>

text \<open>For each frame: its bytes are put into the buffer at \<open>p\<close>, and the call is made.\<close>

fun show_draws ::
  "('a syscalls_scheme \<Rightarrow> 'a syscalls_scheme option) \<Rightarrow> registers \<Rightarrow> u64 \<Rightarrow> u64 \<Rightarrow>
     (u8 list \<times> u32 \<times> u32) list \<Rightarrow> 'a syscalls_scheme \<Rightarrow> 'a syscalls_scheme option" where
  "show_draws irq r sp p [] st = Some st"
| "show_draws irq r sp p ((fb, w, h) # ds) st =
     do {
       st \<leftarrow> fill_buffer p fb st;
       (_, st) \<leftarrow> user_draw_frame irq r sp p w h st;
       show_draws irq r sp p ds st
     }"

lemma show_draws_append:
  "show_draws irq r sp p (ds @ es) st = Option.bind (show_draws irq r sp p ds st) (show_draws irq r sp p es)"
proof (induction ds arbitrary: st)
  case (Cons d ds)
  obtain fb w h where d: "d = (fb, w, h)" by (cases d)
  show ?case
  proof (cases "fill_buffer p fb st")
    case (Some st1)
    then show ?thesis
      using Cons.IH by (cases "user_draw_frame irq r sp p w h st1") (auto simp: d)
  qed (simp add: d)
qed simp

text \<open>
  What holds before and after each call: the invariant of drawing, and the kernel stack and the
  buffer of the program are apart from what drawing changes.
\<close>

definition session_ok ::
  "'a syscalls_scheme \<Rightarrow> limine_framebuffer \<Rightarrow> nat \<Rightarrow> u64 \<Rightarrow> u64 \<Rightarrow> (nat \<Rightarrow> u64) \<Rightarrow> bool" where
  "session_ok st fb n sp p q \<longleftrightarrow> (\<exists>bs. display st fb bs \<and> total bs = n) \<and> stack_ok st fb n sp \<and>
     user_buffer st (call_cell st fb n sp) p MAX_FRAME_BYTES q"

text \<open>Calls change the cells of drawing, of the saved frame and of the buffer, and nothing else.\<close>

definition session_step ::
  "'a syscalls_scheme \<Rightarrow> limine_framebuffer \<Rightarrow> nat \<Rightarrow> u64 \<Rightarrow> (nat \<Rightarrow> u64) \<Rightarrow> 'a syscalls_scheme \<Rightarrow> bool" where
  "session_step st fb n sp q st' \<longleftrightarrow> cr3 st' = cr3 st \<and> hhdm_offset st' = hhdm_offset st \<and>
     free_list st' = free_list st \<and>
     (\<forall>x. \<not> call_cell st fb n sp x \<longrightarrow> (\<forall>i<MAX_FRAME_BYTES. x \<noteq> q i) \<longrightarrow> mem st' x = mem st x)"

lemma session_step_trans:
  assumes "session_step s fb n sp q t" and "session_step t fb n sp q u"
  shows "session_step s fb n sp q u"
proof -
  have "call_cell t fb n sp = call_cell s fb n sp"
    using assms(1) by (intro ext) (simp add: session_step_def call_cell_def screen_cell_def)
  then show ?thesis using assms by (simp add: session_step_def)
qed

lemma show_draw_step:
  fixes st :: "'a syscalls_scheme"
  assumes ok: "session_ok st fb n sp p q" and sz: "size_ok fb w h" "w * h \<le> 8 * MAX_FRAME_BYTES"
    and d: "shows_frame (of_nat w) (of_nat h) d px" and len: "List.length px = w * h"
  shows "\<exists>st'. show_draws irq r sp p [d] st = Some st' \<and> session_ok st' fb n sp p q \<and>
    session_step st fb n sp q st' \<and>
    (\<forall>y<h. \<forall>x<w. screen_pixel st' fb w h x y = colour (px ! (y * w + x)))"
proof -
  obtain bs where disp: "display st fb bs" and n: "total bs = n" using ok by (auto simp: session_ok_def)
  have sp: "stack_ok st fb n sp" and u: "user_buffer st (call_cell st fb n sp) p MAX_FRAME_BYTES q"
    using ok by (simp_all add: session_ok_def)
  obtain img where img: "d = (img, of_nat w, of_nat h)" "List.length img = MAX_FRAME_BYTES"
      "\<forall>j<w * h. fbit img j = px ! j"
    using d len by (cases d) (auto simp: shows_frame_def)
  obtain m where m: "fill_buffer p img st = Some (st\<lparr>mem := m\<rparr>)"
      "\<forall>i<MAX_FRAME_BYTES. m (q i) = img ! i"
      "\<forall>x. (\<forall>i<MAX_FRAME_BYTES. x \<noteq> q i) \<longrightarrow> m x = mem st x"
    using fill_buffer_ok [OF u, of 0 img] img(2) by auto
  let ?st = "st\<lparr>mem := m\<rparr>"
  have cell: "call_cell ?st = call_cell st" "screen_cell ?st = screen_cell st"
    by (intro ext, simp add: call_cell_def screen_cell_def)+
  have outside: "m x = mem st x" if "call_cell st fb n sp x" for x
  proof -
    have "\<forall>i<MAX_FRAME_BYTES. x \<noteq> q i" using u that by (auto simp: user_buffer_def)
    then show ?thesis using m(3) by blast
  qed
  have disp1: "display ?st fb bs"
    by (rule display_mem_cong [OF disp]) (simp add: outside call_cell_def n)
  have u1: "user_buffer ?st (call_cell st fb n sp) p MAX_FRAME_BYTES q"
    by (rule user_buffer_cong [OF u]) (use m(3) in auto)
  have small: "h * (w div 8) \<le> MAX_FRAME_BYTES"
  proof -
    obtain b where b: "w = 8 * b" using sz(1) by (auto simp: size_ok_def)
    then show ?thesis using sz(2) by (simp add: mult.commute)
  qed
  have "readable ?st (call_cell ?st fb (total bs) sp) p (h * (w div 8)) (\<lambda>i. img ! i)"
    unfolding cell n by (rule user_buffer_readable [OF u1 _ small]) (use m(2) small in auto)
  moreover have "stack_ok ?st fb (total bs) sp" using sp n by (simp add: stack_ok_def)
  ultimately obtain st' m' p' n' where st':
    "user_draw_frame irq r sp p (of_nat w) (of_nat h) ?st =
      Some (Some (draw_regs r p (of_nat w) (of_nat h)), st')"
    "\<exists>bs'. display st' fb bs' \<and> total bs' = n" "st' = ?st\<lparr>backbuffer_size := n', backbuffer := p', mem := m'\<rparr>"
    "\<forall>y<h. \<forall>x<w. screen_pixel st' fb w h x y = colour (fbit img (y * w + x))"
    "\<forall>a. \<not> call_cell st fb n sp a \<longrightarrow> mem st' a = mem ?st a"
    using user_draw_ok [OF disp1 sz(1), of sp p _ irq r] unfolding cell n by blast
  have cell': "call_cell st' fb n sp = call_cell st fb n sp"
    by (intro ext) (simp add: call_cell_def screen_cell_def st'(3))
  have "user_buffer st' (call_cell st' fb n sp) p MAX_FRAME_BYTES q"
    unfolding cell' by (rule user_buffer_cong [OF u1]) (use st'(5) in \<open>simp_all add: st'(3)\<close>)
  moreover have "stack_ok st' fb n sp" using sp by (simp add: stack_ok_def st'(3))
  ultimately have "session_ok st' fb n sp p q" using st'(2) by (simp add: session_ok_def)
  moreover have "session_step st fb n sp q st'"
    using st'(5) m(3) by (simp add: session_step_def) (simp add: st'(3))
  moreover have "screen_pixel st' fb w h x y = colour (px ! (y * w + x))" if "y < h" "x < w" for x y
  proof -
    have "y * w + x < Suc y * w" using that(2) by simp
    also have "\<dots> \<le> h * w" using that(1) by (intro mult_le_mono1) simp
    finally show ?thesis using st'(4) img(3) that by (simp add: mult.commute)
  qed
  moreover have "show_draws irq r sp p [d] st = Some st'" using m(1) st'(1) by (simp add: img(1))
  ultimately show ?thesis by blast
qed

lemma show_draws_ok:
  fixes st :: "'a syscalls_scheme"
  assumes sz: "size_ok fb w h" "w * h \<le> 8 * MAX_FRAME_BYTES"
  shows "list_all2 (shows_frame (of_nat w) (of_nat h)) ds frames \<Longrightarrow>
    \<forall>px\<in>set frames. List.length px = w * h \<Longrightarrow> session_ok st fb n sp p q \<Longrightarrow> k < List.length frames \<Longrightarrow>
    \<exists>st'. show_draws irq r sp p (take (Suc k) ds) st = Some st' \<and> session_ok st' fb n sp p q \<and>
      session_step st fb n sp q st' \<and>
      (\<forall>y<h. \<forall>x<w. screen_pixel st' fb w h x y = colour (frames ! k ! (y * w + x)))"
proof (induction ds frames arbitrary: st k rule: list_all2_induct)
  case (Cons d ds px frames)
  obtain st1 where 1: "show_draws irq r sp p [d] st = Some st1" "session_ok st1 fb n sp p q"
      "\<forall>y<h. \<forall>x<w. screen_pixel st1 fb w h x y = colour (px ! (y * w + x))"
      "session_step st fb n sp q st1"
    using show_draw_step [OF Cons.prems(2) sz Cons.hyps(1), of irq r] Cons.prems(1) by auto
  show ?case
  proof (cases k)
    case 0
    then show ?thesis using 1 by auto
  next
    case (Suc j)
    have "show_draws irq r sp p (take (Suc k) (d # ds)) st = show_draws irq r sp p (take (Suc j) ds) st1"
      using 1(1) show_draws_append [of irq r sp p "[d]" "take (Suc j) ds" st] Suc by simp
    moreover obtain st' where "show_draws irq r sp p (take (Suc j) ds) st1 = Some st'"
        "session_ok st' fb n sp p q" "session_step st1 fb n sp q st'"
        "\<forall>y<h. \<forall>x<w. screen_pixel st' fb w h x y = colour (frames ! j ! (y * w + x))"
      using Cons.IH [of st1 j] Cons.prems(1,3) 1(2) Suc by auto
    ultimately show ?thesis using session_step_trans [OF 1(4)] Suc by auto
  qed
qed simp

text \<open>The frames of a video, drawn in any number of passes.\<close>

lemma session_shows:
  fixes st :: "'a syscalls_scheme" and frames :: "(u8 \<times> u8 \<times> u8) list list"
  assumes ok: "session_ok st fb n sp p q" and sz: "size_ok fb w h" "w * h \<le> 8 * MAX_FRAME_BYTES"
    and len: "\<forall>px\<in>set frames. List.length px = w * h"
    and ds: "list_all2 (shows_frame (of_nat w) (of_nat h)) ds
      (concat (replicate passes (map (map is_bright) frames)))"
    and k: "k < passes * List.length frames"
  shows "\<exists>st'. show_draws irq r sp p (take (Suc k) ds) st = Some st' \<and> session_ok st' fb n sp p q \<and>
    session_step st fb n sp q st' \<and>
    (\<forall>y<h. \<forall>x<w. screen_pixel st' fb w h x y =
       colour (is_bright (concat (replicate passes frames) ! k ! (y * w + x))))"
proof -
  let ?all = "concat (replicate passes frames)"
  have eq: "concat (replicate passes (map (map is_bright) frames)) = map (map is_bright) ?all"
    by (simp add: map_concat)
  have n: "List.length ?all = passes * List.length frames" by (simp add: length_concat sum_list_replicate)
  have all: "\<forall>px\<in>set ?all. List.length px = w * h" using len by auto
  obtain st' where st': "show_draws irq r sp p (take (Suc k) ds) st = Some st'"
      "session_ok st' fb n sp p q" "session_step st fb n sp q st'"
      "\<forall>y<h. \<forall>x<w. screen_pixel st' fb w h x y = colour (map (map is_bright) ?all ! k ! (y * w + x))"
    using show_draws_ok [OF sz ds [unfolded eq] _ ok, of k irq r] all k n by auto
  have "screen_pixel st' fb w h x y = colour (is_bright (?all ! k ! (y * w + x)))"
    if "y < h" "x < w" for x y
  proof -
    have "y * w + x < Suc y * w" using that(2) by simp
    also have "\<dots> \<le> h * w" using that(1) by (intro mult_le_mono1) simp
    also have "?all ! k \<in> set ?all" using k n by (intro nth_mem) simp
    then have "h * w = List.length (?all ! k)" using all by simp
    finally have "y * w + x < List.length (?all ! k)" .
    then show ?thesis using st'(4) that k n by simp
  qed
  then show ?thesis using st'(1-3) by blast
qed

section \<open>Properties\<close>

text \<open>
  C11. System call 4 as the program makes it, from the first one on, for every frame whose width is
  a multiple of 8 and that is no larger than the screen (\<open>size_ok\<close>; the code draws other widths
  skewed and does not clip larger frames): the call comes back with the registers it was made
  with, the centred rectangle shows the frame pixel by pixel, the first call clears the rest of
  the screen and later ones leave it alone, nothing but heap, video memory and kernel stack
  changes, and the invariant of the drawing state holds again. The frame must be readable and
  apart from what the call writes, and the kernel stack apart from heap and screen.
\<close>

theorem user_draw_keeps_display:
  assumes "display st fb bs" and "size_ok fb w h" and "stack_ok st fb (total bs) sp"
    and "readable st (call_cell st fb (total bs) sp) frame (h * (w div 8)) img"
  shows "\<exists>st'. user_draw_frame irq r sp frame (of_nat w) (of_nat h) st =
      Some (Some (draw_regs r frame (of_nat w) (of_nat h)), st') \<and>
    (\<exists>bs'. display st' fb bs' \<and> total bs' = total bs) \<and> backbuffer st' \<noteq> 0 \<and>
    (\<forall>y<h. \<forall>x<w. screen_pixel st' fb w h x y =
       (if frame_bit img (y * w + x) then 0xFFFFFFFF else 0xFF000000)) \<and>
    (\<forall>a. within a (address fb) (screen_bytes fb) \<longrightarrow> (\<forall>y<h. \<not> on_row fb w h y a) \<longrightarrow>
       mem st' a = (if backbuffer st = 0 then 0 else mem st a)) \<and>
    (\<forall>a. \<not> call_cell st fb (total bs) sp a \<longrightarrow> mem st' a = mem st a)"
  using user_draw_ok [OF assms, of irq r] unfolding colour_def by fastforce

text \<open>
  The screen of the example of theory \<open>Syscall\<close>, with a heap that has no back buffer in it yet; the
  frame is in memory that the direct map makes readable.
\<close>

definition demo_display :: syscalls where
  "demo_display = demo_syscalls\<lparr>mem := mem demo_thread, free_list := 0xFFFF910000000000, backbuffer := 0\<rparr>"

lemma demo_display_ok:
  "display demo_display demo_fb [(4096, True)]" "backbuffer demo_display = 0"
  "stack_ok demo_display demo_fb (total [(4096, True)]) 0xFFFF800000009000"
proof -
  have "heap demo_display [(4096, True)]"
    using demo_thread_heap by (simp add: demo_display_def heap_def demo_thread_simps del: heap_at.simps)
  moreover have "tx_live demo_display"
    by (auto simp: demo_display_def tx_live_def demo_syscalls_simps)
  moreover have "fb_response demo_display = Some [demo_fb]" "free_list demo_display = 0xFFFF910000000000"
    by (simp_all add: demo_display_def demo_syscalls_simps)
  ultimately show "display demo_display demo_fb [(4096, True)]" "backbuffer demo_display = 0"
    "stack_ok demo_display demo_fb (total [(4096, True)]) 0xFFFF800000009000"
    by (simp_all add: display_def screen_ok_def screen_bytes_def stack_ok_def demo_fb_def kregion_def
      khalf_def) (simp_all add: demo_display_def)
qed

lemma readable_kernel:
  assumes "kregion p n" and "\<And>i. i < n \<Longrightarrow> \<not> A (p + of_nat i)"
  shows "readable st A p n (\<lambda>i. mem st (p + of_nat i))"
  unfolding readable_def
proof (intro allI impI)
  fix m i assume m: "\<forall>x. \<not> A x \<longrightarrow> m x = mem st x" and i: "i < n"
  have "within (p + of_nat i) p n" using i assms(1) by (auto simp: kregion_def)
  then have "khalf (p + of_nat i)" by (rule kregion_within [OF assms(1)])
  then show "ld8 (st\<lparr>mem := m\<rparr>) (p + of_nat i) = Some (mem st (p + of_nat i))"
    using m assms(2) [OF i] by (simp add: ld8_kernel)
qed

theorem user_draw_keeps_display_witness:
  "\<exists>st'. user_draw_frame Some demo_regs 0xFFFF800000009000 0xFFFF800000001000 8 2 demo_display =
      Some (Some (draw_regs demo_regs 0xFFFF800000001000 8 2), st') \<and> backbuffer st' \<noteq> 0 \<and>
    mem st' 0xFFFF800010000000 = 0"
proof -
  have size: "size_ok demo_fb 8 2" by (simp add: size_ok_def demo_fb_def)
  have free: "free_list demo_display = 0xFFFF910000000000" by (simp add: demo_display_def)
  have "\<not> call_cell demo_display demo_fb (total [(4096, True)]) 0xFFFF800000009000 (0xFFFF800000001000 + of_nat i)"
    if "i < 2 * (8 div 8)" for i
    using that by (cases i) (auto simp: call_cell_def screen_cell_def free within_def demo_fb_def screen_bytes_def)
  then have "readable demo_display (call_cell demo_display demo_fb (total [(4096, True)]) 0xFFFF800000009000)
      0xFFFF800000001000 (2 * (8 div 8)) (\<lambda>i. mem demo_display (0xFFFF800000001000 + of_nat i))"
    by (intro readable_kernel) (simp_all add: kregion_def khalf_def)
  from user_draw_keeps_display [OF demo_display_ok(1) size demo_display_ok(3) this, of Some demo_regs]
  obtain st' where st': "user_draw_frame Some demo_regs 0xFFFF800000009000 0xFFFF800000001000 8 2 demo_display =
        Some (Some (draw_regs demo_regs 0xFFFF800000001000 8 2), st')" "backbuffer st' \<noteq> 0"
      "\<forall>a. within a (address demo_fb) (screen_bytes demo_fb) \<longrightarrow> (\<forall>y<2. \<not> on_row demo_fb 8 2 y a) \<longrightarrow> mem st' a = 0"
    using demo_display_ok(2) by auto
  have "\<not> on_row demo_fb 8 2 y 0xFFFF800010000000" if "y < 2" for y
    using that by (cases y) (auto simp: on_row_def pixel_at_def row_at_def demo_fb_def within_def)
  moreover have "within 0xFFFF800010000000 (address demo_fb) (screen_bytes demo_fb)"
    by (simp add: demo_fb_def screen_bytes_def)
  ultimately have "mem st' 0xFFFF800010000000 = 0" using st'(3) by blast
  then show ?thesis using st'(1,2) by blast
qed

end
