(* ===== verification/KexFormat.thy ===== *)
theory KexFormat
  imports Fs
begin

text \<open>
  The KEX file format (kernel/include/kernel/kex.h, and the same structures in kex-ld/kex.h): the
  packed structures as records, each with its encoding as bytes in the order of the
  declaration, and the lemmas that give what a load of a field at its offset reads from a
  structure in memory. The loader is in \<open>Kex\<close>, the linker that writes such files in \<open>KexLd\<close>.
\<close>

unbundle bit_operations_syntax

section \<open>kex.h\<close>

abbreviation KEX_MAGIC :: "u8 list" where
  "KEX_MAGIC \<equiv> [0x4B, 0x45, 0x58, 0]"

abbreviation KEX_CMD_SEGMENT :: u32 where "KEX_CMD_SEGMENT \<equiv> 1"
abbreviation KEX_CMD_INTEGRITY :: u32 where "KEX_CMD_INTEGRITY \<equiv> 6"
abbreviation KEX_ARCH_X86_64 :: u16 where "KEX_ARCH_X86_64 \<equiv> 1"

record kex_header =
  kmagic :: "u8 list"
  version_major :: u8
  version_minor :: u8
  arch :: u16
  command_count :: u32
  required_page_size :: u32
  entry_rva :: u64
  cmd_offset :: u64
  cmd_size :: u64
  hdr_reserved :: "u8 list"

record kex_cmd =
  cmd_type :: u32
  cmd_bytes :: u32

record kex_segment_cmd =
  head :: kex_cmd
  segment_index :: u32
  seg_flags :: u32
  rva :: u64
  mem_size :: u64
  file_offset :: u64
  file_size :: u64
  alignment :: u64
  seg_reserved :: "u8 list"

record kex_integrity_cmd =
  ihead :: kex_cmd
  hash :: "u8 list"

section \<open>The packed bytes\<close>

definition le :: "nat \<Rightarrow> 'w::len word \<Rightarrow> u8 list" where
  "le n w = map (\<lambda>i. ucast (drop_bit (8 * i) w)) [0..<n]"

definition kex_header_bytes :: "kex_header \<Rightarrow> u8 list" where
  "kex_header_bytes h = kmagic h @ [version_major h, version_minor h] @ le 2 (arch h) @
     le 4 (command_count h) @ le 4 (required_page_size h) @ le 8 (entry_rva h) @
     le 8 (cmd_offset h) @ le 8 (cmd_size h) @ hdr_reserved h"

definition kex_cmd_bytes :: "kex_cmd \<Rightarrow> u8 list" where
  "kex_cmd_bytes c = le 4 (cmd_type c) @ le 4 (cmd_bytes c)"

definition kex_segment_cmd_bytes :: "kex_segment_cmd \<Rightarrow> u8 list" where
  "kex_segment_cmd_bytes s = kex_cmd_bytes (head s) @ le 4 (segment_index s) @
     le 4 (seg_flags s) @ le 8 (rva s) @ le 8 (mem_size s) @ le 8 (file_offset s) @
     le 8 (file_size s) @ le 8 (alignment s) @ seg_reserved s"

definition kex_integrity_cmd_bytes :: "kex_integrity_cmd \<Rightarrow> u8 list" where
  "kex_integrity_cmd_bytes c = kex_cmd_bytes (ihead c) @ hash c"

lemma length_le [simp]: "List.length (le n w) = n"
  by (simp add: le_def)

lemma ldw_le:
  fixes w :: "'w::len word"
  assumes "bytes m p n = le n w" and "n \<le> 8" and "LENGTH('w) = 8 * n"
  shows "ldw n m p = w"
proof (rule bit_word_eqI)
  fix k assume k: "k < LENGTH('w)"
  then have i: "k div 8 < n" using assms(3) by simp
  then have "m (p + of_nat (k div 8)) = ucast (drop_bit (8 * (k div 8)) w)"
    using assms(1) by (simp add: list_eq_iff_nth_eq nth_bytes le_def)
  then show "bit (ldw n m p :: 'w word) k = bit w k"
    using k assms(3) by (simp add: bit_ldw bit_simps)
qed

lemma le_ldw:
  assumes "LENGTH('w::len) = 8 * n"
  shows "le n (ldw n m p :: 'w word) = bytes m p n"
  using assms byte_ldw [of _ n m p, where 'w = 'w] by (auto simp: list_eq_iff_nth_eq nth_bytes le_def)

section \<open>What the loads of the fields read\<close>

lemma field_at:
  fixes w :: "'w::len word"
  assumes "bytes m p n = xs @ le k w @ zs" and "List.length xs = i"
    and "k \<le> 8" and "LENGTH('w) = 8 * k"
  shows "ldw k m (p + of_nat i) = w"
  using ldw_le [OF bytes_field [OF assms(1,2)]] assms(3,4) by simp

lemma header_fields:
  assumes "bytes m p 56 = kex_header_bytes h"
    and "List.length (kmagic h) = 4" and "List.length (hdr_reserved h) = 16"
  shows "bytes m p 4 = kmagic h" "ldw 4 m (p + 8) = command_count h"
    "ldw 8 m (p + 16) = entry_rva h" "ldw 8 m (p + 24) = cmd_offset h"
proof -
  note b = assms(1) [unfolded kex_header_bytes_def]
  show "bytes m p 4 = kmagic h"
    using bytes_field [of m p 56 "[]" "kmagic h" _ 0 4] b assms(2) by simp
  show "ldw 4 m (p + 8) = command_count h"
    using field_at [of m p 56 "kmagic h @ [version_major h, version_minor h] @ le 2 (arch h)"
      4 "command_count h" _ 8] b assms(2) by simp
  show "ldw 8 m (p + 16) = entry_rva h"
    using field_at [of m p 56 "kmagic h @ [version_major h, version_minor h] @ le 2 (arch h) @
      le 4 (command_count h) @ le 4 (required_page_size h)" 8 "entry_rva h" _ 16] b assms(2)
    by simp
  show "ldw 8 m (p + 24) = cmd_offset h"
    using field_at [of m p 56 "kmagic h @ [version_major h, version_minor h] @ le 2 (arch h) @
      le 4 (command_count h) @ le 4 (required_page_size h) @ le 8 (entry_rva h)"
      8 "cmd_offset h" _ 24] b assms(2)
    by simp
qed

lemma cmd_fields:
  assumes "bytes m p (8 + n) = kex_cmd_bytes c @ xs"
  shows "ldw 4 m p = cmd_type c" "ldw 4 m (p + 4) = cmd_bytes c"
  using field_at [of m p "8 + n" "[]" 4 "cmd_type c" _ 0]
    field_at [of m p "8 + n" "le 4 (cmd_type c)" 4 "cmd_bytes c" _ 4] assms
  by (simp_all add: kex_cmd_bytes_def)

lemma segment_fields:
  assumes "bytes m p 64 = kex_segment_cmd_bytes s" and "List.length (seg_reserved s) = 8"
  shows "ldw 4 m p = cmd_type (head s)" "ldw 4 m (p + 4) = cmd_bytes (head s)"
    "ldw 8 m (p + 16) = rva s" "ldw 8 m (p + 24) = mem_size s"
    "ldw 8 m (p + 32) = file_offset s" "ldw 8 m (p + 40) = file_size s"
proof -
  let ?a = "kex_cmd_bytes (head s) @ le 4 (segment_index s) @ le 4 (seg_flags s)"
  note b = assms(1) [unfolded kex_segment_cmd_bytes_def]
  have len: "List.length (kex_cmd_bytes c) = 8" for c by (simp add: kex_cmd_bytes_def)
  show "ldw 4 m p = cmd_type (head s)" "ldw 4 m (p + 4) = cmd_bytes (head s)"
    using cmd_fields [of m p 56 "head s"] b by simp_all
  show "ldw 8 m (p + 16) = rva s"
    using field_at [of m p 64 ?a 8 "rva s" _ 16] b by (simp add: len)
  show "ldw 8 m (p + 24) = mem_size s"
    using field_at [of m p 64 "?a @ le 8 (rva s)" 8 "mem_size s" _ 24] b by (simp add: len)
  show "ldw 8 m (p + 32) = file_offset s"
    using field_at [of m p 64 "?a @ le 8 (rva s) @ le 8 (mem_size s)" 8 "file_offset s" _ 32] b
    by (simp add: len)
  show "ldw 8 m (p + 40) = file_size s"
    using field_at [of m p 64 "?a @ le 8 (rva s) @ le 8 (mem_size s) @ le 8 (file_offset s)"
      8 "file_size s" _ 40] b
    by (simp add: len)
qed

lemma words_at:
  fixes ws :: "u64 list"
  shows "bytes m p (8 * length ws) = concat (map (le 8) ws) \<Longrightarrow> i < length ws \<Longrightarrow>
    ldw 8 m (p + of_nat (8 * i)) = ws ! i"
proof (induction ws arbitrary: p i)
  case (Cons w ws)
  have "bytes m p (8 + 8 * length ws) = bytes m p 8 @ bytes m (p + of_nat 8) (8 * length ws)"
    by (rule bytes_append)
  then have all: "bytes m p 8 = le 8 w" "bytes m (p + of_nat 8) (8 * length ws) = concat (map (le 8) ws)"
    using Cons.prems(1) by simp_all
  show ?case
  proof (cases i)
    case 0
    then show ?thesis using ldw_le [OF all(1)] by simp
  next
    case (Suc j)
    then show ?thesis using Cons.IH [OF all(2), of j] Cons.prems(2) by (simp add: algebra_simps)
  qed
qed simp

end
