(* ===== verification/Kex.thy ===== *)
theory Kex
  imports KexFormat
begin

text \<open>
  The loader of KEX programs (kernel/kernel/kex.c) and the switch to ring 3 at its end
  (arch/x86_64/process.S). The loader maps fresh frames below the addresses of each segment and
  then fills them through those addresses, so its \<open>memset\<close> and \<open>memcpy\<close> go through the
  page tables it has just written. The lemmas show that the tables stay as they are while the
  frames are filled, and that each segment's bytes are found at its addresses at the end.
\<close>

unbundle bit_operations_syntax

section \<open>process.S\<close>

text \<open>
  What \<open>iretq\<close> takes from the stack, and the data selector loaded before it. The frame is
  pushed on the boot stack, which is not part of the model's memory; \<open>fl\<close> is RFLAGS at the
  call, and \<open>cli\<close> clears its bit 9.
\<close>

record user_entry =
  u_ds :: u16
  u_ss :: u64
  u_rsp :: u64
  u_rflags :: u64
  u_cs :: u64
  u_rip :: u64

definition switch_to_user_mode :: "u64 \<Rightarrow> u64 \<Rightarrow> user_entry" where
  "switch_to_user_mode entry_point fl =
     (let fl = fl AND NOT 0x200;
          rbx = entry_point
      in \<lparr>u_ds = 0x23, u_ss = 0x23, u_rsp = 0x800000, u_rflags = fl OR 0x200, u_cs = 0x1B,
          u_rip = rbx\<rparr>)"

section \<open>kex.c\<close>

text \<open>The pages of a segment; the loop reads the size and the address in every round.\<close>

partial_function (option) kex_map_loop ::
  "u64 \<Rightarrow> u64 \<Rightarrow> 'a pmm_scheme \<Rightarrow> 'a pmm_scheme option" where
  "kex_map_loop seg offset st =
     do {
       n \<leftarrow> ld64 st (seg + 24);
       if offset < n then
         do {
           (phys, st) \<leftarrow> pmm_alloc_block st;
           va \<leftarrow> ld64 st (seg + 16);
           st \<leftarrow> vmm_map_page phys (va + offset) 0x7 st;
           kex_map_loop seg (offset + 4096) st
         }
       else Some st
     }"

definition kex_load_segment :: "u64 \<Rightarrow> u64 \<Rightarrow> 'a pmm_scheme \<Rightarrow> 'a pmm_scheme option" where
  "kex_load_segment file_data seg st =
     do {
       st \<leftarrow> kex_map_loop seg 0 st;
       va \<leftarrow> ld64 st (seg + 16);
       n \<leftarrow> ld64 st (seg + 24);
       (_, st) \<leftarrow> memset va 0 n st;
       k \<leftarrow> ld64 st (seg + 40);
       if 0 < k then
         do {
           va \<leftarrow> ld64 st (seg + 16);
           off \<leftarrow> ld64 st (seg + 32);
           (_, st) \<leftarrow> memcpy va (file_data + off) k st;
           Some st
         }
       else Some st
     }"

partial_function (option) kex_cmd_loop ::
  "u64 \<Rightarrow> u64 \<Rightarrow> u64 \<Rightarrow> 'a pmm_scheme \<Rightarrow> 'a pmm_scheme option" where
  "kex_cmd_loop file_data i current_offset st =
     do {
       count \<leftarrow> ld32 st (file_data + 8);
       if i < ucast count then
         do {
           let cmd = file_data + current_offset;
           ty \<leftarrow> ld32 st cmd;
           st \<leftarrow> (if ty = KEX_CMD_SEGMENT then kex_load_segment file_data cmd st else Some st);
           size \<leftarrow> ld32 st (cmd + 4);
           kex_cmd_loop file_data (i + 1) (current_offset + ucast size) st
         }
       else Some st
     }"

fun kex_magic_differs :: "u64 \<Rightarrow> u8 list \<Rightarrow> 'a machine_scheme \<Rightarrow> bool option" where
  "kex_magic_differs p [] st = Some False"
| "kex_magic_differs p (x # xs) st =
     do {
       b \<leftarrow> ld8 st p;
       if b \<noteq> x then Some True else kex_magic_differs (p + 1) xs st
     }"

datatype 'a kex_result = Rejected 'a | Entered user_entry 'a

definition load_kex_and_run :: "u64 \<Rightarrow> u64 \<Rightarrow> 'a pmm_scheme \<Rightarrow> 'a pmm_scheme kex_result option" where
  "load_kex_and_run file_data fl st =
     do {
       bad \<leftarrow> kex_magic_differs file_data KEX_MAGIC st;
       if bad then
         do {
           st \<leftarrow> kprintf (''Error: Invalid KEX magic!'' @ nl) [] st;
           Some (Rejected st)
         }
       else
         do {
           current_offset \<leftarrow> ld64 st (file_data + 24);
           st \<leftarrow> kex_cmd_loop file_data 0 current_offset st;
           (stack_phys, st) \<leftarrow> pmm_alloc_block st;
           st \<leftarrow> vmm_map_page stack_phys 0x7FF000 0x7 st;
           entry_point \<leftarrow> ld64 st (file_data + 16);
           Some (Entered (switch_to_user_mode entry_point fl) st)
         }
     }"

section \<open>Stores through the page tables\<close>

text \<open>
  \<open>backs st a n c\<close>: the \<open>n\<close> addresses from \<open>a\<close> are translated to the cells \<open>c 0\<close>, \<open>c 1\<close>, and
  so on, whatever those cells hold.
\<close>

definition backs :: "'a machine_scheme \<Rightarrow> u64 \<Rightarrow> nat \<Rightarrow> (nat \<Rightarrow> u64) \<Rightarrow> bool" where
  "backs st a n c \<longleftrightarrow> inj_on c {..<n} \<and>
     (\<forall>m. (\<forall>x. x \<notin> c ` {..<n} \<longrightarrow> m x = mem st x) \<longrightarrow>
        (\<forall>i<n. resolve (st\<lparr>mem := m\<rparr>) (a + of_nat i) = Some (c i)))"

lemma backs_store:
  assumes "backs st a n c" and "i < n" and "\<And>x. x \<notin> c ` {..<n} \<Longrightarrow> m x = mem st x"
  shows "st8 (st\<lparr>mem := m\<rparr>) (a + of_nat i) v = Some (st\<lparr>mem := m(c i := v)\<rparr>)"
    and "ld8 (st\<lparr>mem := m\<rparr>) (a + of_nat i) = Some (m (c i))"
  using assms by (simp_all add: backs_def st8_def ld8_def)

lemma backs_neq: "backs st a n c \<Longrightarrow> i < n \<Longrightarrow> j < n \<Longrightarrow> i \<noteq> j \<Longrightarrow> c i \<noteq> c j"
  by (auto simp: backs_def inj_on_def)

lemma memset_loop_backs:
  assumes "backs st a n c"
  shows "i + k = n \<Longrightarrow> (\<And>x. x \<notin> c ` {..<n} \<Longrightarrow> m x = mem st x) \<Longrightarrow>
    \<exists>m'. memset_loop k a (of_nat i) v (st\<lparr>mem := m\<rparr>) = Some (st\<lparr>mem := m'\<rparr>) \<and>
      (\<forall>j\<in>{i..<n}. m' (c j) = v) \<and> (\<forall>x. x \<notin> c ` {i..<n} \<longrightarrow> m' x = m x)"
proof (induction k arbitrary: i m)
  case (Suc k)
  let ?m = "m(c i := v)"
  have i: "i < n" and next_index: "Suc i + k = n" using Suc.prems(1) by simp_all
  have keep: "?m x = mem st x" if "x \<notin> c ` {..<n}" for x
    using that i Suc.prems(2) by auto
  obtain m' where m': "memset_loop k a (of_nat (Suc i)) v (st\<lparr>mem := ?m\<rparr>) = Some (st\<lparr>mem := m'\<rparr>)"
      "\<forall>j\<in>{Suc i..<n}. m' (c j) = v" "\<forall>x. x \<notin> c ` {Suc i..<n} \<longrightarrow> m' x = ?m x"
    using Suc.IH [OF next_index keep] by blast
  have here: "m' (c i) = v"
    using m'(3) backs_neq [OF assms i] by (auto simp: image_iff)
  have "m' (c j) = v" if "j \<in> {i..<n}" for j
    using that here m'(2) by (cases "j = i") auto
  moreover have "m' x = m x" if "x \<notin> c ` {i..<n}" for x
    using that m'(3) i by (auto simp: image_iff)
  moreover have "memset_loop (Suc k) a (of_nat i) v (st\<lparr>mem := m\<rparr>) = Some (st\<lparr>mem := m'\<rparr>)"
    using m'(1) backs_store(1) [OF assms i Suc.prems(2), of v] by (simp add: add.commute [of 1])
  ultimately show ?case by blast
qed auto

lemma memcpy_loop_backs:
  assumes "backs st a n c" and "kregion src k"
    and "\<And>j. j < k \<Longrightarrow> src + of_nat j \<notin> c ` {..<n}" and "k \<le> n"
  shows "i + d = k \<Longrightarrow> (\<And>x. x \<notin> c ` {..<n} \<Longrightarrow> m x = mem st x) \<Longrightarrow>
    \<exists>m'. memcpy_loop d a src (of_nat i) (st\<lparr>mem := m\<rparr>) = Some (st\<lparr>mem := m'\<rparr>) \<and>
      (\<forall>j\<in>{i..<k}. m' (c j) = mem st (src + of_nat j)) \<and>
      (\<forall>x. x \<notin> c ` {i..<k} \<longrightarrow> m' x = m x)"
proof (induction d arbitrary: i m)
  case (Suc d)
  let ?v = "mem st (src + of_nat i)"
  let ?m = "m(c i := ?v)"
  have i: "i < k" "i < n" and next_index: "Suc i + d = k"
    using Suc.prems(1) assms(4) by simp_all
  have keep: "?m x = mem st x" if "x \<notin> c ` {..<n}" for x
    using that i Suc.prems(2) by auto
  have "khalf (src + of_nat i)"
    using kregion_offset [OF assms(2), of i] i(1) by (simp add: kregion_def)
  then have load: "ld8 (st\<lparr>mem := m\<rparr>) (src + of_nat i) = Some ?v"
    using assms(3) [OF i(1)] Suc.prems(2) by (simp add: ld8_kernel)
  obtain m' where m': "memcpy_loop d a src (of_nat (Suc i)) (st\<lparr>mem := ?m\<rparr>) = Some (st\<lparr>mem := m'\<rparr>)"
      "\<forall>j\<in>{Suc i..<k}. m' (c j) = mem st (src + of_nat j)"
      "\<forall>x. x \<notin> c ` {Suc i..<k} \<longrightarrow> m' x = ?m x"
    using Suc.IH [OF next_index keep] by blast
  have here: "m' (c i) = ?v"
    using m'(3) backs_neq [OF assms(1) i(2)] assms(4) by (auto simp: image_iff)
  have "m' (c j) = mem st (src + of_nat j)" if "j \<in> {i..<k}" for j
    using that here m'(2) by (cases "j = i") auto
  moreover have "m' x = m x" if "x \<notin> c ` {i..<k}" for x
    using that m'(3) i by (auto simp: image_iff)
  moreover have "memcpy_loop (Suc d) a src (of_nat i) (st\<lparr>mem := m\<rparr>) = Some (st\<lparr>mem := m'\<rparr>)"
    using m'(1) load backs_store(1) [OF assms(1) i(2) Suc.prems(2), of ?v]
    by (simp add: add.commute [of 1])
  ultimately show ?case by blast
qed auto

text \<open>Zeroing the range and then copying the start of it, as the loader does.\<close>

lemma fill_backs:
  assumes b: "backs st a n c" and n: "unat nw = n" and k: "unat kw \<le> n"
    and src: "kregion src (unat kw)" "\<And>j. j < unat kw \<Longrightarrow> src + of_nat j \<notin> c ` {..<n}"
  shows "\<exists>m1 m2. memset a 0 nw st = Some (a, st\<lparr>mem := m1\<rparr>) \<and>
    memcpy a src kw (st\<lparr>mem := m1\<rparr>) = Some (a, st\<lparr>mem := m2\<rparr>) \<and>
    (\<forall>i<n. m2 (c i) = (if i < unat kw then mem st (src + of_nat i) else 0)) \<and>
    (\<forall>x. x \<notin> c ` {..<n} \<longrightarrow> m1 x = mem st x \<and> m2 x = mem st x) \<and> (kw = 0 \<longrightarrow> m2 = m1)"
proof -
  have st: "st\<lparr>mem := mem st\<rparr> = st" by simp
  obtain m1 where m1: "memset_loop n a 0 0 st = Some (st\<lparr>mem := m1\<rparr>)" "\<forall>j<n. m1 (c j) = 0"
      "\<forall>x. x \<notin> c ` {..<n} \<longrightarrow> m1 x = mem st x"
    using memset_loop_backs [OF b, of 0 n "mem st" 0] unfolding st
    by (auto simp: atLeast0LessThan)
  obtain m2 where m2: "memcpy_loop (unat kw) a src 0 (st\<lparr>mem := m1\<rparr>) = Some (st\<lparr>mem := m2\<rparr>)"
      "\<forall>j<unat kw. m2 (c j) = mem st (src + of_nat j)"
      "\<forall>x. x \<notin> c ` {..<unat kw} \<longrightarrow> m2 x = m1 x"
    using memcpy_loop_backs [OF b src k, of 0 "unat kw" m1] m1(3) by (auto simp: atLeast0LessThan)
  have out: "m2 (c i) = m1 (c i)" if "i < n" "\<not> i < unat kw" for i
    using m2(3) that backs_neq [OF b] k by (auto simp: image_iff)
  have "m2 (c i) = (if i < unat kw then mem st (src + of_nat i) else 0)" if "i < n" for i
    using that m2(2) m1(2) out [OF that] by simp
  moreover have "m2 x = mem st x" if "x \<notin> c ` {..<n}" for x
    using that m2(3) m1(3) k by (auto simp: image_iff)
  ultimately show ?thesis
    using m1(1,3) m2(1,3) n by (intro exI [of _ m1] exI [of _ m2]) (auto simp: memset_def memcpy_def)
qed

section \<open>Frames that hold a program\<close>

text \<open>The walk depends on the memory of the tables only.\<close>

lemma entry_cong:
  assumes "\<And>x. pg (hhdm_offset st) x \<in> tabs I st \<Longrightarrow> mem st' x = mem st x"
    and "cr3 st' = cr3 st" and "hhdm_offset st' = hhdm_offset st"
  shows "lpath I q \<Longrightarrow> entry st' q = entry st q"
proof (induction q)
  case (Cons j q)
  have vq: "vpath I q" "j < 512" using lpath_Cons [OF Cons.prems] by simp_all
  have tab: "table st' q = table st q"
  proof (cases "q = []")
    case False
    then show ?thesis using Cons.IH vpath_lpath [OF vq(1)] by (simp add: table_entry)
  qed (simp add: assms(2))
  show ?case
  proof (cases "table st q")
    case None
    then show ?thesis using tab by (simp add: entry_def table_def)
  next
    case (Some t)
    then have "bno t \<in> tabs I st" using vq(1) by (auto simp: tabs_def)
    then have "entry_at (mem st') (hhdm_offset st) t j = entry_at (mem st) (hhdm_offset st) t j"
      using assms(1) by (intro entry_at_cong [OF table_aligned [OF Some] vq(2)]) simp
    then show ?thesis using Some tab by (simp add: entry_Cons assms(3))
  qed
qed (simp add: entry_def)

lemma table_cong:
  assumes "\<And>x. pg (hhdm_offset st) x \<in> tabs I st \<Longrightarrow> mem st' x = mem st x"
    and "cr3 st' = cr3 st" and "hhdm_offset st' = hhdm_offset st" and "vpath I q"
  shows "table st' q = table st q"
  using entry_cong [OF assms(1-3)] assms(2) vpath_lpath [OF assms(4)]
  by (cases "q = []") (simp_all add: table_entry)

text \<open>
  \<open>held I st f\<close>: frame \<open>f\<close> can be reached through the direct map and belongs to neither memory
  manager. Everything in it is foreign memory to them, and stays so.
\<close>

definition held :: "nat set \<Rightarrow> 'a pmm_scheme \<Rightarrow> nat \<Rightarrow> bool" where
  "held I st f \<longleftrightarrow> f < 2 ^ 31 \<and> kregion (block_addr f + hhdm_offset st) 4096 \<and>
     f \<notin> free_blocks st \<union> tabs I st \<union> bitmap_pages st"

lemma frame_cell:
  assumes "kregion (block_addr f + h) 4096" and "f < 2 ^ 31" and "j < 4096"
  shows "pg h (block_addr f + of_nat j + h) = f" and "khalf (block_addr f + of_nat j + h)"
proof -
  have w: "within (block_addr f + h + of_nat j) (block_addr f + h) 4096"
    using assms(3) by (subst within_offset) simp_all
  have eq: "block_addr f + of_nat j + h = block_addr f + h + of_nat j" by simp
  show "pg h (block_addr f + of_nat j + h) = f"
    using w within_page [of "block_addr f" _ h] assms(2) unfolding eq by simp
  show "khalf (block_addr f + of_nat j + h)"
    using kregion_within [OF assms(1) w] unfolding eq .
qed

lemma foreign_held:
  assumes "vm_ext I n st st'" and "held I st f"
  shows "held I st' f" and "pg (hhdm_offset st) x = f \<Longrightarrow> mem st' x = mem st x"
proof -
  have fr: "foreign I st x" if "pg (hhdm_offset st) x = f" for x
    using that assms(2) by (simp add: foreign_def held_def)
  then show "mem st' x = mem st x" if "pg (hhdm_offset st) x = f"
    using that assms(1) by (simp add: vm_ext_def)
  note frame = vm_ext_frame [OF assms(1)]
  have k: "kregion (block_addr f + hhdm_offset st) 4096" "f < 2 ^ 31"
    using assms(2) by (simp_all add: held_def)
  have "foreign I st' (block_addr f + of_nat 0 + hhdm_offset st)"
    using fr [OF frame_cell(1) [OF k, of 0]] assms(1) unfolding vm_ext_def by simp
  then show "held I st' f"
    using frame_cell(1) [OF k, of 0] k by (simp add: foreign_def held_def frame(2))
qed

lemma alloc_ext:
  assumes wf: "vm_wf I st" and ne: "free_blocks st \<noteq> {}"
  defines "f \<equiv> Min (free_blocks st)"
  shows "\<exists>st'. pmm_alloc_block st = Some (block_addr f, st') \<and> vm_ext I 1 st st' \<and>
    f \<in> free_blocks st \<and> held I st' f \<and> (\<forall>q. lpath I q \<longrightarrow> entry st' q = entry st q)"
proof -
  let ?st = "(mark f True st)\<lparr>used_blocks := used_blocks st + 1\<rparr>"
  have f: "f \<in> free_blocks st" unfolding f_def using alloc_min(1) [OF wf ne] .
  note ff = free_block_facts [OF wf f]
  have alloc: "pmm_alloc_block st = Some (block_addr f, ?st)"
    unfolding f_def using alloc_min(2) [OF wf ne] .
  have disj: "pg (hhdm_offset st) x \<notin> bitmap_pages st" if "pg (hhdm_offset st) x \<in> tabs I st" for x
    using that wf by (auto simp: vm_wf_def)
  have same: "mem ?st x = mem st x" if "pg (hhdm_offset st) x \<notin> bitmap_pages st" for x
    using mark_frame_page [OF wf f that] by simp
  have tabs: "table ?st q = table st q" if "vpath I q" for q
    using that same disj by (intro table_cong) simp_all
  have free: "free_blocks ?st = free_blocks st - {f}"
    using free_blocks_mark [of f st] ff(1) wf by (simp add: vm_wf_def)
  have "vm_ext I (card (set_option (Some f))) st ?st"
  proof (rule vm_ext_write [OF wf, where m = "mem (mark f True st)" and u = "used_blocks st + 1"
        and p = "[]"])
    show "?st = st\<lparr>mem := mem (mark f True st), used_blocks := used_blocks st + 1\<rparr>"
      by (simp add: mark_def)
    show "mem (mark f True st) x = mem st x"
      if "pg (hhdm_offset st) x \<notin> set_option (Some f) \<union> tabs I st \<union> bitmap_pages st" for x
      using that same [of x] by simp
  qed (use f free tabs in auto)
  moreover have "entry ?st q = entry st q" if "lpath I q" for q
    using that same disj by (intro entry_cong) simp_all
  moreover have "held I ?st f"
  proof -
    have "tabs I ?st = tabs I st" using tabs by (auto simp: tabs_def) (metis tabs)+
    moreover have "bitmap_pages ?st = bitmap_pages st" by (simp add: bitmap_pages_def bitmap_bytes_def)
    ultimately show ?thesis using ff free by (simp add: held_def)
  qed
  ultimately show ?thesis using alloc f by auto
qed

text \<open>One round of the mapping loop: a fresh frame below one page.\<close>

lemma alloc_map:
  assumes wf: "vm_wf I st" and free: "4 \<le> card (free_blocks st)" and I: "page_index 39 virt \<in> I"
  shows "\<exists>f st1 st'. pmm_alloc_block st = Some (block_addr f, st1) \<and> vm_ext I 1 st st1 \<and>
    vmm_map_page (block_addr f) virt fl st1 = Some st' \<and> vm_ext I 4 st st' \<and>
    f \<in> free_blocks st \<and> held I st' f \<and>
    (\<forall>q. lpath I q \<longrightarrow> length q = 4 \<longrightarrow>
       entry st' q = (if q = va_path virt then Some (leaf_entry (block_addr f) fl) else entry st q))"
proof -
  have ne: "free_blocks st \<noteq> {}" using free by auto
  obtain st1 where 1: "pmm_alloc_block st = Some (block_addr (Min (free_blocks st)), st1)"
      "vm_ext I 1 st st1" "Min (free_blocks st) \<in> free_blocks st"
      "held I st1 (Min (free_blocks st))" "\<forall>q. lpath I q \<longrightarrow> entry st1 q = entry st q"
    using alloc_ext [OF wf ne] by blast
  have "3 \<le> card (free_blocks st1)" using vm_ext_free [OF 1(2), of 3] free by simp
  then obtain st' where 2: "vmm_map_page (block_addr (Min (free_blocks st))) virt fl st1 = Some st'"
      "vm_ext I 3 st1 st'" "\<forall>q. lpath I q \<longrightarrow> length q = 4 \<longrightarrow> entry st' q =
        (if q = va_path virt then Some (leaf_entry (block_addr (Min (free_blocks st))) fl)
         else entry st1 q)"
    using vmm_map_page_ok [OF vm_ext_frame(6) [OF 1(2)] _ I] by blast
  have "vm_ext I 4 st st'" using vm_ext_trans [OF 1(2) 2(2)] by simp
  then show ?thesis using 1 2(1,3) foreign_held(1) [OF 2(2) 1(4)] by metis
qed

section \<open>The pages of a segment\<close>

definition foreign_region :: "nat set \<Rightarrow> 'a pmm_scheme \<Rightarrow> u64 \<Rightarrow> nat \<Rightarrow> bool" where
  "foreign_region I st p n \<longleftrightarrow> kregion p n \<and> (\<forall>i<n. foreign I st (p + of_nat i))"

lemma foreign_region_part:
  assumes "foreign_region I st p n" and "i + k \<le> n"
  shows "foreign_region I st (p + of_nat i) k"
proof -
  have "kregion (p + of_nat i) (n - i)" using assms by (intro kregion_offset) (simp_all add: foreign_region_def)
  then have "kregion (p + of_nat i) k" by (rule kregion_mono) (use assms(2) in simp)
  moreover have "foreign I st (p + of_nat i + of_nat j)" if "j < k" for j
  proof -
    have "foreign I st (p + of_nat (i + j))" using assms that by (simp only: foreign_region_def)
    then show ?thesis by (simp add: add.assoc)
  qed
  ultimately show ?thesis by (simp add: foreign_region_def)
qed

lemma foreign_region_ext:
  assumes "vm_ext I n st st'" and "foreign_region I st p k"
  shows "foreign_region I st' p k" and "i < k \<Longrightarrow> mem st' (p + of_nat i) = mem st (p + of_nat i)"
    and "bytes (mem st') p k = bytes (mem st) p k"
  using assms by (auto simp: foreign_region_def vm_ext_def bytes_eq_iff)

lemma page_index_div: "page_index sh va = unat va div 2 ^ sh mod 512"
proof -
  have "drop_bit sh va AND 0x1FF = take_bit 9 (drop_bit sh va)"
    by (simp add: take_bit_eq_mask mask_eq_exp_minus_1)
  then have "page_index sh va = take_bit 9 (drop_bit sh (unat va))"
    by (simp only: page_index_def unsigned_take_bit_eq) (simp add: unsigned_drop_bit_eq take_bit_nat_eq_self)
  then show ?thesis by (simp add: drop_bit_eq_div take_bit_eq_mod)
qed

lemma low_index: "unat va < 2 ^ 47 \<Longrightarrow> page_index 39 va < 256"
proof -
  assume "unat va < 2 ^ 47"
  then have "unat va div 2 ^ 39 < 256" by (simp add: less_mult_imp_div_less)
  then show ?thesis by (simp add: page_index_div)
qed

lemma digits: "(x :: nat) < 512 ^ 4 \<Longrightarrow>
   x = ((x div 512 div 512 div 512 mod 512 * 512 + x div 512 div 512 mod 512) * 512 +
        x div 512 mod 512) * 512 + x mod 512"
proof -
  assume "x < 512 ^ 4"
  then have "x div 512 div 512 div 512 < 512"
    by (simp only: div_mult2_eq [symmetric]) (simp add: less_mult_imp_div_less)
  then show ?thesis by simp
qed

lemma va_path_low:
  assumes "unat a < 2 ^ 47" and "unat b < 2 ^ 47"
  shows "va_path a = va_path b \<longleftrightarrow> unat a div 4096 = unat b div 4096"
proof
  have step: "x div 2 ^ 21 = x div 4096 div 512" "x div 2 ^ 30 = x div 4096 div 512 div 512"
    "x div 2 ^ 39 = x div 4096 div 512 div 512 div 512" for x :: nat
    by (simp_all add: div_mult2_eq [symmetric])
  have path: "va_path va = [p mod 512, p div 512 mod 512, p div 512 div 512 mod 512,
      p div 512 div 512 div 512 mod 512]" if "p = unat va div 4096" for va p
    unfolding va_path_def page_index_div step that by simp
  have lt: "unat a div 4096 < 512 ^ 4" "unat b div 4096 < 512 ^ 4"
    using assms by (simp_all add: less_mult_imp_div_less)
  show "unat a div 4096 = unat b div 4096" if "va_path a = va_path b"
  proof -
    have "unat a div 4096 mod 512 = unat b div 4096 mod 512"
      "unat a div 4096 div 512 mod 512 = unat b div 4096 div 512 mod 512"
      "unat a div 4096 div 512 div 512 mod 512 = unat b div 4096 div 512 div 512 mod 512"
      "unat a div 4096 div 512 div 512 div 512 mod 512 =
         unat b div 4096 div 512 div 512 div 512 mod 512"
      using that unfolding path [OF refl] by blast+
    then show ?thesis using digits [OF lt(1)] digits [OF lt(2)] by metis
  qed
  show "va_path a = va_path b" if "unat a div 4096 = unat b div 4096"
    using path [OF that [symmetric]] path [OF refl, of b] by (simp only: that)
qed

lemma block_addr_low: "i < 2 ^ 40 \<Longrightarrow> (block_addr i AND entry_mask) = block_addr i"
  by (rule block_addr_masked)

text \<open>The loop maps one fresh frame below each page of the segment.\<close>

definition pages_of :: "u64 \<Rightarrow> nat" where
  "pages_of n = (unat n + 4095) div 4096"

lemma pages_of_less: "4096 * k < unat n \<longleftrightarrow> k < pages_of n"
  unfolding pages_of_def by linarith

definition page_path :: "u64 \<Rightarrow> nat \<Rightarrow> nat list" where
  "page_path va j = va_path (va + of_nat (4096 * j))"

lemma foreign_load:
  assumes "vm_ext I e st s" and "foreign_region I st p n" and "i + k \<le> n"
  shows "k = 8 \<Longrightarrow> ld64 s (p + of_nat i) = Some (ldw 8 (mem st) (p + of_nat i))"
    and "k = 4 \<Longrightarrow> ld32 s (p + of_nat i) = Some (ldw 4 (mem st) (p + of_nat i))"
proof -
  have part: "foreign_region I st (p + of_nat i) k" using foreign_region_part [OF assms(2,3)] .
  have r: "kregion (p + of_nat i) k" using part by (simp add: foreign_region_def)
  have "ldw k (mem s) (p + of_nat i) = ldw k (mem st) (p + of_nat i)"
    using foreign_region_ext(2) [OF assms(1) part] by (intro ldw_shift) simp
  then show "k = 8 \<Longrightarrow> ld64 s (p + of_nat i) = Some (ldw 8 (mem st) (p + of_nat i))"
    and "k = 4 \<Longrightarrow> ld32 s (p + of_nat i) = Some (ldw 4 (mem st) (p + of_nat i))"
    using r by (auto simp: kernel_mem)
qed

lemma unat_page:
  assumes "unat (va :: u64) + unat n \<le> 2 ^ 47" and "k < pages_of n"
  shows "unat (va + of_nat (4096 * k)) = unat va + 4096 * k" and "unat va + 4096 * k < 2 ^ 47"
proof -
  have k: "4096 * k < unat n" using assms(2) by (simp only: pages_of_less)
  then show lt: "unat va + 4096 * k < 2 ^ 47" using assms(1) by linarith
  have "unat (of_nat (4096 * k) :: u64) = 4096 * k" using lt by (intro unat_of_nat64) simp
  then show "unat (va + of_nat (4096 * k)) = unat va + 4096 * k"
    using lt by (subst unat_add_lem [THEN iffD1]) simp_all
qed

lemma page_path_inj:
  assumes "unat va + unat n \<le> 2 ^ 47"
  shows "inj_on (page_path va) {..<pages_of n}"
proof (rule inj_onI)
  fix j k assume *: "j \<in> {..<pages_of n}" "k \<in> {..<pages_of n}" "page_path va j = page_path va k"
  then have "unat (va + of_nat (4096 * j)) div 4096 = unat (va + of_nat (4096 * k)) div 4096"
    using va_path_low unat_page [OF assms] unfolding page_path_def by (metis lessThan_iff)
  then show "j = k" using *(1,2) unat_page(1) [OF assms] by simp
qed

text \<open>
  \<open>mapped I pth fl s s' fr k n\<close>: between \<open>s\<close> and \<open>s'\<close> a loop has put the free frames \<open>fr\<close> below
  the pages \<open>k\<close> to \<open>n\<close> and changed no other page.
\<close>

definition mapped :: "nat set \<Rightarrow> (nat \<Rightarrow> nat list) \<Rightarrow> u64 \<Rightarrow> 'a pmm_scheme \<Rightarrow> 'a pmm_scheme \<Rightarrow>
    (nat \<Rightarrow> nat) \<Rightarrow> nat \<Rightarrow> nat \<Rightarrow> bool" where
  "mapped I pth fl s s' fr k n \<longleftrightarrow> inj_on fr {k..<n} \<and>
     (\<forall>j\<in>{k..<n}. fr j \<in> free_blocks s \<and> held I s' (fr j) \<and>
        entry s' (pth j) = Some (leaf_entry (block_addr (fr j)) fl)) \<and>
     (\<forall>q. lpath I q \<longrightarrow> length q = 4 \<longrightarrow> q \<notin> pth ` {k..<n} \<longrightarrow> entry s' q = entry s q)"

lemma mapped_none: "n \<le> k \<Longrightarrow> mapped I pth fl s s fr k n"
  by (simp add: mapped_def)

lemma mapped_step:
  assumes k: "k < n" and inj: "inj_on pth {..<n}" and valid: "lpath I (pth k)" "length (pth k) = 4"
    and step: "vm_ext I 4 s s2" "f \<in> free_blocks s" "held I s2 f"
      "\<forall>q. lpath I q \<longrightarrow> length q = 4 \<longrightarrow>
         entry s2 q = (if q = pth k then Some (leaf_entry (block_addr f) fl) else entry s q)"
    and rest: "vm_ext I e s2 s'" "mapped I pth fl s2 s' fr (Suc k) n"
  shows "mapped I pth fl s s' (fr(k := f)) k n"
proof -
  let ?fr = "fr(k := f)"
  have IH: "inj_on fr {Suc k..<n}" "\<forall>j\<in>{Suc k..<n}. fr j \<in> free_blocks s2 \<and> held I s' (fr j) \<and>
        entry s' (pth j) = Some (leaf_entry (block_addr (fr j)) fl)"
      "\<forall>q. lpath I q \<longrightarrow> length q = 4 \<longrightarrow> q \<notin> pth ` {Suc k..<n} \<longrightarrow> entry s' q = entry s2 q"
    using rest(2) by (simp_all add: mapped_def)
  have nf: "f \<notin> free_blocks s2" using step(3) by (simp add: held_def)
  have inj_fr: "inj_on ?fr {k..<n}" using IH(1,2) nf k by (auto simp: inj_on_def)
  have fresh: "pth k \<notin> pth ` {Suc k..<n}" using inj k by (fastforce simp: inj_on_def)
  have "?fr j \<in> free_blocks s \<and> held I s' (?fr j) \<and>
      entry s' (pth j) = Some (leaf_entry (block_addr (?fr j)) fl)" if "j \<in> {k..<n}" for j
  proof (cases "j = k")
    case True
    have "entry s' (pth k) = entry s2 (pth k)" using IH(3) valid fresh by simp
    then show ?thesis
      using True step(2,4) valid foreign_held(1) [OF rest(1) step(3)] by simp
  next
    case False
    then have "j \<in> {Suc k..<n}" using that by simp
    then have *: "fr j \<in> free_blocks s2" "held I s' (fr j)"
        "entry s' (pth j) = Some (leaf_entry (block_addr (fr j)) fl)"
      using IH(2) by blast+
    moreover have "fr j \<in> free_blocks s" using *(1) step(1) by (auto simp: vm_ext_def)
    ultimately show ?thesis using False by simp
  qed
  moreover have "entry s' q = entry s q"
    if "lpath I q" "length q = 4" "q \<notin> pth ` {k..<n}" for q
  proof -
    have "q \<notin> pth ` {Suc k..<n}" "q \<noteq> pth k" using that(3) k by auto
    then show ?thesis using IH(3) step(4) that(1,2) by simp
  qed
  ultimately show ?thesis using inj_fr by (simp add: mapped_def)
qed

lemma kex_map_loop_ok:
  fixes st :: "'a pmm_scheme"
  assumes seg: "va = ldw 8 (mem st) (seg + 16)" "n = ldw 8 (mem st) (seg + 24)"
    "foreign_region I st seg 64"
    and low: "unat va + unat n \<le> 2 ^ 47" and I: "{..<256} \<subseteq> I"
  shows "k + d = pages_of n \<Longrightarrow> vm_ext I e st s \<Longrightarrow> 4 * d \<le> card (free_blocks s) \<Longrightarrow>
    \<exists>s' fr. kex_map_loop seg (of_nat (4096 * k)) s = Some s' \<and> vm_ext I (4 * d) s s' \<and>
      mapped I (page_path va) 7 s s' fr k (pages_of n)"
proof (induction d arbitrary: k e s)
  case 0
  have n: "ld64 s (seg + 24) = Some n"
    using foreign_load(1) [OF 0(2) seg(3), of 24 8] seg(2) by simp
  have "\<not> 4096 * k < unat n" using pages_of_less [of k n] 0(1) by simp
  moreover have "unat (of_nat (4096 * k) :: u64) = 4096 * k"
    using 0(1) low unfolding pages_of_def by (intro unat_of_nat64) simp
  ultimately have "\<not> of_nat (4096 * k) < n"
    by (simp only: word_less_nat_alt) simp
  then have "kex_map_loop seg (of_nat (4096 * k)) s = Some s"
    using n by (subst kex_map_loop.simps) simp
  then show ?case
    using 0(1) vm_ext_refl [OF vm_ext_frame(6) [OF 0(2)]] mapped_none [of "pages_of n" k]
    by (intro exI conjI) simp_all
next
  case (Suc d)
  let ?off = "of_nat (4096 * k) :: u64"
  let ?v = "va + ?off"
  have k: "k < pages_of n" and next_index: "Suc k + d = pages_of n" using Suc.prems(1) by simp_all
  then have kn: "4096 * k < unat n" using pages_of_less by simp
  have off: "unat ?off = 4096 * k" using kn low by (intro unat_of_nat64) simp
  then have lt: "?off < n" using kn by (simp only: word_less_nat_alt)
  have v: "unat ?v < 2 ^ 47" using unat_page [OF low k] by simp
  then have idx: "page_index 39 ?v \<in> I" using low_index I by auto
  note valid = va_path_lpath [OF idx, folded page_path_def]
  have loads: "ld64 s (seg + 24) = Some n"
    using foreign_load(1) [OF Suc.prems(2) seg(3), of 24 8] seg(2) by simp
  obtain f s1 s2 where step: "pmm_alloc_block s = Some (block_addr f, s1)" "vm_ext I 1 s s1"
      "vmm_map_page (block_addr f) ?v 7 s1 = Some s2" "vm_ext I 4 s s2"
      "f \<in> free_blocks s" "held I s2 f"
      "\<forall>q. lpath I q \<longrightarrow> length q = 4 \<longrightarrow>
         entry s2 q = (if q = page_path va k then Some (leaf_entry (block_addr f) 7) else entry s q)"
    using alloc_map [OF vm_ext_frame(6) [OF Suc.prems(2)] _ idx, of 7] Suc.prems(3)
    by (auto simp: page_path_def)
  have va: "ld64 s1 (seg + 16) = Some va"
    using foreign_load(1) [OF vm_ext_trans [OF Suc.prems(2) step(2)] seg(3), of 16 8] seg(1) by simp
  have ext: "vm_ext I (e + 4) st s2" using vm_ext_trans [OF Suc.prems(2) step(4)] .
  have free: "4 * d \<le> card (free_blocks s2)" using step(4) Suc.prems(3) by (simp add: vm_ext_def)
  obtain s' fr where IH: "kex_map_loop seg (of_nat (4096 * Suc k)) s2 = Some s'"
      "vm_ext I (4 * d) s2 s'" "mapped I (page_path va) 7 s2 s' fr (Suc k) (pages_of n)"
    using Suc.IH [OF next_index ext free] by blast
  have "kex_map_loop seg ?off s = Some s'"
    using loads lt step(1,3) va IH(1) by (subst kex_map_loop.simps) (simp add: add.commute)
  moreover have "mapped I (page_path va) 7 s s' (fr(k := f)) k (pages_of n)"
    using mapped_step [OF k page_path_inj [OF low] _ _ step(4-7) IH(2,3)] valid by simp
  moreover have "vm_ext I (4 * Suc d) s s'" using vm_ext_trans [OF step(4) IH(2)] by simp
  ultimately show ?case by blast
qed

section \<open>The contents of a segment\<close>

text \<open>
  \<open>loaded I F st va n b\<close>: the \<open>n\<close> bytes from \<open>va\<close> are mapped, writable for ring 3, to frames
  of \<open>F\<close> that no memory manager owns, each byte to a cell of its own, and hold \<open>b 0\<close>, \<open>b 1\<close>,
  and so on.
\<close>

definition cell :: "u64 \<Rightarrow> (nat \<Rightarrow> nat) \<Rightarrow> nat \<Rightarrow> u64" where
  "cell h fr i = block_addr (fr (i div 4096)) + of_nat (i mod 4096) + h"

definition loaded :: "nat set \<Rightarrow> nat set \<Rightarrow> 'a pmm_scheme \<Rightarrow> u64 \<Rightarrow> nat \<Rightarrow> (nat \<Rightarrow> u8) \<Rightarrow> bool" where
  "loaded I F st va n b \<longleftrightarrow> 4096 dvd unat va \<and> unat va + n \<le> 2 ^ 47 \<and>
     (\<exists>fr. inj_on (cell (hhdm_offset st) fr) {..<n} \<and>
      (\<forall>i<n. fr (i div 4096) \<in> F \<and> held I st (fr (i div 4096)) \<and>
        entry st (page_path va (i div 4096)) = Some (leaf_entry (block_addr (fr (i div 4096))) 7) \<and>
        mem st (cell (hhdm_offset st) fr i) = b i))"

lemma aligned_offset:
  assumes "4096 dvd unat va" and "unat va + n \<le> 2 ^ 47" and "i < n"
  shows "unat (va + of_nat i) = unat va + i" and "va_path (va + of_nat i) = page_path va (i div 4096)"
    and "(va + of_nat i) AND 0xFFF = of_nat (i mod 4096)"
proof -
  have of: "unat (of_nat k :: u64) = k" if "k \<le> i" for k
    using that assms(2,3) by (intro unat_of_nat64) simp
  show un: "unat (va + of_nat i) = unat va + i"
    using assms(2,3) of [of i] by (subst unat_add_lem [THEN iffD1]) simp_all
  have un': "unat (va + of_nat (4096 * (i div 4096))) = unat va + 4096 * (i div 4096)"
    using assms(2,3) of [of "4096 * (i div 4096)"] by (subst unat_add_lem [THEN iffD1]) simp_all
  have "(unat va + i) div 4096 = (unat va + 4096 * (i div 4096)) div 4096"
    using assms(1) by (auto elim!: dvdE)
  then show "va_path (va + of_nat i) = page_path va (i div 4096)"
    unfolding page_path_def using un un' assms(2,3) by (subst va_path_low) simp_all
  have "(va + of_nat i) AND 0xFFF = take_bit 12 (va + of_nat i)"
    by (simp add: take_bit_eq_mask mask_eq_exp_minus_1)
  moreover have "unat (take_bit 12 (va + of_nat i)) = i mod 4096"
  proof -
    have "unat (take_bit 12 (va + of_nat i)) = (unat va + i) mod 4096"
      by (simp only: unsigned_take_bit_eq un) (simp add: take_bit_eq_mod)
    then show ?thesis using assms(1) by (auto elim!: dvdE)
  qed
  ultimately show "(va + of_nat i) AND 0xFFF = of_nat (i mod 4096)"
    by (metis of_nat_unat ucast_id)
qed

lemma resolve_mapped:
  assumes va: "4096 dvd unat va" "unat va + n \<le> 2 ^ 47" "i < n"
    and e: "entry st (page_path va (i div 4096)) = Some (leaf_entry (block_addr f) 7)" "f < 2 ^ 40"
  shows "resolve st (va + of_nat i) = Some (block_addr f + of_nat (i mod 4096) + hhdm_offset st)"
proof -
  note off = aligned_offset [OF va]
  have "walk st (va + of_nat i) = Some (block_addr f + of_nat (i mod 4096))"
    using e(1) leaf_entry_frame [of "block_addr f" 7] block_addr_low [of f] e(2)
    by (simp add: walk_entry off)
  moreover have "\<not> khalf (va + of_nat i)" "va + of_nat i < 0x800000000000"
    using off(1) va(2,3) by (simp_all add: khalf_unat word_less_nat_alt)
  ultimately show ?thesis by (simp add: resolve_def)
qed

lemma loaded_reads:
  assumes "loaded I F st va n b" and "i < n"
  shows "ld8 st (va + of_nat i) = Some (b i)"
proof -
  obtain fr where fr: "\<forall>i<n. held I st (fr (i div 4096)) \<and>
        entry st (page_path va (i div 4096)) = Some (leaf_entry (block_addr (fr (i div 4096))) 7) \<and>
        mem st (cell (hhdm_offset st) fr i) = b i"
    using assms(1) unfolding loaded_def by blast
  moreover from this have "fr (i div 4096) < 2 ^ 31" using assms(2) by (simp add: held_def)
  then have "fr (i div 4096) < 2 ^ 40" by simp
  ultimately show ?thesis
    using assms resolve_mapped [of va n i st "fr (i div 4096)"]
    by (simp add: loaded_def ld8_def held_def cell_def)
qed

lemma loaded_ext:
  assumes "loaded I F st va n b" and "vm_ext I e st st'"
    and "\<And>j. 4096 * j < n \<Longrightarrow> entry st' (page_path va j) = entry st (page_path va j)"
  shows "loaded I F st' va n b"
proof -
  obtain fr where inj: "inj_on (cell (hhdm_offset st) fr) {..<n}"
    and fr: "\<forall>i<n. fr (i div 4096) \<in> F \<and> held I st (fr (i div 4096)) \<and>
        entry st (page_path va (i div 4096)) = Some (leaf_entry (block_addr (fr (i div 4096))) 7) \<and>
        mem st (cell (hhdm_offset st) fr i) = b i"
    using assms(1) unfolding loaded_def by blast
  have "fr (i div 4096) \<in> F \<and> held I st' (fr (i div 4096)) \<and>
        entry st' (page_path va (i div 4096)) = Some (leaf_entry (block_addr (fr (i div 4096))) 7) \<and>
        mem st' (cell (hhdm_offset st') fr i) = b i" if i: "i < n" for i
  proof -
    have h: "held I st (fr (i div 4096))" using fr i by blast
    have "pg (hhdm_offset st) (cell (hhdm_offset st) fr i) = fr (i div 4096)"
      unfolding cell_def using h frame_cell(1) by (simp add: held_def)
    moreover have "4096 * (i div 4096) < n" using i by (simp add: le_less_trans [OF _ i])
    ultimately show ?thesis
      using fr i foreign_held [OF assms(2) h] assms(3) vm_ext_frame(2) [OF assms(2)] by simp
  qed
  moreover have "inj_on (cell (hhdm_offset st') fr) {..<n}"
    using inj vm_ext_frame(2) [OF assms(2)] by simp
  ultimately show ?thesis using assms(1) unfolding loaded_def by blast
qed

text \<open>Memory outside the page tables and the bitmap may change.\<close>

lemma untouched:
  assumes wf: "vm_wf I s"
    and tab: "\<And>x. pg (hhdm_offset s) x \<in> tabs I s \<union> bitmap_pages s \<Longrightarrow> m x = mem s x"
  defines "s' \<equiv> s\<lparr>mem := m\<rparr>"
  shows "vm_wf I s'" "free_blocks s' = free_blocks s" "tabs I s' = tabs I s"
    "foreign I s' x = foreign I s x" "held I s' f = held I s f"
    "lpath I q \<Longrightarrow> entry s' q = entry s q"
proof -
  show "entry s' q = entry s q" if "lpath I q"
    using that tab unfolding s'_def by (intro entry_cong [of s I]) simp_all
  have tables: "table s' q = table s q" if "vpath I q" for q
    using that tab unfolding s'_def by (intro table_cong [of s I]) simp_all
  show tabs: "tabs I s' = tabs I s" using tables by (auto simp: tabs_def) (metis tables)+
  have bm: "bitmap_pages s' = bitmap_pages s"
    by (simp add: s'_def bitmap_pages_def bitmap_bytes_def)
  show free: "free_blocks s' = free_blocks s"
    using tab unfolding s'_def by (intro free_blocks_cong) (auto simp: bitmap_pages_def)
  have h: "hhdm_offset s' = hhdm_offset s" by (simp add: s'_def)
  show "held I s' f = held I s f" by (simp add: held_def tabs bm free h)
  show "foreign I s' x = foreign I s x" by (simp add: foreign_def tabs bm free h)
  have "pmm_wf s'"
    using wf by (simp add: s'_def vm_wf_def pmm_wf_def bitmap_bytes_def tx_live_def)
  moreover have "reachable_page s' i = reachable_page s i" for i by (simp add: reachable_page_def h)
  ultimately show "vm_wf I s'" using wf tables by (simp add: vm_wf_def tabs free bm)
qed

text \<open>In particular frames that no memory manager owns may be filled.\<close>

lemma vm_ext_fill:
  assumes ext: "vm_ext I e s s'" and F: "\<And>f. f \<in> F \<Longrightarrow> f \<in> free_blocks s \<and> held I s' f"
    and out: "\<And>x. pg (hhdm_offset s') x \<notin> F \<Longrightarrow> m x = mem s' x"
  shows "vm_ext I e s (s'\<lparr>mem := m\<rparr>)" and "lpath I q \<Longrightarrow> entry (s'\<lparr>mem := m\<rparr>) q = entry s' q"
    and "held I (s'\<lparr>mem := m\<rparr>) f = held I s' f"
proof -
  let ?s = "s'\<lparr>mem := m\<rparr>"
  have tab: "m x = mem s' x" if "pg (hhdm_offset s') x \<in> tabs I s' \<union> bitmap_pages s'" for x
    using that F out by (auto simp: held_def)
  note same = untouched [OF vm_ext_frame(6) [OF ext] tab]
  show "lpath I q \<Longrightarrow> entry ?s q = entry s' q" by (rule same(6))
  show "held I ?s f = held I s' f" by (rule same(5))
  have "mem ?s x = mem s x" if "foreign I s x" for x
  proof -
    have "pg (hhdm_offset s') x \<notin> F"
      using that F vm_ext_frame(2) [OF ext] by (auto simp: foreign_def)
    then show ?thesis using out ext that by (simp add: vm_ext_def)
  qed
  moreover have "\<exists>m' u. ?s = s\<lparr>mem := m', used_blocks := u\<rparr>"
  proof -
    obtain m' u where "s' = s\<lparr>mem := m', used_blocks := u\<rparr>" using ext by (auto simp: vm_ext_def)
    then have "?s = s\<lparr>mem := m, used_blocks := u\<rparr>" by simp
    then show ?thesis by blast
  qed
  ultimately show "vm_ext I e s ?s"
    using ext same(1,2,4) by (simp add: vm_ext_def)
qed

lemma load_segment_ok:
  fixes st :: "'a pmm_scheme"
  assumes seg: "va = ldw 8 (mem st) (seg + 16)" "n = ldw 8 (mem st) (seg + 24)"
      "off = ldw 8 (mem st) (seg + 32)" "k = ldw 8 (mem st) (seg + 40)"
    and fseg: "foreign_region I st seg 64"
    and data: "foreign_region I st (file_data + off) (unat k)"
    and low: "unat va + unat n \<le> 2 ^ 47" and al: "4096 dvd unat va" and I: "{..<256} \<subseteq> I"
    and kn: "k \<le> n" and ext: "vm_ext I e st s" and free: "4 * pages_of n \<le> card (free_blocks s)"
  shows "\<exists>s'. kex_load_segment file_data seg s = Some s' \<and> vm_ext I (4 * pages_of n) s s' \<and>
    loaded I (free_blocks st) s' va (unat n)
      (\<lambda>i. if i < unat k then mem st (file_data + off + of_nat i) else 0) \<and>
    (\<forall>q. lpath I q \<longrightarrow> length q = 4 \<longrightarrow> q \<notin> page_path va ` {..<pages_of n} \<longrightarrow>
       entry s' q = entry s q)"
proof -
  obtain s1 fr where map: "kex_map_loop seg 0 s = Some s1" "vm_ext I (4 * pages_of n) s s1"
      "inj_on fr {..<pages_of n}"
      "\<forall>j<pages_of n. fr j \<in> free_blocks s \<and> held I s1 (fr j) \<and>
         entry s1 (page_path va j) = Some (leaf_entry (block_addr (fr j)) 7)"
      "\<forall>q. lpath I q \<longrightarrow> length q = 4 \<longrightarrow> q \<notin> page_path va ` {..<pages_of n} \<longrightarrow>
         entry s1 q = entry s q"
    using kex_map_loop_ok [OF seg(1,2) fseg low I, of 0 "pages_of n" e s] ext free
    by (auto simp: mapped_def atLeast0LessThan)
  let ?h = "hhdm_offset s1" and ?F = "fr ` {..<pages_of n}" and ?N = "unat n"
  let ?c = "cell ?h fr" and ?src = "file_data + off"
  have page: "i div 4096 < pages_of n" if "i < ?N" for i
  proof -
    have "4096 * (i div 4096) < ?N" using that by (simp add: le_less_trans [OF _ that])
    then show ?thesis by (simp only: pages_of_less)
  qed
  have hd: "held I s1 (fr (i div 4096))" if "i < ?N" for i using map(4) page [OF that] by blast
  have pgc: "pg ?h (?c i) = fr (i div 4096)" if "i < ?N" for i
    unfolding cell_def using hd [OF that] frame_cell(1) by (simp add: held_def)
  have idx: "lpath I (page_path va (i div 4096))" if "i < ?N" for i
  proof -
    have "unat (va + of_nat i) < 2 ^ 47" using aligned_offset(1) [OF al low that] low that by simp
    then have "page_index 39 (va + of_nat i) \<in> I" using low_index I by blast
    then show ?thesis
      using va_path_lpath unfolding aligned_offset(2) [OF al low that, symmetric] by blast
  qed
  have cF: "pg ?h x \<in> ?F" if x: "x \<in> ?c ` {..<?N}" for x
  proof -
    from x obtain i where i: "i < ?N" "x = ?c i" by auto
    then show ?thesis using pgc page by simp
  qed
  have Fout: "m x = mem s1 x" if "\<And>x. x \<notin> ?c ` {..<?N} \<Longrightarrow> m x = mem s1 x" "pg ?h x \<notin> ?F" for m x
    using that cF by blast
  note fill = vm_ext_fill [OF map(2), of ?F]
  have inF: "f \<in> free_blocks s \<and> held I s1 f" if "f \<in> ?F" for f using that map(4) by auto
  have inj: "inj_on ?c {..<?N}"
  proof (rule inj_onI)
    fix i j assume ij: "i \<in> {..<?N}" "j \<in> {..<?N}" "?c i = ?c j"
    then have "fr (i div 4096) = fr (j div 4096)" using pgc by (metis lessThan_iff)
    then have d: "i div 4096 = j div 4096"
      using map(3) page ij(1,2) by (simp add: inj_on_def)
    then have "(of_nat (i mod 4096) :: u64) = of_nat (j mod 4096)"
      using ij(3) by (simp add: cell_def)
    then have "i mod 4096 = j mod 4096"
      by (subst (asm) of_nat64_eq_iff) (simp_all add: less_trans [of _ 4096])
    then show "i = j" using d by (metis div_mult_mod_eq)
  qed
  have backed: "backs s1 va ?N ?c" unfolding backs_def
  proof (intro conjI allI impI inj)
    fix m i assume m: "\<forall>x. x \<notin> ?c ` {..<?N} \<longrightarrow> m x = mem s1 x" and i: "i < ?N"
    have "entry (s1\<lparr>mem := m\<rparr>) (page_path va (i div 4096)) = entry s1 (page_path va (i div 4096))"
      using m Fout inF idx [OF i] by (intro fill(2)) blast+
    then have "resolve (s1\<lparr>mem := m\<rparr>) (va + of_nat i) =
        Some (block_addr (fr (i div 4096)) + of_nat (i mod 4096) + hhdm_offset (s1\<lparr>mem := m\<rparr>))"
      using map(4) page [OF i] by (intro resolve_mapped [OF al low i]) (auto simp: held_def)
    then show "resolve (s1\<lparr>mem := m\<rparr>) (va + of_nat i) = Some (?c i)" by (simp add: cell_def)
  qed
  have data1: "foreign_region I s1 ?src (unat k)" and src: "kregion ?src (unat k)"
    using foreign_region_ext(1) [OF vm_ext_trans [OF ext map(2)] data] data
    by (simp_all add: foreign_region_def)
  have same: "mem s1 (?src + of_nat i) = mem st (?src + of_nat i)" if "i < unat k" for i
    using foreign_region_ext(2) [OF vm_ext_trans [OF ext map(2)] data that] .
  have srcF: "pg ?h (?src + of_nat i) \<notin> ?F" if "i < unat k" for i
  proof
    assume "pg ?h (?src + of_nat i) \<in> ?F"
    moreover have "foreign I s (?src + of_nat i)"
      using that foreign_region_ext(1) [OF ext data] by (simp add: foreign_region_def)
    ultimately show False
      using inF vm_ext_frame(2) [OF map(2)] by (auto simp: foreign_def)
  qed
  have clear: "?src + of_nat i \<notin> ?c ` {..<?N}" if "i < unat k" for i
    using srcF [OF that] cF by blast
  obtain m1 m2 where m: "memset va 0 n s1 = Some (va, s1\<lparr>mem := m1\<rparr>)"
      "memcpy va ?src k (s1\<lparr>mem := m1\<rparr>) = Some (va, s1\<lparr>mem := m2\<rparr>)"
      "\<forall>i<?N. m2 (?c i) = (if i < unat k then mem s1 (?src + of_nat i) else 0)"
      "\<forall>x. x \<notin> ?c ` {..<?N} \<longrightarrow> m1 x = mem s1 x \<and> m2 x = mem s1 x" "k = 0 \<longrightarrow> m2 = m1"
    using fill_backs [OF backed refl _ src clear] kn by (auto simp: word_le_nat_alt)
  have out: "m1 x = mem s1 x" "m2 x = mem s1 x" if "pg ?h x \<notin> ?F" for x
    using m(4) cF that by blast+
  have ext1: "vm_ext I (4 * pages_of n) s (s1\<lparr>mem := m1\<rparr>)"
    and ext2: "vm_ext I (4 * pages_of n) s (s1\<lparr>mem := m2\<rparr>)"
    by (rule fill(1) [OF inF out(1)] fill(1) [OF inF out(2)]; assumption)+
  note load = foreign_load(1) [OF vm_ext_trans [OF ext map(2)] fseg _ refl]
    and load1 = foreign_load(1) [OF vm_ext_trans [OF ext ext1] fseg _ refl]
  have loads: "ld64 s1 (seg + 16) = Some va" "ld64 s1 (seg + 24) = Some n"
      "ld64 (s1\<lparr>mem := m1\<rparr>) (seg + 16) = Some va" "ld64 (s1\<lparr>mem := m1\<rparr>) (seg + 32) = Some off"
      "ld64 (s1\<lparr>mem := m1\<rparr>) (seg + 40) = Some k"
    using load [of 16] load [of 24] load1 [of 16] load1 [of 32] load1 [of 40] seg by simp_all
  have run: "kex_load_segment file_data seg s = Some (s1\<lparr>mem := m2\<rparr>)"
    using map(1) m(1,2,5) loads by (cases "k = 0") (simp_all add: kex_load_segment_def word_gt_0)
  have en: "entry (s1\<lparr>mem := m2\<rparr>) q = entry s1 q" if "lpath I q" for q
    by (rule fill(2) [OF inF out(2) that])
  have hd2: "held I (s1\<lparr>mem := m2\<rparr>) f = held I s1 f" for f
    by (rule fill(3) [OF inF out(2)])
  have frames: "free_blocks s \<subseteq> free_blocks st" using ext by (simp add: vm_ext_def)
  have "loaded I (free_blocks st) (s1\<lparr>mem := m2\<rparr>) va ?N
      (\<lambda>i. if i < unat k then mem st (?src + of_nat i) else 0)"
    unfolding loaded_def
    using al low inj hd2 hd en idx map(4) page m(3) same frames by (intro conjI exI [of _ fr]) auto
  moreover have "entry (s1\<lparr>mem := m2\<rparr>) q = entry s q"
    if "lpath I q" "length q = 4" "q \<notin> page_path va ` {..<pages_of n}" for q
    using en that map(5) by simp
  ultimately show ?thesis using run ext2 by blast
qed

section \<open>Programs\<close>

text \<open>
  A program as the loader sees it: the commands that stand one after another from offset \<open>o\<close>
  of the \<open>len\<close> bytes at \<open>p\<close>, each as long as it says, and what a segment needs to be loaded.
\<close>

datatype kex_command = Segment kex_segment_cmd | Command kex_cmd

fun kex_commands :: "(u64 \<Rightarrow> u8) \<Rightarrow> u64 \<Rightarrow> nat \<Rightarrow> nat \<Rightarrow> kex_command list \<Rightarrow> bool" where
  "kex_commands m p len pos [] \<longleftrightarrow> True"
| "kex_commands m p len pos (Segment s # cmds) \<longleftrightarrow> pos + 64 \<le> len \<and>
     bytes m (p + of_nat pos) 64 = kex_segment_cmd_bytes s \<and> List.length (seg_reserved s) = 8 \<and>
     cmd_type (head s) = KEX_CMD_SEGMENT \<and>
     kex_commands m p len (pos + unat (cmd_bytes (head s))) cmds"
| "kex_commands m p len pos (Command c # cmds) \<longleftrightarrow> pos + 8 \<le> len \<and>
     bytes m (p + of_nat pos) 8 = kex_cmd_bytes c \<and> cmd_type c \<noteq> KEX_CMD_SEGMENT \<and>
     kex_commands m p len (pos + unat (cmd_bytes c)) cmds"

fun kex_segments :: "kex_command list \<Rightarrow> kex_segment_cmd list" where
  "kex_segments [] = []"
| "kex_segments (Segment s # cmds) = s # kex_segments cmds"
| "kex_segments (Command c # cmds) = kex_segments cmds"

definition segment_ok :: "nat \<Rightarrow> kex_segment_cmd \<Rightarrow> bool" where
  "segment_ok len s \<longleftrightarrow> 4096 dvd unat (rva s) \<and> unat (rva s) + unat (mem_size s) \<le> 2 ^ 47 \<and>
     file_size s \<le> mem_size s \<and> unat (file_offset s) + unat (file_size s) \<le> len"

definition page_range :: "u64 \<Rightarrow> u64 \<Rightarrow> nat set" where
  "page_range va n = {unat va div 4096 ..< unat va div 4096 + pages_of n}"

fun disjoint_list :: "nat set list \<Rightarrow> bool" where
  "disjoint_list [] \<longleftrightarrow> True"
| "disjoint_list (P # Ps) \<longleftrightarrow> (\<forall>Q\<in>set Ps. P \<inter> Q = {}) \<and> disjoint_list Ps"

definition seg_pages :: "kex_segment_cmd \<Rightarrow> nat set" where
  "seg_pages s = page_range (rva s) (mem_size s)"

abbreviation pages_apart :: "kex_segment_cmd list \<Rightarrow> bool" where
  "pages_apart segs \<equiv> disjoint_list (map seg_pages segs)"

definition page_count :: "kex_segment_cmd list \<Rightarrow> nat" where
  "page_count segs = (\<Sum>s\<leftarrow>segs. pages_of (mem_size s))"

definition seg_image :: "(u64 \<Rightarrow> u8) \<Rightarrow> u64 \<Rightarrow> kex_segment_cmd \<Rightarrow> nat \<Rightarrow> u8" where
  "seg_image m p s i = (if i < unat (file_size s) then m (p + file_offset s + of_nat i) else 0)"

definition seg_paths :: "kex_segment_cmd \<Rightarrow> nat list set" where
  "seg_paths s = page_path (rva s) ` {..<pages_of (mem_size s)}"

lemma page_number:
  assumes "segment_ok len s" and "j < pages_of (mem_size s)"
  shows "unat (rva s + of_nat (4096 * j)) div 4096 = unat (rva s) div 4096 + j"
    and "unat (rva s + of_nat (4096 * j)) < 2 ^ 47"
  using assms unat_page [of "rva s" "mem_size s" j] unfolding segment_ok_def
  by (auto elim!: dvdE)

lemma path_page:
  assumes "segment_ok len s" and "unat va < 2 ^ 47"
  shows "va_path va \<in> seg_paths s \<longleftrightarrow> unat va div 4096 \<in> seg_pages s"
proof -
  have eq: "va_path va = page_path (rva s) j \<longleftrightarrow> unat va div 4096 = unat (rva s) div 4096 + j"
    if "j < pages_of (mem_size s)" for j
    unfolding page_path_def
    using va_path_low [OF assms(2) page_number(2) [OF assms(1) that]] page_number(1) [OF assms(1) that]
    by simp
  have "va_path va \<in> seg_paths s \<longleftrightarrow>
      (\<exists>j<pages_of (mem_size s). unat va div 4096 = unat (rva s) div 4096 + j)"
    unfolding seg_paths_def using eq by auto
  also have "\<dots> \<longleftrightarrow> unat va div 4096 \<in> seg_pages s"
    unfolding seg_pages_def page_range_def by (auto simp: le_iff_add)
  finally show ?thesis .
qed

lemma paths_apart:
  assumes "segment_ok len s" and "segment_ok len t" and "seg_pages s \<inter> seg_pages t = {}"
    and "4096 * j < unat (mem_size s)"
  shows "page_path (rva s) j \<notin> seg_paths t"
proof -
  have j: "j < pages_of (mem_size s)" using assms(4) by (simp only: pages_of_less)
  have "unat (rva s + of_nat (4096 * j)) div 4096 \<in> seg_pages s"
    unfolding page_number(1) [OF assms(1) j] using j by (simp add: seg_pages_def page_range_def)
  then show ?thesis
    using path_page [OF assms(2) page_number(2) [OF assms(1) j]] assms(3)
    by (auto simp: page_path_def)
qed

lemma page_path_valid:
  assumes "segment_ok len s" and "{..<256} \<subseteq> I" and "j < pages_of (mem_size s)"
  shows "lpath I (page_path (rva s) j)" and "length (page_path (rva s) j) = 4"
  using va_path_lpath low_index [OF page_number(2) [OF assms(1,3)]] assms(2)
  unfolding page_path_def by blast+

lemma load_segment_image:
  assumes p: "foreign_region I st p len" and ok: "segment_ok len s"
    and pos: "pos + 64 \<le> len" "bytes (mem st) (p + of_nat pos) 64 = kex_segment_cmd_bytes s"
      "List.length (seg_reserved s) = 8"
    and I: "{..<256} \<subseteq> I" and ext: "vm_ext I e st a"
    and free: "4 * pages_of (mem_size s) \<le> card (free_blocks a)"
  shows "\<exists>b. kex_load_segment p (p + of_nat pos) a = Some b \<and>
    vm_ext I (4 * pages_of (mem_size s)) a b \<and>
    loaded I (free_blocks st) b (rva s) (unat (mem_size s)) (seg_image (mem st) p s) \<and>
    (\<forall>q. lpath I q \<longrightarrow> length q = 4 \<longrightarrow> q \<notin> seg_paths s \<longrightarrow> entry b q = entry a q)"
proof -
  note f = segment_fields(3-6) [OF pos(2,3), symmetric]
  have "foreign_region I st (p + of_nat (unat (file_offset s))) (unat (file_size s))"
    using ok by (intro foreign_region_part [OF p]) (simp add: segment_ok_def)
  then have data: "foreign_region I st (p + file_offset s) (unat (file_size s))" by simp
  show ?thesis
    using load_segment_ok [OF f foreign_region_part [OF p pos(1)] data _ _ I _ ext free] ok
    unfolding segment_ok_def seg_paths_def seg_image_def by blast
qed

lemma kex_segments_Cons: "kex_segments (c # cmds) = kex_segments [c] @ kex_segments cmds"
  by (cases c) simp_all

lemma pages_apart_append:
  "pages_apart (xs @ ys) \<longleftrightarrow> pages_apart xs \<and> pages_apart ys \<and>
     (\<forall>s\<in>set xs. \<forall>t\<in>set ys. seg_pages s \<inter> seg_pages t = {})"
  by (induction xs) auto

lemma page_count_append: "page_count (xs @ ys) = page_count xs + page_count ys"
  by (simp add: page_count_def)

lemma kex_cmd_step:
  assumes p: "foreign_region I st p len" and I: "{..<256} \<subseteq> I"
    and cmds: "kex_commands (mem st) p len pos (c # cmds)" and ext: "vm_ext I e st a"
    and ok: "\<forall>s\<in>set (kex_segments [c]). segment_ok len s"
    and free: "4 * page_count (kex_segments [c]) \<le> card (free_blocks a)"
  shows "\<exists>ty b size. ld32 a (p + of_nat pos) = Some ty \<and>
    (if ty = KEX_CMD_SEGMENT then kex_load_segment p (p + of_nat pos) a else Some a) = Some b \<and>
    vm_ext I (4 * page_count (kex_segments [c])) a b \<and>
    ld32 b (p + of_nat pos + 4) = Some size \<and>
    kex_commands (mem st) p len (pos + unat size) cmds \<and>
    (\<forall>s\<in>set (kex_segments [c]).
       loaded I (free_blocks st) b (rva s) (unat (mem_size s)) (seg_image (mem st) p s)) \<and>
    (\<forall>q. lpath I q \<longrightarrow> length q = 4 \<longrightarrow> (\<forall>s\<in>set (kex_segments [c]). q \<notin> seg_paths s) \<longrightarrow>
       entry b q = entry a q)"
proof (cases c)
  case (Segment s)
  then have s: "pos + 64 \<le> len" "bytes (mem st) (p + of_nat pos) 64 = kex_segment_cmd_bytes s"
      "List.length (seg_reserved s) = 8" "cmd_type (head s) = 1"
      "kex_commands (mem st) p len (pos + unat (cmd_bytes (head s))) cmds"
    using cmds by simp_all
  note f = segment_fields(1,2) [OF s(2,3)]
  have okf: "segment_ok len s" "4 * pages_of (mem_size s) \<le> card (free_blocks a)"
    using ok free Segment by (simp_all add: page_count_def)
  obtain b where b: "kex_load_segment p (p + of_nat pos) a = Some b"
      "vm_ext I (4 * pages_of (mem_size s)) a b"
      "loaded I (free_blocks st) b (rva s) (unat (mem_size s)) (seg_image (mem st) p s)"
      "\<forall>q. lpath I q \<longrightarrow> length q = 4 \<longrightarrow> q \<notin> seg_paths s \<longrightarrow> entry b q = entry a q"
    using load_segment_image [OF p okf(1) s(1-3) I ext okf(2)] by blast
  have "ld32 a (p + of_nat pos) = Some 1"
    using foreign_load(2) [OF ext p, of pos 4] s(1,4) f(1) by simp
  moreover have "ld32 b (p + of_nat pos + 4) = Some (cmd_bytes (head s))"
    using foreign_load(2) [OF vm_ext_trans [OF ext b(2)] p, of "pos + 4" 4] s(1) f(2)
    by (simp add: add.assoc)
  ultimately show ?thesis using b s(5) Segment by (simp add: page_count_def)
next
  case (Command d)
  then have s: "pos + 8 \<le> len" "bytes (mem st) (p + of_nat pos) 8 = kex_cmd_bytes d"
      "cmd_type d \<noteq> 1" "kex_commands (mem st) p len (pos + unat (cmd_bytes d)) cmds"
    using cmds by simp_all
  note f = cmd_fields [of "mem st" "p + of_nat pos" 0 d "[]"]
  have "ld32 a (p + of_nat pos) = Some (cmd_type d)"
    using foreign_load(2) [OF ext p, of pos 4] s(1,2) f(1) by simp
  moreover have "ld32 a (p + of_nat pos + 4) = Some (cmd_bytes d)"
    using foreign_load(2) [OF ext p, of "pos + 4" 4] s(1,2) f(2) by (simp add: add.assoc)
  ultimately show ?thesis
    using s(3,4) Command vm_ext_refl [OF vm_ext_frame(6) [OF ext]] by (simp add: page_count_def)
qed

lemma kex_cmd_loop_ok:
  fixes st :: "'a pmm_scheme"
  assumes p: "foreign_region I st p len" "56 \<le> len" and I: "{..<256} \<subseteq> I"
    and count: "unat (ldw 4 (mem st) (p + 8) :: u32) = n"
  shows "kex_commands (mem st) p len pos cmds \<Longrightarrow> i + List.length cmds = n \<Longrightarrow> vm_ext I e st a \<Longrightarrow>
    \<forall>s\<in>set (kex_segments cmds). segment_ok len s \<Longrightarrow> pages_apart (kex_segments cmds) \<Longrightarrow>
    4 * page_count (kex_segments cmds) \<le> card (free_blocks a) \<Longrightarrow>
    \<exists>b. kex_cmd_loop p (of_nat i) (of_nat pos) a = Some b \<and>
      vm_ext I (4 * page_count (kex_segments cmds)) a b \<and>
      (\<forall>s\<in>set (kex_segments cmds).
         loaded I (free_blocks st) b (rva s) (unat (mem_size s)) (seg_image (mem st) p s)) \<and>
      (\<forall>q. lpath I q \<longrightarrow> length q = 4 \<longrightarrow> (\<forall>s\<in>set (kex_segments cmds). q \<notin> seg_paths s) \<longrightarrow>
         entry b q = entry a q)"
proof (induction cmds arbitrary: pos i e a)
  case Nil
  have "ld32 a (p + 8) = Some (ldw 4 (mem st) (p + 8))"
    using foreign_load(2) [OF Nil(3) p(1), of 8 4] p(2) by simp
  moreover have "\<not> of_nat i < (ucast (ldw 4 (mem st) (p + 8) :: u32) :: u64)"
    using Nil(2) count by (auto simp: word_less_nat_alt unsigned_ucast_eq)
  ultimately have "kex_cmd_loop p (of_nat i) (of_nat pos) a = Some a"
    by (subst kex_cmd_loop.simps) simp
  then show ?case using vm_ext_refl [OF vm_ext_frame(6) [OF Nil(3)]] by simp
next
  case (Cons c cmds)
  let ?one = "kex_segments [c]" and ?rest = "kex_segments cmds"
  note app = kex_segments_Cons [of c cmds]
  have ok: "\<forall>s\<in>set ?one. segment_ok len s" "\<forall>s\<in>set ?rest. segment_ok len s"
    and apart: "pages_apart ?rest" "\<forall>s\<in>set ?one. \<forall>t\<in>set ?rest. seg_pages s \<inter> seg_pages t = {}"
    and free: "4 * page_count ?one + 4 * page_count ?rest \<le> card (free_blocks a)"
    using Cons.prems(4-6) unfolding app pages_apart_append page_count_append by auto
  obtain ty b size where b: "ld32 a (p + of_nat pos) = Some ty"
      "(if ty = 1 then kex_load_segment p (p + of_nat pos) a else Some a) = Some b"
      "vm_ext I (4 * page_count ?one) a b" "ld32 b (p + of_nat pos + 4) = Some size"
      "kex_commands (mem st) p len (pos + unat size) cmds"
      "\<forall>s\<in>set ?one. loaded I (free_blocks st) b (rva s) (unat (mem_size s)) (seg_image (mem st) p s)"
      "\<forall>q. lpath I q \<longrightarrow> length q = 4 \<longrightarrow> (\<forall>s\<in>set ?one. q \<notin> seg_paths s) \<longrightarrow>
         entry b q = entry a q"
    using kex_cmd_step [OF p(1) I Cons.prems(1,3) ok(1)] free by fastforce
  have free': "4 * page_count ?rest \<le> card (free_blocks b)"
    using free b(3) by (simp add: vm_ext_def)
  obtain d where d: "kex_cmd_loop p (of_nat (Suc i)) (of_nat (pos + unat size)) b = Some d"
      "vm_ext I (4 * page_count ?rest) b d"
      "\<forall>s\<in>set ?rest. loaded I (free_blocks st) d (rva s) (unat (mem_size s)) (seg_image (mem st) p s)"
      "\<forall>q. lpath I q \<longrightarrow> length q = 4 \<longrightarrow> (\<forall>s\<in>set ?rest. q \<notin> seg_paths s) \<longrightarrow>
         entry d q = entry b q"
    using Cons.IH [OF b(5) _ vm_ext_trans [OF Cons.prems(3) b(3)] ok(2) apart(1) free'] Cons.prems(2)
    by auto
  have load: "ld32 a (p + 8) = Some (ldw 4 (mem st) (p + 8))"
    using foreign_load(2) [OF Cons.prems(3) p(1), of 8 4] p(2) by simp
  have "unat (ldw 4 (mem st) (p + 8) :: u32) < 2 ^ LENGTH(32)" by (rule unsigned_less)
  then have i: "i < 2 ^ 32" "i < n" using Cons.prems(2) count by simp_all
  then have "of_nat i < (ucast (ldw 4 (mem st) (p + 8) :: u32) :: u64)"
    using count unat_of_nat64 [of i] by (simp add: word_less_nat_alt)
  then have run: "kex_cmd_loop p (of_nat i) (of_nat pos) a = Some d"
    using load b(1,2,4) d(1) by (subst kex_cmd_loop.simps) (simp add: ac_simps)
  have ext: "vm_ext I (4 * page_count (kex_segments (c # cmds))) a d"
    using vm_ext_trans [OF b(3) d(2)] unfolding app page_count_append by simp
  have "loaded I (free_blocks st) d (rva s) (unat (mem_size s)) (seg_image (mem st) p s)" if s: "s \<in> set ?one" for s
  proof (rule loaded_ext [OF _ d(2)])
    show "loaded I (free_blocks st) b (rva s) (unat (mem_size s)) (seg_image (mem st) p s)" using b(6) s by blast
    fix j assume j: "4096 * j < unat (mem_size s)"
    then have jp: "j < pages_of (mem_size s)" by (simp only: pages_of_less)
    note sok = bspec [OF ok(1) s]
    have "page_path (rva s) j \<notin> seg_paths t" if t: "t \<in> set ?rest" for t
      using paths_apart [OF sok bspec [OF ok(2) t] _ j] apart(2) s t by simp
    then show "entry d (page_path (rva s) j) = entry b (page_path (rva s) j)"
      using d(4) page_path_valid [OF sok I jp] by simp
  qed
  then show ?case
    using run ext d(3,4) b(7) unfolding app by (intro exI [of _ d]) auto
qed

text \<open>A well-formed program file of \<open>len\<close> bytes at \<open>p\<close>, with its header and its commands.\<close>

definition kex_program ::
  "(u64 \<Rightarrow> u8) \<Rightarrow> u64 \<Rightarrow> nat \<Rightarrow> kex_header \<Rightarrow> kex_command list \<Rightarrow> bool" where
  "kex_program m p len h cmds \<longleftrightarrow> 56 \<le> len \<and> bytes m p 56 = kex_header_bytes h \<and>
     kmagic h = KEX_MAGIC \<and> List.length (hdr_reserved h) = 16 \<and>
     unat (command_count h) = List.length cmds \<and>
     kex_commands m p len (unat (cmd_offset h)) cmds \<and>
     (\<forall>s\<in>set (kex_segments cmds). segment_ok len s \<and> 0x7FF \<notin> seg_pages s) \<and>
     pages_apart (kex_segments cmds)"

lemma magic_check:
  "kregion p (List.length xs) \<Longrightarrow>
     kex_magic_differs p xs st = Some (bytes (mem st) p (List.length xs) \<noteq> xs)"
proof (induction xs arbitrary: p)
  case (Cons x xs)
  then show ?case by (simp add: ld8_kernel kregion_Suc)
qed simp

lemma kex_magic:
  assumes "kregion p 4"
  shows "kex_magic_differs p KEX_MAGIC st = Some (bytes (mem st) p 4 \<noteq> KEX_MAGIC)"
proof -
  have "List.length KEX_MAGIC = 4" by simp
  then show ?thesis using magic_check [of p KEX_MAGIC st] assms by metis
qed

lemma load_kex_ok:
  fixes st :: "'a pmm_scheme"
  assumes wf: "vm_wf I st" and I: "{..<256} \<subseteq> I" and p: "foreign_region I st p len"
    and k: "kex_program (mem st) p len h cmds"
    and free: "4 * (page_count (kex_segments cmds) + 1) \<le> card (free_blocks st)"
  shows "\<exists>st'. load_kex_and_run p fl st =
      Some (Entered (switch_to_user_mode (entry_rva h) fl) st') \<and>
    vm_ext I (4 * (page_count (kex_segments cmds) + 1)) st st' \<and>
    (\<forall>s\<in>set (kex_segments cmds).
       loaded I (free_blocks st) st' (rva s) (unat (mem_size s)) (seg_image (mem st) p s)) \<and>
    (\<exists>f. entry st' (va_path 0x7FF000) = Some (leaf_entry (block_addr f) 7) \<and> held I st' f) \<and>
    (\<forall>q. lpath I q \<longrightarrow> length q = 4 \<longrightarrow> q \<noteq> va_path 0x7FF000 \<longrightarrow>
       (\<forall>s\<in>set (kex_segments cmds). q \<notin> seg_paths s) \<longrightarrow> entry st' q = entry st q)"
proof -
  let ?n = "page_count (kex_segments cmds)"
  have hdr: "56 \<le> len" "bytes (mem st) p 56 = kex_header_bytes h" "kmagic h = KEX_MAGIC"
      "List.length (hdr_reserved h) = 16"
    using k by (simp_all add: kex_program_def)
  note f = header_fields [OF hdr(2) _ hdr(4)]
  have ok: "\<forall>s\<in>set (kex_segments cmds). segment_ok len s" using k by (simp add: kex_program_def)
  have "kregion (p + of_nat 0) 4"
    using foreign_region_part [OF p, of 0 4] hdr(1) by (simp add: foreign_region_def)
  then have magic: "kex_magic_differs p KEX_MAGIC st = Some False"
    using kex_magic [of p st] f(1) hdr(3) by (simp del: kex_magic_differs.simps)
  have refl: "vm_ext I 0 st st" using vm_ext_refl [OF wf] .
  have off: "ld64 st (p + 24) = Some (cmd_offset h)"
    using foreign_load(1) [OF refl p, of 24 8] hdr(1,3) f(4) by simp
  have count: "unat (ldw 4 (mem st) (p + 8) :: u32) = List.length cmds"
    using f(2) hdr(3) k by (simp add: kex_program_def)
  have free1: "4 * ?n \<le> card (free_blocks st)" using free by simp
  have cmds: "kex_commands (mem st) p len (unat (cmd_offset h)) cmds"
    "pages_apart (kex_segments cmds)" using k by (simp_all add: kex_program_def)
  obtain b where b: "kex_cmd_loop p 0 (cmd_offset h) st = Some b" "vm_ext I (4 * ?n) st b"
      "\<forall>s\<in>set (kex_segments cmds).
         loaded I (free_blocks st) b (rva s) (unat (mem_size s)) (seg_image (mem st) p s)"
      "\<forall>q. lpath I q \<longrightarrow> length q = 4 \<longrightarrow> (\<forall>s\<in>set (kex_segments cmds). q \<notin> seg_paths s) \<longrightarrow>
         entry b q = entry st q"
    using kex_cmd_loop_ok [OF p hdr(1) I count cmds(1) _ refl ok cmds(2) free1, of 0] by auto
  have "4 \<le> card (free_blocks b)" using free b(2) by (simp add: vm_ext_def)
  moreover have low: "unat (0x7FF000 :: u64) < 2 ^ 47" by simp
  moreover from this have "page_index 39 0x7FF000 \<in> I" using low_index I by blast
  ultimately obtain f c d where c: "pmm_alloc_block b = Some (block_addr f, c)"
      "vmm_map_page (block_addr f) 0x7FF000 7 c = Some d" "vm_ext I 4 b d" "held I d f"
      "\<forall>q. lpath I q \<longrightarrow> length q = 4 \<longrightarrow> entry d q =
         (if q = va_path 0x7FF000 then Some (leaf_entry (block_addr f) 7) else entry b q)"
    using alloc_map [OF vm_ext_frame(6) [OF b(2)], of "0x7FF000" 7] by blast
  have ext: "vm_ext I (4 * (?n + 1)) st d" using vm_ext_trans [OF b(2) c(3)] by (simp add: add.commute)
  have entry: "ld64 d (p + 16) = Some (entry_rva h)"
    using foreign_load(1) [OF ext p, of 16 8] hdr(1,3) \<open>kmagic h = KEX_MAGIC\<close>
      header_fields(3) [OF hdr(2) _ hdr(4)] by simp
  have "loaded I (free_blocks st) d (rva s) (unat (mem_size s)) (seg_image (mem st) p s)"
    if s: "s \<in> set (kex_segments cmds)" for s
  proof (rule loaded_ext [OF bspec [OF b(3) s] c(3)])
    fix j assume "4096 * j < unat (mem_size s)"
    then have j: "j < pages_of (mem_size s)" by (simp only: pages_of_less)
    note sok = bspec [OF ok s]
    have "va_path 0x7FF000 \<notin> seg_paths s"
      using path_page [OF sok low] k s by (simp add: kex_program_def)
    moreover have "page_path (rva s) j \<in> seg_paths s" using j by (simp add: seg_paths_def)
    ultimately have "page_path (rva s) j \<noteq> va_path 0x7FF000" by metis
    then show "entry d (page_path (rva s) j) = entry b (page_path (rva s) j)"
      using c(5) page_path_valid [OF sok I j] by simp
  qed
  moreover have "entry d (va_path 0x7FF000) = Some (leaf_entry (block_addr f) 7)"
    using c(5) va_path_lpath [OF \<open>page_index 39 0x7FF000 \<in> I\<close>] by simp
  moreover have "load_kex_and_run p fl st = Some (Entered (switch_to_user_mode (entry_rva h) fl) d)"
    using magic off b(1) c(1,2) entry by (simp add: load_kex_and_run_def)
  moreover have "entry d q = entry st q"
    if "lpath I q" "length q = 4" "q \<noteq> va_path 0x7FF000" "\<forall>s\<in>set (kex_segments cmds). q \<notin> seg_paths s" for q
    using that b(4) c(5) by simp
  ultimately show ?thesis using ext c(4) by blast
qed

section \<open>Properties\<close>

text \<open>
  C5. \<open>load_kex_and_run\<close> on a well-formed program, with four frames at hand for each of its
  pages and for the stack: it enters ring 3 at the entry point of the header, and then every
  byte of every segment is found at its address, the bytes of the file first and zeros up to
  the segment's size in memory; the stack page below 0x800000 is mapped, and no memory but
  the frames taken, the page tables and the bitmap has changed.
\<close>

theorem load_kex_places_image:
  assumes "vm_wf I st" and "{..<256} \<subseteq> I" and "foreign_region I st p len"
    and "kex_program (mem st) p len h cmds"
    and "4 * (page_count (kex_segments cmds) + 1) \<le> card (free_blocks st)"
  shows "\<exists>st'. load_kex_and_run p fl st =
      Some (Entered (switch_to_user_mode (entry_rva h) fl) st') \<and> vm_wf I st' \<and>
    (\<forall>s\<in>set (kex_segments cmds). \<forall>i<unat (mem_size s).
       ld8 st' (rva s + of_nat i) =
         Some (if i < unat (file_size s) then mem st (p + file_offset s + of_nat i) else 0)) \<and>
    (\<forall>i<4096. ld8 st' (0x7FF000 + of_nat i) \<noteq> None) \<and>
    (\<forall>x. foreign I st x \<longrightarrow> mem st' x = mem st x)"
proof -
  obtain st' f where st': "load_kex_and_run p fl st =
        Some (Entered (switch_to_user_mode (entry_rva h) fl) st')"
      "vm_ext I (4 * (page_count (kex_segments cmds) + 1)) st st'"
      "\<forall>s\<in>set (kex_segments cmds).
         loaded I (free_blocks st) st' (rva s) (unat (mem_size s)) (seg_image (mem st) p s)"
      "entry st' (va_path 0x7FF000) = Some (leaf_entry (block_addr f) 7)" "held I st' f"
    using load_kex_ok [OF assms] by blast
  have "ld8 st' (0x7FF000 + of_nat i) \<noteq> None" if "i < 4096" for i
    using resolve_mapped [of "0x7FF000" 4096 i st' f] st'(4,5) that
    by (simp add: ld8_def page_path_def held_def)
  moreover have "ld8 st' (rva s + of_nat i) =
      Some (if i < unat (file_size s) then mem st (p + file_offset s + of_nat i) else 0)"
    if "s \<in> set (kex_segments cmds)" "i < unat (mem_size s)" for s i
    using loaded_reads [OF bspec [OF st'(3) that(1)] that(2)] by (simp add: seg_image_def)
  moreover have "mem st' x = mem st x" if "foreign I st x" for x
    using that st'(2) by (simp add: vm_ext_def)
  ultimately show ?thesis using st'(1) vm_ext_frame(6) [OF st'(2)] by blast
qed

text \<open>A program of one segment: three bytes in the file, five in memory.\<close>

definition demo_kex_header :: kex_header where
  "demo_kex_header = \<lparr>kmagic = KEX_MAGIC, version_major = 1, version_minor = 0, arch = 1,
     command_count = 1, required_page_size = 4096, entry_rva = 0x400000, cmd_offset = 56,
     cmd_size = 64, hdr_reserved = replicate 16 0\<rparr>"

definition demo_segment :: kex_segment_cmd where
  "demo_segment = \<lparr>head = \<lparr>cmd_type = 1, cmd_bytes = 64\<rparr>, segment_index = 0, seg_flags = 5,
     rva = 0x400000, mem_size = 5, file_offset = 120, file_size = 3, alignment = 4096,
     seg_reserved = replicate 8 0\<rparr>"

definition demo_kex_file :: "u8 list" where
  "demo_kex_file = kex_header_bytes demo_kex_header @ kex_segment_cmd_bytes demo_segment @ [1, 2, 3]"

definition demo_kex :: pmm where
  "demo_kex = demo_vmm\<lparr>mem := place 0xFFFF800000300000 demo_kex_file (\<lambda>_. 0)\<rparr>"

lemma length_header_bytes:
  "List.length (kmagic h) = 4 \<Longrightarrow> List.length (hdr_reserved h) = 16 \<Longrightarrow>
     List.length (kex_header_bytes h) = 56"
  by (simp add: kex_header_bytes_def)

lemma length_segment_bytes:
  "List.length (seg_reserved s) = 8 \<Longrightarrow> List.length (kex_segment_cmd_bytes s) = 64"
  by (simp add: kex_segment_cmd_bytes_def kex_cmd_bytes_def)

lemma demo_kex_length: "List.length demo_kex_file = 123"
  by (simp add: demo_kex_file_def length_header_bytes length_segment_bytes demo_kex_header_def
      demo_segment_def)

text \<open>A file above the demo state's free frames, tables and bitmap.\<close>

lemma demo_file_page:
  assumes "unat (x - 0xFFFF800000300000) < 2 ^ 32"
  shows "768 \<le> pg 0xFFFF800000000000 x"
proof -
  have eq: "x - 0xFFFF800000000000 = 0x300000 + (x - 0xFFFF800000300000)" by simp
  have "unat (x - 0xFFFF800000000000) = 0x300000 + unat (x - 0xFFFF800000300000)"
    unfolding eq using assms by (subst unat_add_lem [THEN iffD1]) simp_all
  then show ?thesis by (simp add: pg_def)
qed

lemma demo_file_state:
  assumes st: "st = demo_vmm\<lparr>mem := place 0xFFFF800000300000 bs (\<lambda>_. 0)\<rparr>"
    and len: "List.length bs < 2 ^ 32"
  shows "vm_wf I st" "free_blocks st = {..<64}"
    "foreign_region I st 0xFFFF800000300000 (List.length bs)"
    "bytes (mem st) 0xFFFF800000300000 (List.length bs) = bs"
proof -
  let ?m = "place 0xFFFF800000300000 bs (\<lambda>_. 0)"
  have same: "?m x = mem demo_vmm x"
    if "pg (hhdm_offset demo_vmm) x \<in> tabs I demo_vmm \<union> bitmap_pages demo_vmm" for x
  proof -
    have "pg 0xFFFF800000000000 x \<in> {512, 256}"
      using that demo_vmm_bitmap by (auto simp: demo_vmm_tabs)
    then have "\<not> unat (x - 0xFFFF800000300000) < List.length bs"
      using demo_file_page [of x] len by auto
    then show ?thesis by (simp add: place_def)
  qed
  note u = untouched [OF demo_vmm_wf [of I] same]
  show "vm_wf I st" "free_blocks st = {..<64}"
    unfolding st using u(1,2) by (simp_all add: demo_vmm_free)
  have fr: "foreign I st x = foreign I demo_vmm x" for x unfolding st by (rule u(4))
  have "foreign I st (0xFFFF800000300000 + of_nat i)" if "i < List.length bs" for i
  proof -
    have "unat (of_nat i :: u64) = i" using that len by (intro unat_of_nat64) simp
    then have "768 \<le> pg 0xFFFF800000000000 (0xFFFF800000300000 + of_nat i)"
      using that len by (intro demo_file_page) simp
    then show ?thesis
      using demo_vmm_bitmap unfolding fr by (auto simp: foreign_def demo_vmm_tabs demo_vmm_free)
  qed
  moreover have "kregion 0xFFFF800000300000 (List.length bs)"
    using len by (simp add: kregion_def khalf_def)
  ultimately show "foreign_region I st 0xFFFF800000300000 (List.length bs)"
    by (simp add: foreign_region_def)
  show "bytes (mem st) 0xFFFF800000300000 (List.length bs) = bs"
    using len by (simp add: st bytes_place)
qed

lemma demo_kex_state:
  "vm_wf I demo_kex" "free_blocks demo_kex = {..<64}"
  "foreign_region I demo_kex 0xFFFF800000300000 123"
  "bytes (mem demo_kex) 0xFFFF800000300000 123 = demo_kex_file"
  using demo_file_state [OF demo_kex_def] unfolding demo_kex_length by simp_all

lemma demo_kex_program:
  "kex_program (mem demo_kex) 0xFFFF800000300000 123 demo_kex_header [Segment demo_segment]"
proof -
  let ?p = "0xFFFF800000300000 :: u64" and ?m = "mem demo_kex"
  have all: "bytes ?m ?p 123 = kex_header_bytes demo_kex_header @
      kex_segment_cmd_bytes demo_segment @ [1, 2, 3]"
    unfolding demo_kex_state(4) demo_kex_file_def ..
  have len: "List.length (kex_header_bytes demo_kex_header) = 56"
      "List.length (kex_segment_cmd_bytes demo_segment) = 64"
    by (simp_all add: length_header_bytes length_segment_bytes demo_kex_header_def demo_segment_def)
  have "bytes ?m ?p 56 = kex_header_bytes demo_kex_header"
    using bytes_field [of ?m ?p 123 "[]" _ _ 0 56] all len(1) by simp
  moreover have "bytes ?m (?p + of_nat 56) 64 = kex_segment_cmd_bytes demo_segment"
    using bytes_field [OF all len] .
  ultimately show ?thesis
    by (simp add: kex_program_def demo_kex_header_def demo_segment_def segment_ok_def
        seg_pages_def page_range_def pages_of_def)
qed

theorem load_kex_places_image_witness:
  "\<exists>st'. load_kex_and_run 0xFFFF800000300000 0 demo_kex =
       Some (Entered (switch_to_user_mode 0x400000 0) st') \<and>
     ld8 st' 0x400002 = Some 3 \<and> ld8 st' 0x400004 = Some 0"
proof -
  have seg: "rva demo_segment = 0x400000" "mem_size demo_segment = 5" "file_size demo_segment = 3"
      "file_offset demo_segment = 120" "entry_rva demo_kex_header = 0x400000"
    by (simp_all add: demo_segment_def demo_kex_header_def)
  have byte: "mem demo_kex (0xFFFF800000300000 + 122) = 3"
    by (simp add: demo_kex_def place_def demo_kex_length)
      (simp add: demo_kex_file_def nth_append length_header_bytes length_segment_bytes
        demo_kex_header_def demo_segment_def)
  have count: "page_count (kex_segments [Segment demo_segment]) = 1"
    by (simp add: page_count_def pages_of_def seg)
  obtain st' where st': "load_kex_and_run 0xFFFF800000300000 0 demo_kex =
       Some (Entered (switch_to_user_mode 0x400000 0) st')"
     "\<forall>i<5. ld8 st' (0x400000 + of_nat i) =
        Some (if i < 3 then mem demo_kex (0xFFFF800000300000 + 120 + of_nat i) else 0)"
  proof -
    have free: "4 * (page_count (kex_segments [Segment demo_segment]) + 1) \<le> card (free_blocks demo_kex)"
      by (simp add: count demo_kex_state(2) del: kex_segments.simps)
    obtain st' where "load_kex_and_run 0xFFFF800000300000 0 demo_kex =
          Some (Entered (switch_to_user_mode (entry_rva demo_kex_header) 0) st')"
        "\<forall>s\<in>set (kex_segments [Segment demo_segment]). \<forall>i<unat (mem_size s).
           ld8 st' (rva s + of_nat i) = Some (if i < unat (file_size s)
             then mem demo_kex (0xFFFF800000300000 + file_offset s + of_nat i) else 0)"
      using load_kex_places_image
        [OF demo_kex_state(1) order_refl demo_kex_state(3) demo_kex_program free, of 0] by blast
    moreover from bspec [OF this(2), of demo_segment]
    have "\<forall>i<5. ld8 st' (0x400000 + of_nat i) =
        Some (if i < 3 then mem demo_kex (0xFFFF800000300000 + 120 + of_nat i) else 0)"
      by (simp add: seg)
    ultimately show thesis using that [of st'] by (simp only: seg)
  qed
  then show ?thesis using spec [OF st'(2), of 2] spec [OF st'(2), of 4] byte by simp
qed

text \<open>
  C35. A file that does not start with the magic number is not run: \<open>load_kex_and_run\<close> prints its
  error message and returns, with the memory and the page tables as they were.
\<close>

theorem load_kex_rejects_bad_magic:
  assumes "kregion p 4" and "bytes (mem st) p 4 \<noteq> [0x4B, 0x45, 0x58, 0]" and "tx_live st"
  shows "\<exists>st'. load_kex_and_run p fl st = Some (Rejected st') \<and>
    printed (lit (''Error: Invalid KEX magic!'' @ nl)) st st'"
proof -
  have "kex_magic_differs p KEX_MAGIC st = Some True"
    using kex_magic [of p st] assms(1,2) by (simp del: kex_magic_differs.simps)
  moreover obtain out st' where "render Map.empty (''Error: Invalid KEX magic!'' @ nl) [] = Some out"
      "kprintf (''Error: Invalid KEX magic!'' @ nl) [] st = Some st'" "printed out st st'"
    using kprintf_plain [of "''Error: Invalid KEX magic!'' @ nl" "[]" st] assms(3) by auto
  moreover from this(1) have "out = lit (''Error: Invalid KEX magic!'' @ nl)" by simp
  ultimately show ?thesis by (simp add: load_kex_and_run_def)
qed

theorem load_kex_rejects_bad_magic_witness:
  "\<exists>st'. load_kex_and_run 0xFFFF800000001000 0 demo_pmm = Some (Rejected st')"
proof -
  have "tx_live demo_pmm" using demo_pmm_wf by (simp add: pmm_wf_def)
  moreover have "bytes (mem demo_pmm) 0xFFFF800000001000 4 \<noteq> [0x4B, 0x45, 0x58, 0]"
  proof
    assume "bytes (mem demo_pmm) 0xFFFF800000001000 4 = [0x4B, 0x45, 0x58, 0]"
    moreover have "bytes (mem demo_pmm) 0xFFFF800000001000 4 ! 0 = 0"
      by (simp add: nth_bytes demo_pmm_def)
    ultimately show False by simp
  qed
  ultimately show ?thesis
    using load_kex_rejects_bad_magic [of "0xFFFF800000001000" demo_pmm 0]
    by (auto simp: kregion_def khalf_def)
qed

end
