(* ===== verification/KexLd.thy ===== *)
theory KexLd
  imports Kex
begin

text \<open>
  The linker that turns an ELF executable into a KEX program (kex-ld/kex-ld.cpp): files as byte
  lists, the streams of the C++ library with their position and failure flag, one definition
  per loop of \<open>main\<close>. The system header elf.h and OpenSSL's SHA-256 are not part of the
  repository and are parameters of the model. The lemmas show that what the linker writes is a
  program the kernel's loader accepts, and that it carries the bytes of the ELF segments.
\<close>

unbundle bit_operations_syntax

section \<open>What elf.h provides\<close>

text \<open>
  The fields of the two ELF headers that the linker reads; those of 32-bit files are widened by
  the assignments of the linker. \<open>elf_h\<close> holds the sizes, the decoders of the structures and
  the constants.
\<close>

record elf_ehdr =
  e_entry :: u64
  e_machine :: u16
  e_phoff :: u64
  e_phnum :: u16

record elf_phdr =
  p_type :: u32
  p_flags :: u32
  p_vaddr :: u64
  p_memsz :: u64
  p_offset :: u64
  p_filesz :: u64

record elf_h =
  EI_NIDENT :: nat
  EI_CLASS :: nat
  ELFCLASS32 :: u8
  ehdr32_size :: nat
  ehdr32 :: "u8 list \<Rightarrow> elf_ehdr"
  phdr32_size :: nat
  phdr32 :: "u8 list \<Rightarrow> elf_phdr"
  ehdr64_size :: nat
  ehdr64 :: "u8 list \<Rightarrow> elf_ehdr"
  phdr64_size :: nat
  phdr64 :: "u8 list \<Rightarrow> elf_phdr"
  PT_LOAD :: u32
  PF_R :: u32
  PF_W :: u32
  PF_X :: u32
  EM_X86_64 :: u16
  EM_386 :: u16

section \<open>Input streams\<close>

text \<open>
  A read that meets the end of the file delivers what is left and sets the failure flag; with
  the flag set, reads and seeks do nothing. A seek to an offset that is negative as a
  \<open>streamoff\<close> fails.
\<close>

record ifstream =
  idata :: "u8 list"
  ipos :: nat
  ifail :: bool

definition iread :: "nat \<Rightarrow> ifstream \<Rightarrow> u8 list \<times> ifstream" where
  "iread n f =
     (if ifail f then ([], f)
      else let xs = take n (drop (ipos f) (idata f))
           in (xs, f\<lparr>ipos := ipos f + List.length xs, ifail := List.length xs < n\<rparr>))"

definition iseekg :: "u64 \<Rightarrow> ifstream \<Rightarrow> ifstream" where
  "iseekg off f =
     (if ifail f then f
      else if 2 ^ 63 \<le> off then f\<lparr>ifail := True\<rparr>
      else f\<lparr>ipos := unat off\<rparr>)"

text \<open>
  A structure on the stack that the read did not fill completely has undefined contents:
  \<open>None\<close>.
\<close>

definition iread_all :: "nat \<Rightarrow> ifstream \<Rightarrow> (u8 list \<times> ifstream) option" where
  "iread_all n f = (let (xs, f) = iread n f in if List.length xs = n then Some (xs, f) else None)"

section \<open>kex-ld.cpp\<close>

definition write_padding :: "u8 list \<Rightarrow> u64 \<Rightarrow> u8 list" where
  "write_padding out target =
     (let current = of_nat (List.length out)
      in if current < target then out @ replicate (unat (target - current)) 0 else out)"

record temp_seg =
  ts_flags :: u32
  ts_vaddr :: u64
  ts_memsz :: u64
  ts_off :: u64
  ts_filesz :: u64

fun read_phdrs :: "elf_h \<Rightarrow> nat \<Rightarrow> (u8 list \<Rightarrow> elf_phdr) \<Rightarrow> nat \<Rightarrow> temp_seg list \<Rightarrow> ifstream \<Rightarrow>
    (temp_seg list \<times> ifstream) option" where
  "read_phdrs eh sz dec 0 segs f = Some (segs, f)"
| "read_phdrs eh sz dec (Suc n) segs f =
     do {
       (b, f) \<leftarrow> iread_all sz f;
       let ph = dec b;
       let segs = (if p_type ph = PT_LOAD eh
                   then segs @ [\<lparr>ts_flags = p_flags ph, ts_vaddr = p_vaddr ph,
                     ts_memsz = p_memsz ph, ts_off = p_offset ph, ts_filesz = p_filesz ph\<rparr>]
                   else segs);
       read_phdrs eh sz dec n segs f
     }"

definition read_elf ::
  "elf_h \<Rightarrow> ifstream \<Rightarrow> (u64 \<times> u16 \<times> temp_seg list \<times> ifstream) option" where
  "read_elf eh f =
     do {
       (e_ident, f) \<leftarrow> iread_all (EI_NIDENT eh) f;
       let f = iseekg 0 f;
       if e_ident ! EI_CLASS eh = ELFCLASS32 eh then
         do {
           (b, f) \<leftarrow> iread_all (ehdr32_size eh) f;
           let ehdr = ehdr32 eh b;
           let f = iseekg (e_phoff ehdr) f;
           (segs, f) \<leftarrow> read_phdrs eh (phdr32_size eh) (phdr32 eh) (unat (e_phnum ehdr)) [] f;
           Some (e_entry ehdr, e_machine ehdr, segs, f)
         }
       else
         do {
           (b, f) \<leftarrow> iread_all (ehdr64_size eh) f;
           let ehdr = ehdr64 eh b;
           let f = iseekg (e_phoff ehdr) f;
           (segs, f) \<leftarrow> read_phdrs eh (phdr64_size eh) (phdr64 eh) (unat (e_phnum ehdr)) [] f;
           Some (e_entry ehdr, e_machine ehdr, segs, f)
         }
     }"

definition make_header :: "elf_h \<Rightarrow> u64 \<Rightarrow> u16 \<Rightarrow> nat \<Rightarrow> kex_header" where
  "make_header eh entry_point machine n =
     \<lparr>kmagic = KEX_MAGIC, version_major = 1, version_minor = 0,
      arch = (if machine = EM_X86_64 eh then KEX_ARCH_X86_64
              else if machine = EM_386 eh then 0x8001 else 0xFFFF),
      command_count = of_nat (n + 1), required_page_size = 4096, entry_rva = entry_point,
      cmd_offset = 56, cmd_size = of_nat n * 64 + 40, hdr_reserved = replicate 16 0\<rparr>"

definition page_up :: "u64 \<Rightarrow> u64" where
  "page_up x = (x + 4095) AND NOT 4095"

fun make_segs :: "elf_h \<Rightarrow> u32 \<Rightarrow> u64 \<Rightarrow> temp_seg list \<Rightarrow> kex_segment_cmd list" where
  "make_segs eh i current_file_pos [] = []"
| "make_segs eh i current_file_pos (e # es) =
     (let fl = (if ts_flags e AND PF_R eh \<noteq> 0 then 1 else 0);
          fl = (if ts_flags e AND PF_W eh \<noteq> 0 then fl OR 2 else fl);
          fl = (if ts_flags e AND PF_X eh \<noteq> 0 then fl OR 4 else fl);
          pos = (if 0 < ts_filesz e then current_file_pos else 0);
          current_file_pos = (if 0 < ts_filesz e then page_up (current_file_pos + ts_filesz e)
                              else current_file_pos)
      in \<lparr>head = \<lparr>cmd_type = KEX_CMD_SEGMENT, cmd_bytes = 64\<rparr>, segment_index = i,
          seg_flags = fl, rva = ts_vaddr e, mem_size = ts_memsz e, file_offset = pos,
          file_size = ts_filesz e, alignment = 4096, seg_reserved = replicate 8 0\<rparr>
         # make_segs eh (i + 1) current_file_pos es)"

text \<open>
  The buffer is zero-filled before the read. The streams' console output is left out, and the
  output file is taken to accept every write.
\<close>

fun write_data :: "(temp_seg \<times> kex_segment_cmd) list \<Rightarrow> ifstream \<Rightarrow> u8 list \<Rightarrow> u8 list" where
  "write_data [] f out = out"
| "write_data ((e, ks) # rest) f out =
     (if 0 < file_size ks then
        (let out = write_padding out (file_offset ks);
             f = iseekg (ts_off e) f;
             (xs, f) = iread (unat (file_size ks)) f;
             buffer = xs @ replicate (unat (file_size ks) - List.length xs) 0
         in write_data rest f (out @ buffer))
      else write_data rest f out)"

definition kex_link :: "elf_h \<Rightarrow> (u8 list \<Rightarrow> u8 list) \<Rightarrow> u8 list \<Rightarrow> u8 list option" where
  "kex_link eh SHA256 elf =
     do {
       (entry_point, machine, elf_segs, elf_f) \<leftarrow>
         read_elf eh \<lparr>idata = elf, ipos = 0, ifail = False\<rparr>;
       let hd = make_header eh entry_point machine (List.length elf_segs);
       let kex_segs = make_segs eh 0 (page_up (cmd_offset hd + cmd_size hd)) elf_segs;
       let out = kex_header_bytes hd;
       let out = out @ concat (map kex_segment_cmd_bytes kex_segs);
       let integrity_pos = List.length out;
       let icmd = \<lparr>ihead = \<lparr>cmd_type = KEX_CMD_INTEGRITY, cmd_bytes = 40\<rparr>, hash = replicate 32 0\<rparr>;
       let out = out @ kex_integrity_cmd_bytes icmd;
       let full_file = write_data (zip elf_segs kex_segs) elf_f out;
       let icmd = icmd\<lparr>hash := SHA256 (take integrity_pos full_file)\<rparr>;
       let b = kex_integrity_cmd_bytes icmd;
       Some (take integrity_pos full_file @ b @ drop (integrity_pos + List.length b) full_file)
     }"

text \<open>\<open>main\<close>: the exit status, and the output file when one was written.\<close>

definition kex_ld_main ::
  "elf_h \<Rightarrow> (u8 list \<Rightarrow> u8 list) \<Rightarrow> nat \<Rightarrow> u8 list option \<Rightarrow> (nat \<times> u8 list option) option" where
  "kex_ld_main eh SHA256 argc elf =
     (if argc < 3 then Some (1, None)
      else case elf of
        None \<Rightarrow> Some (1, None)
      | Some elf \<Rightarrow> map_option (\<lambda>file. (0, Some file)) (kex_link eh SHA256 elf))"

section \<open>What the parts of the linker do\<close>

lemma iread_all_Some:
  assumes "iread_all n f = Some (xs, f')"
  shows "idata f' = idata f" and "List.length xs = n" and "0 < n \<Longrightarrow> \<not> ifail f'"
  using assms by (auto simp: iread_all_def iread_def Let_def split: if_splits)

lemma iseekg_data [simp]: "idata (iseekg off f) = idata f"
  by (simp add: iseekg_def)

lemma read_phdrs_Some:
  "read_phdrs eh sz dec n segs f = Some (segs', f') \<Longrightarrow> 0 < sz \<Longrightarrow>
     idata f' = idata f \<and> List.length segs' \<le> List.length segs + n \<and>
     (0 < n \<longrightarrow> \<not> ifail f') \<and> (n = 0 \<longrightarrow> segs' = segs)"
proof (induction n arbitrary: segs f)
  case (Suc n)
  let ?s = "\<lambda>b. if p_type (dec b) = PT_LOAD eh
    then segs @ [\<lparr>ts_flags = p_flags (dec b), ts_vaddr = p_vaddr (dec b), ts_memsz = p_memsz (dec b),
      ts_off = p_offset (dec b), ts_filesz = p_filesz (dec b)\<rparr>] else segs"
  from Suc.prems(1) obtain b f1 where *: "iread_all sz f = Some (b, f1)"
      "read_phdrs eh sz dec n (?s b) f1 = Some (segs', f')"
    by (auto simp: bind_eq_Some_conv Let_def)
  have "List.length (?s b) \<le> Suc (List.length segs)" by simp
  then show ?case
    using Suc.IH [OF *(2) Suc.prems(2)] iread_all_Some [OF *(1)] *(2) Suc.prems(2)
    by (cases "n = 0") auto
qed simp

lemma unat_u16_le: "unat (w :: u16) \<le> 65535"
proof -
  have "unat w < 2 ^ LENGTH(16)" by (rule unsigned_less)
  then show ?thesis by simp
qed

lemma read_elf_Some:
  assumes "read_elf eh f = Some (entry_point, machine, segs, f')"
    and "0 < phdr32_size eh" and "0 < phdr64_size eh"
  shows "idata f' = idata f" and "List.length segs \<le> 65535" and "segs \<noteq> [] \<Longrightarrow> \<not> ifail f'"
proof -
  obtain b f1 b2 f2 where 1: "iread_all (EI_NIDENT eh) f = Some (b, f1)"
    using assms(1) by (auto simp: read_elf_def bind_eq_Some_conv)
  have "\<exists>sz dec n f2. 0 < sz \<and> n \<le> 65535 \<and> idata f2 = idata f \<and>
      read_phdrs eh sz dec n [] f2 = Some (segs, f')"
  proof (cases "b ! EI_CLASS eh = ELFCLASS32 eh")
    case True
    then obtain c g where "iread_all (ehdr32_size eh) (iseekg 0 f1) = Some (c, g)"
        "read_phdrs eh (phdr32_size eh) (phdr32 eh) (unat (e_phnum (ehdr32 eh c))) []
           (iseekg (e_phoff (ehdr32 eh c)) g) = Some (segs, f')"
      using assms(1) 1 by (auto simp: read_elf_def bind_eq_Some_conv Let_def)
    then show ?thesis
      using assms(2) iread_all_Some(1) 1 unat_u16_le by (metis iseekg_data)
  next
    case False
    then obtain c g where "iread_all (ehdr64_size eh) (iseekg 0 f1) = Some (c, g)"
        "read_phdrs eh (phdr64_size eh) (phdr64 eh) (unat (e_phnum (ehdr64 eh c))) []
           (iseekg (e_phoff (ehdr64 eh c)) g) = Some (segs, f')"
      using assms(1) 1 by (auto simp: read_elf_def bind_eq_Some_conv Let_def)
    then show ?thesis
      using assms(3) iread_all_Some(1) 1 unat_u16_le by (metis iseekg_data)
  qed
  then obtain sz dec n f2 where *: "0 < sz" "n \<le> 65535" "idata f2 = idata f"
      "read_phdrs eh sz dec n [] f2 = Some (segs, f')" by blast
  note r = read_phdrs_Some [OF *(4,1)]
  show "idata f' = idata f" "List.length segs \<le> 65535" using r *(2,3) by auto
  show "segs \<noteq> [] \<Longrightarrow> \<not> ifail f'" using r by (cases "n = 0") auto
qed

lemma page_up_bounds:
  assumes "unat x + 4095 < 2 ^ 64"
  shows "unat x \<le> unat (page_up x)" and "unat (page_up x) \<le> unat x + 4095"
proof -
  have "page_up x = push_bit 12 (drop_bit 12 (x + 4095))"
  proof -
    have m: "(4095 :: u64) = mask 12" by (simp add: mask_eq_exp_minus_1)
    show ?thesis
      unfolding page_up_def unfolding m by (rule bit_word_eqI) (auto simp: bit_simps)
  qed
  moreover have "unat (x + 4095) = unat x + 4095"
    using assms by (subst unat_add_lem [THEN iffD1]) simp_all
  ultimately have "unat (page_up x) = ((unat x + 4095) div 4096 * 4096) mod 2 ^ 64"
    by (simp add: push_bit_eq_mult drop_bit_eq_div unat_word_ariths(2) unat_div)
  also have "\<dots> = (unat x + 4095) div 4096 * 4096"
    using assms by (intro mod_less) (simp add: le_less_trans [OF div_times_less_eq_dividend])
  finally show "unat x \<le> unat (page_up x)" "unat (page_up x) \<le> unat x + 4095" by linarith+
qed

text \<open>A segment command for each segment, with the same addresses and sizes.\<close>

definition same_segment :: "temp_seg \<Rightarrow> kex_segment_cmd \<Rightarrow> bool" where
  "same_segment e s \<longleftrightarrow> head s = \<lparr>cmd_type = KEX_CMD_SEGMENT, cmd_bytes = 64\<rparr> \<and> rva s = ts_vaddr e \<and>
     mem_size s = ts_memsz e \<and> file_size s = ts_filesz e \<and> List.length (seg_reserved s) = 8 \<and>
     (ts_filesz e = 0 \<longrightarrow> file_offset s = 0)"

lemma make_segs_same: "list_all2 same_segment es (make_segs eh i pos es)"
  by (induction es arbitrary: i pos) (simp_all add: same_segment_def Let_def word_gt_0)

lemma length_make_segs [simp]: "List.length (make_segs eh i pos es) = List.length es"
  using make_segs_same [THEN list_all2_lengthD] by metis

section \<open>The data of the segments\<close>

text \<open>\<open>carried elf out x\<close>: the output holds the bytes of an ELF segment where its command says.\<close>

definition slice :: "nat \<Rightarrow> nat \<Rightarrow> u8 list \<Rightarrow> u8 list" where
  "slice i n xs = take n (drop i xs)"

definition carried :: "u8 list \<Rightarrow> u8 list \<Rightarrow> temp_seg \<times> kex_segment_cmd \<Rightarrow> bool" where
  "carried elf out x \<longleftrightarrow> (case x of (e, s) \<Rightarrow>
     unat (file_offset s) + unat (ts_filesz e) \<le> List.length out \<and>
     slice (unat (file_offset s)) (unat (ts_filesz e)) out =
       slice (unat (ts_off e)) (unat (ts_filesz e)) elf)"

lemma carried_append: "carried elf out x \<Longrightarrow> carried elf (out @ ext) x"
  by (auto simp: carried_def slice_def)

lemma carried_here:
  assumes "List.length out = unat (file_offset s)" and "xs = slice (unat (ts_off e)) (unat (ts_filesz e)) elf"
    and "List.length xs = unat (ts_filesz e)"
  shows "carried elf (out @ xs) (e, s)"
  using assms by (simp add: carried_def slice_def)

definition in_file :: "u8 list \<Rightarrow> temp_seg \<Rightarrow> bool" where
  "in_file elf e \<longleftrightarrow> 0 < ts_filesz e \<longrightarrow> unat (ts_off e) + unat (ts_filesz e) \<le> List.length elf"

definition data_bound :: "temp_seg list \<Rightarrow> nat" where
  "data_bound es = (\<Sum>e\<leftarrow>es. unat (ts_filesz e) + 4096)"

lemma pad_to:
  assumes "List.length out \<le> unat pos"
  shows "\<exists>k. write_padding out pos = out @ replicate k 0 \<and> List.length out + k = unat pos"
proof -
  have len: "unat (of_nat (List.length out) :: u64) = List.length out"
    using assms unsigned_less [of pos] by (intro unat_of_nat64) (simp add: le_less_trans)
  show ?thesis
  proof (cases "of_nat (List.length out) < pos")
    case True
    then have "unat (pos - of_nat (List.length out)) = unat pos - List.length out"
      using len by (subst unat_sub) simp_all
    then show ?thesis using True assms by (simp add: write_padding_def)
  next
    case False
    then have "List.length out = unat pos" using assms len by (simp add: word_less_nat_alt)
    then show ?thesis using False by (simp add: write_padding_def)
  qed
qed

lemma read_segment:
  assumes "\<not> ifail f" and "in_file (idata f) e" and "0 < ts_filesz e" and "List.length (idata f) < 2 ^ 63"
  defines "xs \<equiv> slice (unat (ts_off e)) (unat (ts_filesz e)) (idata f)"
  shows "List.length xs = unat (ts_filesz e)"
    and "\<exists>f'. iread (unat (ts_filesz e)) (iseekg (ts_off e) f) = (xs, f') \<and> \<not> ifail f' \<and>
      idata f' = idata f"
proof -
  have le: "unat (ts_off e) + unat (ts_filesz e) \<le> List.length (idata f)"
    using assms(2,3) by (simp add: in_file_def)
  then have off: "\<not> 2 ^ 63 \<le> ts_off e" using assms(4) by (simp add: word_le_nat_alt)
  show len: "List.length xs = unat (ts_filesz e)" using le by (simp add: xs_def slice_def)
  show "\<exists>f'. iread (unat (ts_filesz e)) (iseekg (ts_off e) f) = (xs, f') \<and> \<not> ifail f' \<and>
      idata f' = idata f"
    using len off assms(1) by (simp add: iread_def iseekg_def xs_def slice_def Let_def)
qed

lemma write_data_ok:
  assumes "List.length elf < 2 ^ 63"
  shows "\<forall>e\<in>set es. in_file elf e \<Longrightarrow> \<not> ifail f \<Longrightarrow> idata f = elf \<Longrightarrow>
    List.length out \<le> unat pos \<Longrightarrow> unat pos + data_bound es < 2 ^ 64 \<Longrightarrow>
    \<exists>ext. write_data (zip es (make_segs eh i pos es)) f out = out @ ext \<and>
      (\<forall>x\<in>set (zip es (make_segs eh i pos es)).
         carried elf (out @ ext) x \<and> (0 < ts_filesz (fst x) \<longrightarrow> unat pos \<le> unat (file_offset (snd x))))"
proof (induction es arbitrary: f out pos i)
  case Nil
  then show ?case by simp
next
  case (Cons e es)
  show ?case
  proof (cases "0 < ts_filesz e")
    case False
    then have z: "ts_filesz e = 0" by (simp add: word_gt_0)
    have "unat pos + data_bound es < 2 ^ 64" using Cons.prems(5) by (simp add: data_bound_def)
    then obtain ext where "write_data (zip es (make_segs eh (i + 1) pos es)) f out = out @ ext"
        "\<forall>x\<in>set (zip es (make_segs eh (i + 1) pos es)). carried elf (out @ ext) x \<and>
           (0 < ts_filesz (fst x) \<longrightarrow> unat pos \<le> unat (file_offset (snd x)))"
      using Cons.IH [of f out pos "i + 1"] Cons.prems(1-4) by auto
    then show ?thesis by (simp add: z Let_def carried_def slice_def)
  next
    case True
    let ?xs = "slice (unat (ts_off e)) (unat (ts_filesz e)) elf"
    let ?next = "page_up (pos + ts_filesz e)"
    obtain k where k: "write_padding out pos = out @ replicate k 0" "List.length out + k = unat pos"
      using pad_to [OF Cons.prems(4)] by blast
    have inf: "in_file elf e" using Cons.prems(1) by simp
    note rd = read_segment [of f e, unfolded Cons.prems(3), OF Cons.prems(2) inf True assms]
    obtain f' where f': "iread (unat (ts_filesz e)) (iseekg (ts_off e) f) = (?xs, f')" "\<not> ifail f'"
        "idata f' = elf" using rd(2) by blast
    have bound: "unat pos + unat (ts_filesz e) + 4096 + data_bound es < 2 ^ 64"
      using Cons.prems(5) by (simp add: data_bound_def)
    then have sum: "unat (pos + ts_filesz e) = unat pos + unat (ts_filesz e)"
      by (subst unat_add_lem [THEN iffD1]) simp_all
    have up: "unat pos + unat (ts_filesz e) \<le> unat ?next" "unat ?next + data_bound es < 2 ^ 64"
      using page_up_bounds [of "pos + ts_filesz e"] bound unfolding sum by linarith+
    let ?out = "(out @ replicate k 0) @ ?xs"
    have len: "List.length ?out \<le> unat ?next" using k(2) rd(1) up(1) by simp
    obtain ext where ext: "write_data (zip es (make_segs eh (i + 1) ?next es)) f' ?out = ?out @ ext"
        "\<forall>x\<in>set (zip es (make_segs eh (i + 1) ?next es)). carried elf (?out @ ext) x \<and>
           (0 < ts_filesz (fst x) \<longrightarrow> unat ?next \<le> unat (file_offset (snd x)))"
      using Cons.IH [OF _ f'(2,3) len up(2), of "i + 1"] Cons.prems(1) by auto
    obtain sc where s: "make_segs eh i pos (e # es) = sc # make_segs eh (i + 1) ?next es"
        "file_offset sc = pos" "file_size sc = ts_filesz e"
      using True by (simp add: Let_def)
    have "carried elf ?out (e, sc)" using k(2) rd(1) s(2) by (intro carried_here) simp_all
    then have here: "carried elf (?out @ ext) (e, sc)" by (rule carried_append)
    have run: "write_data (zip (e # es) (make_segs eh i pos (e # es))) f out = ?out @ ext"
      unfolding s(1) using ext(1) f'(1) k(1) rd(1) True s(2,3) by (simp add: Let_def)
    have "\<forall>x\<in>set (zip (e # es) (make_segs eh i pos (e # es))). carried elf (?out @ ext) x \<and>
        (0 < ts_filesz (fst x) \<longrightarrow> unat pos \<le> unat (file_offset (snd x)))"
      unfolding s(1) using here ext(2) up(1) s(2) by fastforce
    then show ?thesis using run by (intro exI [of _ "replicate k 0 @ ?xs @ ext"]) simp
  qed
qed

section \<open>The whole file\<close>

lemma data_bound_le:
  "\<forall>e\<in>set es. unat (ts_filesz e) \<le> b \<Longrightarrow> data_bound es \<le> List.length es * (b + 4096)"
proof (induction es)
  case (Cons e es)
  then have "data_bound es \<le> List.length es * (b + 4096)" "unat (ts_filesz e) \<le> b" by simp_all
  then show ?case by (simp add: data_bound_def)
qed (simp add: data_bound_def)

lemma length_concat_same:
  "\<forall>x\<in>set xs. List.length (g x) = k \<Longrightarrow> List.length (concat (map g xs)) = k * List.length xs"
  by (induction xs) simp_all

lemma carried_patch:
  assumes "carried elf (a @ b @ c) x" and "List.length b = List.length b'"
    and "0 < ts_filesz (fst x) \<Longrightarrow> List.length a + List.length b \<le> unat (file_offset (snd x))"
  shows "carried elf (a @ b' @ c) x"
proof -
  obtain e s where x: "x = (e, s)" by (cases x)
  show ?thesis
  proof (cases "0 < ts_filesz e")
    case True
    then have "drop (unat (file_offset s)) (a @ b @ c) = drop (unat (file_offset s)) (a @ b' @ c)"
      using assms(2,3) x by simp
    then show ?thesis using assms(1,2) x by (simp add: carried_def slice_def)
  next
    case False
    then have "ts_filesz e = 0" by (simp add: word_gt_0)
    then show ?thesis using assms(1,2) x by (simp add: carried_def slice_def)
  qed
qed

lemma kex_link_ok:
  assumes read: "read_elf eh \<lparr>idata = elf, ipos = 0, ifail = False\<rparr> =
      Some (entry_point, machine, es, f)"
    and sizes: "0 < phdr32_size eh" "0 < phdr64_size eh"
    and elf: "List.length elf < 2 ^ 63" "\<forall>e\<in>set es. in_file elf e \<and> unat (ts_filesz e) \<le> 2 ^ 47"
    and sha: "\<And>x. List.length (SHA256 x) = 32"
  shows "\<exists>ks ext. list_all2 same_segment es ks \<and>
    (let a = kex_header_bytes (make_header eh entry_point machine (List.length es)) @
           concat (map kex_segment_cmd_bytes ks);
         file = a @ kex_integrity_cmd_bytes \<lparr>ihead = \<lparr>cmd_type = KEX_CMD_INTEGRITY, cmd_bytes = 40\<rparr>,
           hash = SHA256 a\<rparr> @ ext
     in kex_link eh SHA256 elf = Some file \<and> (\<forall>x\<in>set (zip es ks). carried elf file x))"
proof -
  let ?n = "List.length es"
  let ?hd = "make_header eh entry_point machine ?n"
  let ?pos = "page_up (cmd_offset ?hd + cmd_size ?hd)"
  let ?ks = "make_segs eh 0 ?pos es"
  let ?a = "kex_header_bytes ?hd @ concat (map kex_segment_cmd_bytes ?ks)"
  let ?ib = "\<lambda>h. kex_integrity_cmd_bytes \<lparr>ihead = \<lparr>cmd_type = KEX_CMD_INTEGRITY, cmd_bytes = 40\<rparr>,
    hash = h\<rparr>"
  note rd = read_elf_Some [OF read sizes]
  have n: "?n \<le> 65535" by (rule rd(2))
  have same: "list_all2 same_segment es ?ks" by (rule make_segs_same)
  have len_cmd: "List.length (kex_segment_cmd_bytes s) = 64" if "s \<in> set ?ks" for s
    using that same by (auto simp: in_set_conv_nth list_all2_conv_all_nth same_segment_def
        intro: length_segment_bytes)
  then have len_cmds: "List.length (concat (map kex_segment_cmd_bytes ?ks)) = 64 * ?n"
    using length_concat_same [of ?ks kex_segment_cmd_bytes 64] by simp
  have hb: "List.length (kex_header_bytes ?hd) = 56"
    by (rule length_header_bytes) (simp_all add: make_header_def)
  have ib: "List.length (?ib h) = 40" if "List.length h = 32" for h
    using that by (simp add: kex_integrity_cmd_bytes_def kex_cmd_bytes_def)
  have top: "unat (cmd_offset ?hd + cmd_size ?hd) = 96 + 64 * ?n"
  proof -
    have "cmd_offset ?hd + cmd_size ?hd = of_nat (96 + 64 * ?n)" by (simp add: make_header_def)
    then show ?thesis using n by (simp only:) (intro unat_of_nat64, simp)
  qed
  have pos: "96 + 64 * ?n \<le> unat ?pos" "unat ?pos \<le> 4191 + 64 * ?n"
    using page_up_bounds [of "cmd_offset ?hd + cmd_size ?hd"] n unfolding top by simp_all
  have "data_bound es \<le> ?n * (2 ^ 47 + 4096)"
    using elf(2) by (intro data_bound_le) simp
  also have "\<dots> \<le> 65535 * (2 ^ 47 + 4096)" using n by (intro mult_right_mono) simp_all
  finally have bound: "unat ?pos + data_bound es < 2 ^ 64" using pos(2) n by simp
  let ?out = "?a @ ?ib (replicate 32 0)"
  obtain ext where ext: "write_data (zip es ?ks) f ?out = ?out @ ext"
      "\<forall>x\<in>set (zip es ?ks). carried elf (?out @ ext) x \<and>
         (0 < ts_filesz (fst x) \<longrightarrow> unat ?pos \<le> unat (file_offset (snd x)))"
  proof (cases "es = []")
    case True
    then show ?thesis using that [of "[]"] by simp
  next
    case False
    have "List.length ?out \<le> unat ?pos" using hb ib len_cmds pos(1) by simp
    then show ?thesis
      using write_data_ok [OF elf(1), of es f ?out ?pos eh 0] elf(2) rd(1,3) False bound that by auto
  qed
  have len_a: "List.length ?a = 56 + 64 * ?n" using hb len_cmds by simp
  have link: "kex_link eh SHA256 elf = Some (?a @ ?ib (SHA256 ?a) @ ext)"
    using read ext(1) ib sha by (simp add: kex_link_def Let_def)
  have "carried elf (?a @ ?ib (SHA256 ?a) @ ext) x" if x: "x \<in> set (zip es ?ks)" for x
  proof (rule carried_patch)
    show "carried elf (?a @ ?ib (replicate 32 0) @ ext) x" using ext(2) x by simp
    show "List.length (?ib (replicate 32 0)) = List.length (?ib (SHA256 ?a))" using ib sha by simp
    show "List.length ?a + List.length (?ib (replicate 32 0)) \<le> unat (file_offset (snd x))"
      if "0 < ts_filesz (fst x)"
    proof -
      have "unat ?pos \<le> unat (file_offset (snd x))" using ext(2) x that by blast
      then show ?thesis using len_a ib pos(1) by simp
    qed
  qed
  then show ?thesis using same link by (intro exI [of _ ?ks] exI [of _ ext]) (simp add: Let_def)
qed

lemma commands_at:
  assumes "bytes m p len = xs @ concat (map kex_segment_cmd_bytes ks) @ kex_cmd_bytes c @ ys"
    and "List.length xs = pos" and "cmd_type c \<noteq> KEX_CMD_SEGMENT"
    and "\<forall>s\<in>set ks. head s = \<lparr>cmd_type = KEX_CMD_SEGMENT, cmd_bytes = 64\<rparr> \<and>
      List.length (seg_reserved s) = 8"
  shows "kex_commands m p len pos (map Segment ks @ [Command c])"
  using assms
proof (induction ks arbitrary: xs pos)
  case Nil
  have c: "List.length (kex_cmd_bytes c) = 8" by (simp add: kex_cmd_bytes_def)
  have "List.length (bytes m p len) = pos + 8 + List.length ys" using Nil c by simp
  then have "pos + 8 \<le> len" by simp
  moreover have "bytes m (p + of_nat pos) 8 = kex_cmd_bytes c"
    using bytes_field [of m p len xs "kex_cmd_bytes c" ys pos 8] Nil c by simp
  ultimately show ?case using Nil(3) by simp
next
  case (Cons s ks)
  let ?b = "kex_segment_cmd_bytes s" and ?rest = "concat (map kex_segment_cmd_bytes ks) @ kex_cmd_bytes c @ ys"
  have s: "List.length ?b = 64" using Cons.prems(4) by (intro length_segment_bytes) simp
  have all: "bytes m p len = xs @ ?b @ ?rest" using Cons.prems(1) by simp
  have "List.length (bytes m p len) = pos + 64 + List.length ?rest"
    using Cons.prems(2) s unfolding all by simp
  then have "pos + 64 \<le> len" by simp
  moreover have "bytes m (p + of_nat pos) 64 = ?b"
    using bytes_field [OF all Cons.prems(2) s] .
  moreover have "kex_commands m p len (pos + 64) (map Segment ks @ [Command c])"
    using Cons.prems s by (intro Cons.IH [of "xs @ ?b"]) simp_all
  ultimately show ?case using Cons.prems(4) by simp
qed

text \<open>
  What the ELF segments must be like for the loader: page-aligned addresses in the lower half,
  no more bytes in the file than in memory, and pages apart from each other and from the stack.
\<close>

definition loadable :: "u8 list \<Rightarrow> temp_seg list \<Rightarrow> bool" where
  "loadable elf es \<longleftrightarrow> List.length elf < 2 ^ 63 \<and>
     (\<forall>e\<in>set es. in_file elf e \<and> 4096 dvd unat (ts_vaddr e) \<and>
        unat (ts_vaddr e) + unat (ts_memsz e) \<le> 2 ^ 47 \<and> ts_filesz e \<le> ts_memsz e \<and>
        0x7FF \<notin> page_range (ts_vaddr e) (ts_memsz e)) \<and>
     disjoint_list (map (\<lambda>e. page_range (ts_vaddr e) (ts_memsz e)) es)"

lemma same_pages:
  "list_all2 same_segment es ks \<Longrightarrow>
     map seg_pages ks = map (\<lambda>e. page_range (ts_vaddr e) (ts_memsz e)) es \<and>
     page_count ks = (\<Sum>e\<leftarrow>es. pages_of (ts_memsz e)) \<and>
     (\<forall>s\<in>set ks. \<exists>e. (e, s) \<in> set (zip es ks) \<and> same_segment e s) \<and>
     (\<forall>e\<in>set es. \<exists>s. (e, s) \<in> set (zip es ks) \<and> same_segment e s \<and> s \<in> set ks)"
proof (induction es ks rule: list_all2_induct)
  case (Cons e es s ks)
  then show ?case by (fastforce simp: same_segment_def seg_pages_def page_count_def)
qed (simp add: page_count_def)

lemma kex_segments_map: "kex_segments (map Segment ks @ [Command c]) = ks"
  by (induction ks) simp_all

lemma kex_link_program:
  assumes link: "kex_link eh SHA256 elf = Some file"
    and read: "read_elf eh \<lparr>idata = elf, ipos = 0, ifail = False\<rparr> =
      Some (entry_point, machine, es, f)"
    and sizes: "0 < phdr32_size eh" "0 < phdr64_size eh"
    and ok: "loadable elf es" and sha: "\<And>x. List.length (SHA256 x) = 32"
    and m: "bytes m p (List.length file) = file"
  shows "\<exists>ks c. kex_program m p (List.length file)
      (make_header eh entry_point machine (List.length es)) (map Segment ks @ [Command c]) \<and>
    list_all2 same_segment es ks \<and> (\<forall>x\<in>set (zip es ks). carried elf file x)"
proof -
  let ?n = "List.length es" and ?c = "\<lparr>cmd_type = KEX_CMD_INTEGRITY, cmd_bytes = 40\<rparr>"
  let ?hd = "make_header eh entry_point machine ?n"
  have elf: "List.length elf < 2 ^ 63" "\<forall>e\<in>set es. in_file elf e \<and> unat (ts_filesz e) \<le> 2 ^ 47"
    using ok by (auto simp: loadable_def word_le_nat_alt)
  obtain ks ext where k: "list_all2 same_segment es ks"
      "file = kex_header_bytes ?hd @ concat (map kex_segment_cmd_bytes ks) @ kex_cmd_bytes ?c @
         SHA256 (kex_header_bytes ?hd @ concat (map kex_segment_cmd_bytes ks)) @ ext"
      "\<forall>x\<in>set (zip es ks). carried elf file x"
    using kex_link_ok [of eh elf entry_point machine es f SHA256, OF read sizes elf sha] link
    by (auto simp: Let_def kex_integrity_cmd_bytes_def)
  have hb: "List.length (kex_header_bytes ?hd) = 56"
    by (rule length_header_bytes) (simp_all add: make_header_def)
  have head: "bytes m p (List.length file) = kex_header_bytes ?hd @ concat (map kex_segment_cmd_bytes ks) @
      kex_cmd_bytes ?c @ SHA256 (kex_header_bytes ?hd @ concat (map kex_segment_cmd_bytes ks)) @ ext"
    using m k(2) by simp
  note sp = same_pages [OF k(1)]
  have "kex_commands m p (List.length file) 56 (map Segment ks @ [Command ?c])"
    using sp by (intro commands_at [OF head hb]) (auto simp: same_segment_def)
  moreover have "bytes m p 56 = kex_header_bytes ?hd"
    using bytes_field [of m p "List.length file" "[]" "kex_header_bytes ?hd" _ 0 56] head hb by simp
  moreover have "56 \<le> List.length file" using k(2) hb by (metis length_append le_add1)
  moreover have "segment_ok (List.length file) s \<and> 0x7FF \<notin> seg_pages s" if s: "s \<in> set ks" for s
  proof -
    obtain e where e: "(e, s) \<in> set (zip es ks)" "same_segment e s" using sp s by blast
    then have "e \<in> set es" by (metis set_zip_leftD)
    then show ?thesis
      using ok e k(3) by (auto simp: loadable_def segment_ok_def seg_pages_def same_segment_def carried_def)
  qed
  moreover have "disjoint_list (map seg_pages ks)" using sp ok by (simp add: loadable_def)
  moreover have "List.length ks = ?n" using k(1) by (metis list_all2_lengthD)
  moreover have "unat (command_count ?hd) = Suc ?n"
    using read_elf_Some(2) [OF read sizes]
    by (simp add: make_header_def unsigned_of_nat take_bit_eq_mod flip: of_nat_Suc)
  ultimately have "kex_program m p (List.length file) ?hd (map Segment ks @ [Command ?c])"
    by (simp add: kex_program_def kex_segments_map) (simp add: make_header_def)
  then show ?thesis using k(1,3) by blast
qed

text \<open>
  The loader on the linker's output: what it maps and fills, and that the translations of other
  addresses of the lower half stay as they are.
\<close>

lemma kex_ld_load_ok:
  fixes st :: "'a pmm_scheme"
  assumes "kex_link eh SHA256 elf = Some file"
    and "read_elf eh \<lparr>idata = elf, ipos = 0, ifail = False\<rparr> = Some (entry_point, machine, es, f)"
    and "0 < phdr32_size eh" and "0 < phdr64_size eh" and "\<And>x. List.length (SHA256 x) = 32"
    and "loadable elf es"
    and "vm_wf I st" and "{..<256} \<subseteq> I" and "foreign_region I st p (List.length file)"
    and "bytes (mem st) p (List.length file) = file"
    and "4 * ((\<Sum>e\<leftarrow>es. pages_of (ts_memsz e)) + 1) \<le> card (free_blocks st)"
  shows "\<exists>st'. load_kex_and_run p fl st =
      Some (Entered (switch_to_user_mode entry_point fl) st') \<and>
    (\<forall>e\<in>set es. \<forall>i<unat (ts_memsz e). ld8 st' (ts_vaddr e + of_nat i) =
       Some (if i < unat (ts_filesz e) then elf ! (unat (ts_off e) + i) else 0)) \<and>
    (\<forall>e\<in>set es. \<exists>b. loaded I (free_blocks st) st' (ts_vaddr e) (unat (ts_memsz e)) b) \<and>
    vm_ext I (4 * ((\<Sum>e\<leftarrow>es. pages_of (ts_memsz e)) + 1)) st st' \<and>
    (\<forall>va. unat va < 2 ^ 47 \<longrightarrow> unat va div 4096 \<noteq> 0x7FF \<longrightarrow>
       (\<forall>e\<in>set es. unat va div 4096 \<notin> page_range (ts_vaddr e) (ts_memsz e)) \<longrightarrow>
       entry st' (va_path va) = entry st (va_path va))"
proof -
  let ?len = "List.length file"
  obtain ks c where k: "kex_program (mem st) p ?len
        (make_header eh entry_point machine (List.length es)) (map Segment ks @ [Command c])"
      "list_all2 same_segment es ks" "\<forall>x\<in>set (zip es ks). carried elf file x"
    using kex_link_program [of eh SHA256 elf "file", OF assms(1-4,6,5,10)] by blast
  note sp = same_pages [OF k(2)]
  have free: "4 * (page_count (kex_segments (map Segment ks @ [Command c])) + 1) \<le>
      card (free_blocks st)"
    using assms(11) sp by (simp add: kex_segments_map)
  obtain st' where st': "load_kex_and_run p fl st =
        Some (Entered (switch_to_user_mode entry_point fl) st')"
      "\<forall>s\<in>set ks. loaded I (free_blocks st) st' (rva s) (unat (mem_size s)) (seg_image (mem st) p s)"
      "vm_ext I (4 * (page_count ks + 1)) st st'"
      "\<forall>q. lpath I q \<longrightarrow> length q = 4 \<longrightarrow> q \<noteq> va_path 0x7FF000 \<longrightarrow>
         (\<forall>s\<in>set ks. q \<notin> seg_paths s) \<longrightarrow> entry st' q = entry st q"
    using load_kex_ok [OF assms(7-9) k(1) free, of fl]
    by (auto simp: kex_segments_map make_header_def)
  have ok: "segment_ok ?len s" if "s \<in> set ks" for s
    using k(1) that by (simp add: kex_program_def kex_segments_map)
  have other: "entry st' (va_path va) = entry st (va_path va)"
    if va: "unat va < 2 ^ 47" "unat va div 4096 \<noteq> 0x7FF"
      "\<forall>e\<in>set es. unat va div 4096 \<notin> page_range (ts_vaddr e) (ts_memsz e)" for va
  proof -
    have "va_path va \<notin> seg_paths s" if s: "s \<in> set ks" for s
    proof -
      obtain e where e: "(e, s) \<in> set (zip es ks)" "same_segment e s" using sp s by blast
      then have "e \<in> set es" by (metis set_zip_leftD)
      then show ?thesis
        using path_page [OF ok [OF s] va(1)] va(3) e(2) by (simp add: seg_pages_def same_segment_def)
    qed
    moreover have "va_path va \<noteq> va_path 0x7FF000" using va_path_low [OF va(1), of "0x7FF000"] va(2) by simp
    moreover have "page_index 39 va \<in> I" using low_index [OF va(1)] assms(8) by blast
    ultimately show ?thesis using st'(4) va_path_lpath by blast
  qed
  have "ld8 st' (ts_vaddr e + of_nat i) =
      Some (if i < unat (ts_filesz e) then elf ! (unat (ts_off e) + i) else 0)"
    if e: "e \<in> set es" and i: "i < unat (ts_memsz e)" for e i
  proof -
    obtain s where s: "(e, s) \<in> set (zip es ks)" "same_segment e s" "s \<in> set ks" using sp e by blast
    have "seg_image (mem st) p s i = elf ! (unat (ts_off e) + i)" if fi: "i < unat (ts_filesz e)"
    proof -
      let ?o = "unat (file_offset s)"
      have c: "?o + unat (ts_filesz e) \<le> ?len"
          "slice ?o (unat (ts_filesz e)) file = slice (unat (ts_off e)) (unat (ts_filesz e)) elf"
        using k(3) s(1) by (auto simp: carried_def)
      have "in_file elf e" using assms(6) e by (simp add: loadable_def)
      then have le: "unat (ts_off e) + unat (ts_filesz e) \<le> List.length elf"
        using fi by (simp add: in_file_def word_less_nat_alt)
      have "mem st (p + file_offset s + of_nat i) = file ! (?o + i)"
        using nth_bytes [of "?o + i" ?len "mem st" p] c(1) fi assms(10)
        by (simp add: add.assoc)
      also have "\<dots> = slice ?o (unat (ts_filesz e)) file ! i"
        using c(1) fi by (simp add: slice_def)
      also have "\<dots> = elf ! (unat (ts_off e) + i)" unfolding c(2) using le fi by (simp add: slice_def)
      finally show ?thesis using fi s(2) by (simp add: seg_image_def same_segment_def)
    qed
    moreover have "seg_image (mem st) p s i = 0" if "\<not> i < unat (ts_filesz e)"
      using that s(2) by (simp add: seg_image_def same_segment_def)
    moreover have "ld8 st' (rva s + of_nat i) = Some (seg_image (mem st) p s i)"
      using loaded_reads [OF bspec [OF st'(2) s(3)], of i] i s(2) by (simp add: same_segment_def)
    ultimately show ?thesis using s(2) by (simp add: same_segment_def)
  qed
  moreover have "\<exists>b. loaded I (free_blocks st) st' (ts_vaddr e) (unat (ts_memsz e)) b" if e: "e \<in> set es" for e
  proof -
    obtain s where s: "s \<in> set ks" "same_segment e s" using sp e by blast
    have "loaded I (free_blocks st) st' (rva s) (unat (mem_size s)) (seg_image (mem st) p s)"
      using st'(2) s(1) by blast
    then show ?thesis using s(2) unfolding same_segment_def by metis
  qed
  ultimately show ?thesis using st'(1,3) sp other by (intro exI [of _ st']) simp
qed

section \<open>Properties\<close>

text \<open>
  C4. What the linker makes of an ELF executable, the kernel's loader unpacks: if the ELF
  segments are loadable and the program file stands in memory, \<open>load_kex_and_run\<close> enters the
  entry point of the ELF file with every byte of every ELF segment at its virtual address, and
  zeros between the segment's size in the file and its size in memory.
\<close>

theorem kex_ld_then_load:
  assumes "kex_link eh SHA256 elf = Some file"
    and "read_elf eh \<lparr>idata = elf, ipos = 0, ifail = False\<rparr> = Some (entry_point, machine, es, f)"
    and "0 < phdr32_size eh" and "0 < phdr64_size eh" and "\<And>x. List.length (SHA256 x) = 32"
    and "loadable elf es"
    and "vm_wf I st" and "{..<256} \<subseteq> I" and "foreign_region I st p (List.length file)"
    and "bytes (mem st) p (List.length file) = file"
    and "4 * ((\<Sum>e\<leftarrow>es. pages_of (ts_memsz e)) + 1) \<le> card (free_blocks st)"
  shows "\<exists>st'. load_kex_and_run p fl st =
      Some (Entered (switch_to_user_mode entry_point fl) st') \<and>
    (\<forall>e\<in>set es. \<forall>i<unat (ts_memsz e). ld8 st' (ts_vaddr e + of_nat i) =
       Some (if i < unat (ts_filesz e) then elf ! (unat (ts_off e) + i) else 0))"
  using kex_ld_load_ok [OF assms] by blast

text \<open>
  A 64-bit ELF file with one segment of three bytes, with the layout of the ELF specification.
\<close>

definition of_le :: "nat \<Rightarrow> nat \<Rightarrow> u8 list \<Rightarrow> 'w::len word" where
  "of_le i n b = foldr (\<lambda>x w. ucast x OR push_bit 8 w) (take n (drop i b)) 0"

definition demo_elf_h :: elf_h where
  "demo_elf_h = \<lparr>EI_NIDENT = 16, EI_CLASS = 4, ELFCLASS32 = 1,
     ehdr32_size = 52, ehdr32 = (\<lambda>b. \<lparr>e_entry = of_le 24 4 b, e_machine = of_le 18 2 b,
       e_phoff = of_le 28 4 b, e_phnum = of_le 44 2 b\<rparr>),
     phdr32_size = 32, phdr32 = (\<lambda>b. \<lparr>p_type = of_le 0 4 b, p_flags = of_le 24 4 b,
       p_vaddr = of_le 8 4 b, p_memsz = of_le 20 4 b, p_offset = of_le 4 4 b,
       p_filesz = of_le 16 4 b\<rparr>),
     ehdr64_size = 64, ehdr64 = (\<lambda>b. \<lparr>e_entry = of_le 24 8 b, e_machine = of_le 18 2 b,
       e_phoff = of_le 32 8 b, e_phnum = of_le 56 2 b\<rparr>),
     phdr64_size = 56, phdr64 = (\<lambda>b. \<lparr>p_type = of_le 0 4 b, p_flags = of_le 4 4 b,
       p_vaddr = of_le 16 8 b, p_memsz = of_le 40 8 b, p_offset = of_le 8 8 b,
       p_filesz = of_le 32 8 b\<rparr>),
     PT_LOAD = 1, PF_R = 4, PF_W = 2, PF_X = 1, EM_X86_64 = 62, EM_386 = 3\<rparr>"

definition demo_elf_of :: "u8 list \<Rightarrow> u8 list" where
  "demo_elf_of memsz = [0x7F, 0x45, 0x4C, 0x46, 2, 1, 1] @ replicate 9 0 @ [2, 0, 62, 0, 1, 0, 0, 0] @
     [0, 0, 0x40, 0, 0, 0, 0, 0] @ [64, 0, 0, 0, 0, 0, 0, 0] @ replicate 16 0 @ [1, 0] @
     replicate 6 0 @
     [1, 0, 0, 0, 5, 0, 0, 0] @ [120, 0, 0, 0, 0, 0, 0, 0] @ [0, 0, 0x40, 0, 0, 0, 0, 0] @
     replicate 8 0 @ [3, 0, 0, 0, 0, 0, 0, 0] @ memsz @ replicate 8 0 @
     [1, 2, 3]"

definition demo_seg_of :: "u64 \<Rightarrow> temp_seg" where
  "demo_seg_of n = \<lparr>ts_flags = 5, ts_vaddr = 0x400000, ts_memsz = n, ts_off = 120, ts_filesz = 3\<rparr>"

definition demo_elf :: "u8 list" where
  "demo_elf = demo_elf_of [5, 0, 0, 0, 0, 0, 0, 0]"

definition demo_temp_seg :: temp_seg where
  "demo_temp_seg = demo_seg_of 5"

lemma demo_elf_read:
  "read_elf demo_elf_h \<lparr>idata = demo_elf, ipos = 0, ifail = False\<rparr> =
     Some (0x400000, 62, [demo_temp_seg], \<lparr>idata = demo_elf, ipos = 120, ifail = False\<rparr>)"
  by code_simp

lemma demo_link:
  assumes elf: "elf = demo_elf_of ms" "List.length ms = 8" and seg: "seg = demo_seg_of n"
    and read: "read_elf demo_elf_h \<lparr>idata = elf, ipos = 0, ifail = False\<rparr> =
      Some (0x400000, 62, [seg], \<lparr>idata = elf, ipos = 120, ifail = False\<rparr>)"
  shows "\<exists>file. kex_link demo_elf_h (\<lambda>_. replicate 32 0) elf = Some file \<and> List.length file = 4099"
proof -
  let ?hd = "make_header demo_elf_h 0x400000 62 1"
  let ?ic = "kex_integrity_cmd_bytes \<lparr>ihead = \<lparr>cmd_type = KEX_CMD_INTEGRITY, cmd_bytes = 40\<rparr>,
    hash = replicate 32 0\<rparr>"
  let ?f = "\<lparr>idata = elf, ipos = 120, ifail = False\<rparr>"
  have pos: "page_up (cmd_offset ?hd + cmd_size ?hd) = 4096"
    by (simp add: make_header_def page_up_def)
  obtain s where s: "make_segs demo_elf_h 0 4096 [seg] = [s]" "file_offset s = 4096"
      "file_size s = 3" "List.length (seg_reserved s) = 8"
    by (simp add: seg demo_seg_of_def demo_elf_h_def Let_def)
  let ?out = "kex_header_bytes ?hd @ kex_segment_cmd_bytes s @ ?ic"
  have len: "List.length (kex_header_bytes ?hd) = 56" "List.length (kex_segment_cmd_bytes s) = 64"
      "List.length ?ic = 40"
    using s(4) length_header_bytes [of ?hd] length_segment_bytes [of s]
    by (simp_all add: make_header_def kex_integrity_cmd_bytes_def kex_cmd_bytes_def)
  have pad: "List.length (write_padding ?out 4096) = 4096"
    using pad_to [of ?out 4096] len by auto
  have len_elf: "List.length elf = 123" by (simp add: elf demo_elf_of_def)
  have "\<exists>ext. write_data [(seg, s)] ?f ?out = ext \<and> List.length ext = 4099"
    using s(2,3) pad len_elf by (simp add: iread_def iseekg_def Let_def seg demo_seg_of_def)
  then show ?thesis
    using s(1) len
    by (auto simp: kex_link_def read Let_def pos [simplified])
qed

definition demo_link_file :: "u8 list" where
  "demo_link_file = the (kex_link demo_elf_h (\<lambda>_. replicate 32 0) demo_elf)"

definition demo_link_state :: pmm where
  "demo_link_state = demo_vmm\<lparr>mem := place 0xFFFF800000300000 demo_link_file (\<lambda>_. 0)\<rparr>"

lemma demo_link_file:
  "kex_link demo_elf_h (\<lambda>_. replicate 32 0) demo_elf = Some demo_link_file"
  "List.length demo_link_file = 4099"
  using demo_link [OF demo_elf_def _ demo_temp_seg_def demo_elf_read] by (auto simp: demo_link_file_def)

theorem kex_ld_then_load_witness:
  "\<exists>st'. load_kex_and_run 0xFFFF800000300000 0 demo_link_state =
       Some (Entered (switch_to_user_mode 0x400000 0) st') \<and>
     ld8 st' 0x400002 = Some 3 \<and> ld8 st' 0x400004 = Some 0"
proof -
  have ok: "loadable demo_elf [demo_temp_seg]"
    by (simp add: loadable_def in_file_def demo_temp_seg_def demo_seg_of_def page_range_def pages_of_def
      demo_elf_def demo_elf_of_def)
  have sz: "0 < phdr32_size demo_elf_h" "0 < phdr64_size demo_elf_h" by (simp_all add: demo_elf_h_def)
  have sha: "List.length (replicate 32 (0 :: u8)) = 32" by simp
  have "List.length demo_link_file < 2 ^ 32" by (simp add: demo_link_file(2))
  note state = demo_file_state [OF demo_link_state_def this]
  have free: "4 * ((\<Sum>e\<leftarrow>[demo_temp_seg]. pages_of (ts_memsz e)) + 1) \<le> card (free_blocks demo_link_state)"
    by (simp add: state(2) demo_temp_seg_def demo_seg_of_def pages_of_def)
  have byte: "demo_elf ! 122 = 3" by code_simp
  obtain st' where "load_kex_and_run 0xFFFF800000300000 0 demo_link_state =
        Some (Entered (switch_to_user_mode 0x400000 0) st')"
      "\<forall>e\<in>set [demo_temp_seg]. \<forall>i<unat (ts_memsz e). ld8 st' (ts_vaddr e + of_nat i) =
         Some (if i < unat (ts_filesz e) then demo_elf ! (unat (ts_off e) + i) else 0)"
    using kex_ld_then_load [OF demo_link_file(1) demo_elf_read sz sha ok state(1) order_refl
      state(3,4) free, of 0] by blast
  moreover from bspec [OF this(2), of demo_temp_seg] have "\<forall>i<5. ld8 st' (0x400000 + of_nat i) =
      Some (if i < 3 then demo_elf ! (120 + i) else 0)"
    by (simp add: demo_temp_seg_def demo_seg_of_def)
  moreover from spec [OF this, of 2] spec [OF this, of 4]
  have "ld8 st' 0x400002 = Some 3" "ld8 st' 0x400004 = Some 0" by (simp_all add: byte)
  ultimately show ?thesis by blast
qed

end
