(* ===== verification/Kernel.thy ===== *)
theory Kernel
  imports Syscall Kex
begin

text \<open>
  The kernel's entry point (kernel/kernel/kernel.c): \<open>_start\<close> sets up the processor and every
  component in turn, from the memory map, the direct map and the ramdisk that the boot loader
  reports (the structures of kernel/include/limine.h, read from memory), and runs \<open>init.kex\<close>.
  One definition for each part of the function, and \<open>kernel_start\<close> that composes them.
\<close>

unbundle bit_operations_syntax

section \<open>What the boot loader provides\<close>

text \<open>
  The responses that it writes into the request structures (0 for NULL), and the addresses the
  compiler gives to two string literals and two local variables of \<open>_start\<close>.
\<close>

record boot_info =
  base_revision_supported :: bool
  hhdm_response :: u64
  memmap_response :: u64
  module_response :: u64
  video_bad_str :: u64
  init_kex_str :: u64
  vid_size_var :: u64
  file_size_var :: u64

record boot = syscalls +
  cr0 :: u64
  cr4 :: u64

abbreviation LIMINE_MEMMAP_USABLE :: u64 where "LIMINE_MEMMAP_USABLE \<equiv> 0"

record limine_memmap_entry =
  mm_base :: u64
  mm_length :: u64
  mm_type :: u64

text \<open>Entry \<open>i\<close> of a memory map response: \<open>entry_count\<close> at 8, the array of pointers at 16.\<close>

definition memmap_entry :: "u64 \<Rightarrow> u64 \<Rightarrow> 'a machine_scheme \<Rightarrow> limine_memmap_entry option" where
  "memmap_entry resp i st =
     do {
       entries \<leftarrow> ld64 st (resp + 16);
       e \<leftarrow> ld64 st (entries + 8 * i);
       b \<leftarrow> ld64 st e;
       n \<leftarrow> ld64 st (e + 8);
       t \<leftarrow> ld64 st (e + 16);
       Some \<lparr>mm_base = b, mm_length = n, mm_type = t\<rparr>
     }"

section \<open>kernel.c\<close>

text \<open>Lines 44 to 52: \<open>~(1 << 2)\<close> is an \<open>int\<close>, sign-extended.\<close>

definition enable_sse :: "'a boot_scheme \<Rightarrow> 'a boot_scheme" where
  "enable_sse st =
     (let st = st\<lparr>cr0 := cr0 st AND NOT (push_bit 2 1)\<rparr>;
          st = st\<lparr>cr0 := cr0 st OR push_bit 1 1\<rparr>
      in st\<lparr>cr4 := cr4 st OR (push_bit 9 1 OR push_bit 10 1)\<rparr>)"

definition start_tables :: "symbols \<Rightarrow> boot_info \<Rightarrow> 'a boot_scheme \<Rightarrow> 'a boot_scheme option" where
  "start_tables sy bi st =
     do {
       st \<leftarrow> (if hhdm_response bi \<noteq> 0 then
                do {
                  off \<leftarrow> ld64 st (hhdm_response bi + 8);
                  Some (st\<lparr>hhdm_offset := off\<rparr>)
                }
              else Some st);
       st \<leftarrow> gdt_initialize sy st;
       let st = idt_initialize sy st;
       let st = terminal_initialize st;
       let (_, st) = serial_initialize st;
       let st = pic_remap st;
       kprintf (''Booted in x86_64 using Limine (finally)!'' @ nl) [] st
     }"

text \<open>Lines 71 to 80; the entry count is read in every round.\<close>

partial_function (option) memmap_scan ::
  "u64 \<Rightarrow> u64 \<Rightarrow> u64 \<Rightarrow> u64 \<Rightarrow> 'a machine_scheme \<Rightarrow> (u64 \<times> u64) option" where
  "memmap_scan resp i total_size bitmap_phys st =
     do {
       n \<leftarrow> ld64 st (resp + 8);
       if i < n then
         do {
           e \<leftarrow> memmap_entry resp i st;
           let total_size = (if mm_type e = LIMINE_MEMMAP_USABLE \<and> mm_base e + mm_length e > total_size
                             then mm_base e + mm_length e else total_size);
           let bitmap_phys = (if mm_type e = LIMINE_MEMMAP_USABLE \<and> mm_length e \<ge> 0x100000 \<and>
                                bitmap_phys = 0 then mm_base e else bitmap_phys);
           memmap_scan resp (i + 1) total_size bitmap_phys st
         }
       else Some (total_size, bitmap_phys)
     }"

text \<open>Lines 86 to 89.\<close>

partial_function (option) memmap_free ::
  "u64 \<Rightarrow> u64 \<Rightarrow> 'a pmm_scheme \<Rightarrow> 'a pmm_scheme option" where
  "memmap_free resp i st =
     do {
       n \<leftarrow> ld64 st (resp + 8);
       if i < n then
         do {
           e \<leftarrow> memmap_entry resp i st;
           st \<leftarrow> (if mm_type e = LIMINE_MEMMAP_USABLE
                  then pmm_init_region (mm_base e) (mm_length e) st else Some st);
           memmap_free resp (i + 1) st
         }
       else Some st
     }"

definition start_pmm :: "boot_info \<Rightarrow> 'a pmm_scheme \<Rightarrow> 'a pmm_scheme option" where
  "start_pmm bi st =
     do {
       (total_size, bitmap_phys) \<leftarrow>
         (if memmap_response bi \<noteq> 0 then memmap_scan (memmap_response bi) 0 0 0 st
          else Some (0, 0));
       st \<leftarrow> pmm_initialize total_size (hhdm_offset st + bitmap_phys) st;
       st \<leftarrow> (if memmap_response bi \<noteq> 0 then memmap_free (memmap_response bi) 0 st else Some st);
       let bitmap_size = total_size div 4096 div 8;
       pmm_deinit_region bitmap_phys bitmap_size st
     }"

fun heap_map_loop :: "nat \<Rightarrow> u64 \<Rightarrow> 'a pmm_scheme \<Rightarrow> 'a pmm_scheme option" where
  "heap_map_loop 0 i st = Some st"
| "heap_map_loop (Suc n) i st =
     do {
       (phys, st) \<leftarrow> pmm_alloc_block st;
       st \<leftarrow> vmm_map_page phys i 3 st;
       heap_map_loop n (i + 4096) st
     }"

text \<open>Lines 95 to 102: 4096 pages of 4096 bytes are the 16 MiB of the heap.\<close>

definition start_heap :: "'a kheap_scheme \<Rightarrow> 'a kheap_scheme option" where
  "start_heap st =
     do {
       st \<leftarrow> vmm_initialize st;
       let heap_start = 0xFFFF900000000000;
       st \<leftarrow> heap_map_loop 4096 heap_start st;
       kheap_initialize heap_start (16 * 1024 * 1024) st
     }"

fun video_map_loop :: "nat \<Rightarrow> u64 \<Rightarrow> u64 \<Rightarrow> 'a pmm_scheme \<Rightarrow> 'a pmm_scheme option" where
  "video_map_loop 0 i phys st = Some st"
| "video_map_loop (Suc n) i phys st =
     do {
       st \<leftarrow> vmm_map_page (phys + i * 4096) (0x80000000 + i * 4096) 0x7 st;
       video_map_loop n (i + 1) phys st
     }"

text \<open>Lines 109 to 127.\<close>

definition start_video :: "boot_info \<Rightarrow> 'a fs_scheme \<Rightarrow> 'a fs_scheme option" where
  "start_video bi st =
     do {
       (vid_ptr, st) \<leftarrow> fs_get_file (video_bad_str bi) (vid_size_var bi) st;
       if vid_ptr \<noteq> 0 then
         do {
           let vid_phys = vid_ptr - hhdm_offset st;
           let phys_aligned = vid_phys AND NOT 0xFFF;
           let off = vid_phys AND 0xFFF;
           vid_size \<leftarrow> ld64 st (vid_size_var bi);
           let pages_needed = (vid_size + off + 4095) div 4096;
           st \<leftarrow> kprintf (''Mapping video: %d bytes (%d pages)...'' @ nl) [vid_size, pages_needed] st;
           st \<leftarrow> video_map_loop (unat pages_needed) 0 phys_aligned st;
           kprintf (''Video mapped successfully to 0x80000000'' @ nl) [] st
         }
       else kprintf (''WARN: video.bad not found in ramdisk!'' @ nl) [] st
     }"

datatype 'a boot_result = Stopped 'a | User_mode user_entry 'a

text \<open>Lines 129 to 136; a rejected program leads back to \<open>_start\<close> and its endless loop.\<close>

definition start_init :: "boot_info \<Rightarrow> u64 \<Rightarrow> 'a fs_scheme \<Rightarrow> 'a fs_scheme boot_result option" where
  "start_init bi fl st =
     do {
       (hello_kex, st) \<leftarrow> fs_get_file (init_kex_str bi) (file_size_var bi) st;
       if hello_kex \<noteq> 0 then
         do {
           r \<leftarrow> load_kex_and_run hello_kex fl st;
           Some (case r of Rejected st \<Rightarrow> Stopped st | Entered u st \<Rightarrow> User_mode u st)
         }
       else
         do {
           st \<leftarrow> kprintf (''Could not find init.kex'' @ nl) [] st;
           Some (Stopped st)
         }
     }"

text \<open>The address of the ramdisk: \<open>module_count\<close> at 8, \<open>modules\<close> at 16, \<open>address\<close> at 8.\<close>

definition start_programs ::
  "boot_info \<Rightarrow> u64 \<Rightarrow> 'a fs_scheme \<Rightarrow> 'a fs_scheme boot_result option" where
  "start_programs bi fl st =
     do {
       count \<leftarrow> (if module_response bi \<noteq> 0 then ld64 st (module_response bi + 8) else Some 0);
       if count > 0 then
         do {
           modules \<leftarrow> ld64 st (module_response bi + 16);
           f \<leftarrow> ld64 st modules;
           addr \<leftarrow> ld64 st (f + 8);
           st \<leftarrow> fs_init addr st;
           st \<leftarrow> start_video bi st;
           start_init bi fl st
         }
       else Some (Stopped st)
     }"

definition kernel_start ::
  "symbols \<Rightarrow> boot_info \<Rightarrow> u64 \<Rightarrow> 'a boot_scheme \<Rightarrow> 'a boot_scheme boot_result option" where
  "kernel_start sy bi fl st =
     (if \<not> base_revision_supported bi then Some (Stopped st)
      else
        do {
          let st = enable_sse st;
          st \<leftarrow> start_tables sy bi st;
          st \<leftarrow> start_pmm bi st;
          st \<leftarrow> start_heap st;
          st \<leftarrow> pit_initialize 100 st;
          st \<leftarrow> multitasking_initialize st;
          start_programs bi fl st
        })"

section \<open>The memory map\<close>

abbreviation usable :: "limine_memmap_entry \<Rightarrow> bool" where
  "usable e \<equiv> mm_type e = LIMINE_MEMMAP_USABLE"

definition memmap_array :: "(u64 \<Rightarrow> u8) \<Rightarrow> u64 \<Rightarrow> u64" where
  "memmap_array m resp = ldw 8 m (resp + 16)"

definition memmap_ptr :: "(u64 \<Rightarrow> u8) \<Rightarrow> u64 \<Rightarrow> nat \<Rightarrow> u64" where
  "memmap_ptr m resp i = ldw 8 m (memmap_array m resp + 8 * of_nat i)"

definition memmap_at :: "(u64 \<Rightarrow> u8) \<Rightarrow> u64 \<Rightarrow> limine_memmap_entry list \<Rightarrow> bool" where
  "memmap_at m resp es \<longleftrightarrow>
     kregion (resp + 8) 16 \<and> ldw 8 m (resp + 8) = (of_nat (length es) :: u64) \<and>
     kregion (memmap_array m resp) (8 * length es) \<and>
     (\<forall>i<length es. kregion (memmap_ptr m resp i) 24 \<and>
        ldw 8 m (memmap_ptr m resp i) = mm_base (es ! i) \<and>
        ldw 8 m (memmap_ptr m resp i + 8) = mm_length (es ! i) \<and>
        ldw 8 m (memmap_ptr m resp i + 16) = mm_type (es ! i))"

text \<open>The bytes that make up the memory map.\<close>

definition memmap_cell :: "(u64 \<Rightarrow> u8) \<Rightarrow> u64 \<Rightarrow> nat \<Rightarrow> u64 \<Rightarrow> bool" where
  "memmap_cell m resp n x \<longleftrightarrow> within x (resp + 8) 16 \<or> within x (memmap_array m resp) (8 * n) \<or>
     (\<exists>i<n. within x (memmap_ptr m resp i) 24)"

lemma memmap_at_cong:
  assumes at: "memmap_at m resp es"
    and same: "\<And>x. memmap_cell m resp (length es) x \<Longrightarrow> m' x = m x"
  shows "memmap_at m' resp es" and "memmap_cell m' resp (length es) x = memmap_cell m resp (length es) x"
proof -
  have len: "8 * length es \<le> 2 ^ 64" using at by (auto simp: memmap_at_def kregion_def)
  have "ldw 8 m' (resp + 8) = (ldw 8 m (resp + 8) :: u64)"
    using same within_mono [of _ "resp + 8" 8 16] by (intro ldw_cong) (simp add: memmap_cell_def)
  moreover have arr: "memmap_array m' resp = memmap_array m resp"
    unfolding memmap_array_def
    using same within_part [of 8 8 16 _ "resp + 8"]
    by (intro ldw_cong) (simp add: memmap_cell_def add.assoc)
  moreover have ptr: "memmap_ptr m' resp i = memmap_ptr m resp i" if "i < length es" for i
    unfolding memmap_ptr_def arr
    using same within_part [of "8 * i" 8 "8 * length es" _ "memmap_array m resp"] that len
    by (intro ldw_cong) (simp add: memmap_cell_def)
  moreover have "ldw 8 m' (memmap_ptr m resp i + of_nat k) = (ldw 8 m (memmap_ptr m resp i + of_nat k) :: u64)"
    if "i < length es" "k \<le> 16" for i k
    using same within_part [of k 8 24 _ "memmap_ptr m resp i"] that
    by (intro ldw_cong) (auto simp: memmap_cell_def)
  from this [of _ 0] this [of _ 8] this [of _ 16]
  have "ldw 8 m' (memmap_ptr m resp i) = (ldw 8 m (memmap_ptr m resp i) :: u64)"
    "ldw 8 m' (memmap_ptr m resp i + 8) = (ldw 8 m (memmap_ptr m resp i + 8) :: u64)"
    "ldw 8 m' (memmap_ptr m resp i + 16) = (ldw 8 m (memmap_ptr m resp i + 16) :: u64)"
    if "i < length es" for i using that by simp_all
  ultimately show "memmap_at m' resp es" using at by (simp add: memmap_at_def)
  show "memmap_cell m' resp (length es) x = memmap_cell m resp (length es) x"
    using arr ptr by (auto simp: memmap_cell_def)
qed

lemma memmap_loads:
  assumes at: "memmap_at (mem st) resp es"
  shows "ld64 st (resp + 8) = Some (of_nat (length es))"
    and "i < length es \<Longrightarrow> memmap_entry resp (of_nat i) st = Some (es ! i)"
proof -
  have r: "kregion (resp + 8) 16" using at by (simp add: memmap_at_def)
  then have "kregion (resp + 8 + of_nat 8) 8" using kregion_offset [of "resp + 8" 16 8] by simp
  then have "kregion (resp + 16) 8" by (simp add: add.assoc)
  then have arr: "ld64 st (resp + 16) = Some (memmap_array (mem st) resp)"
    by (simp add: kernel_mem memmap_array_def)
  have "kregion (resp + 8) 8" using r by (rule kregion_mono) simp
  then show "ld64 st (resp + 8) = Some (of_nat (length es))"
    using at by (simp add: kernel_mem memmap_at_def)
  show "memmap_entry resp (of_nat i) st = Some (es ! i)" if i: "i < length es"
  proof -
    let ?a = "memmap_array (mem st) resp" and ?p = "memmap_ptr (mem st) resp i"
    have "kregion (?a + of_nat (8 * i)) (8 * length es - 8 * i)"
      using at i by (intro kregion_offset) (simp_all add: memmap_at_def)
    then have "kregion (?a + of_nat (8 * i)) 8" by (rule kregion_mono) (use i in simp)
    then have ptr: "ld64 st (?a + 8 * of_nat i) = Some ?p"
      by (simp add: kernel_mem memmap_ptr_def)
    have k: "kregion ?p 24" using at i by (simp add: memmap_at_def)
    have "kregion (?p + of_nat 0) 8" "kregion (?p + of_nat 8) 8" "kregion (?p + of_nat 16) 8"
      using kregion_mono [OF kregion_offset [OF k, of 0], of 8]
        kregion_mono [OF kregion_offset [OF k, of 8], of 8]
        kregion_mono [OF kregion_offset [OF k, of 16], of 8] by simp_all
    then show ?thesis
      using arr ptr at i by (simp add: memmap_entry_def kernel_mem memmap_at_def)
  qed
qed

text \<open>The end of the highest usable region, and the first one of 1 MiB that is not at 0.\<close>

fun top_of :: "limine_memmap_entry list \<Rightarrow> nat" where
  "top_of [] = 0"
| "top_of (e # es) =
     (if usable e then max (unat (mm_base e) + unat (mm_length e)) (top_of es) else top_of es)"

fun first_big :: "limine_memmap_entry list \<Rightarrow> u64" where
  "first_big [] = 0"
| "first_big (e # es) =
     (if usable e \<and> mm_length e \<ge> 0x100000 \<and> mm_base e \<noteq> 0 then mm_base e else first_big es)"

definition no_wrap :: "limine_memmap_entry list \<Rightarrow> bool" where
  "no_wrap es \<longleftrightarrow> (\<forall>e\<in>set es. usable e \<longrightarrow> unat (mm_base e) + unat (mm_length e) < 2 ^ 64)"

lemma top_of_ge: "e \<in> set es \<Longrightarrow> usable e \<Longrightarrow> unat (mm_base e) + unat (mm_length e) \<le> top_of es"
  by (induction es) (auto simp: le_max_iff_disj)

lemma memmap_scan_ok:
  assumes at: "memmap_at (mem st) resp es" and len: "length es < 2 ^ 64"
  shows "i + k = length es \<Longrightarrow> no_wrap (drop i es) \<Longrightarrow>
    \<exists>t'. memmap_scan resp (of_nat i) t b st =
      Some (t', if b \<noteq> 0 then b else first_big (drop i es)) \<and>
      unat t' = max (unat t) (top_of (drop i es))"
proof (induction k arbitrary: i t b)
  case 0
  then show ?case
    using memmap_loads(1) [OF at] by (subst memmap_scan.simps) simp
next
  case (Suc k)
  have i: "i < length es" using Suc.prems(1) by simp
  let ?e = "es ! i"
  have drop: "drop i es = ?e # drop (Suc i) es" using i by (rule Cons_nth_drop_Suc [symmetric])
  have nw: "no_wrap (drop (Suc i) es)" "usable ?e \<longrightarrow> unat (mm_base ?e) + unat (mm_length ?e) < 2 ^ 64"
    using Suc.prems(2) unfolding drop by (simp_all add: no_wrap_def)
  have lt: "(of_nat i :: u64) < of_nat (length es)"
    using i len by (simp add: word_less_nat_alt unat_of_nat64)
  let ?t = "if usable ?e \<and> mm_base ?e + mm_length ?e > t then mm_base ?e + mm_length ?e else t"
  let ?b = "if usable ?e \<and> mm_length ?e \<ge> 0x100000 \<and> b = 0 then mm_base ?e else b"
  have step: "memmap_scan resp (of_nat i) t b st = memmap_scan resp (of_nat (Suc i)) ?t ?b st"
    using memmap_loads [OF at] i lt by (subst memmap_scan.simps) (simp add: add.commute Let_def)
  obtain t' where t': "memmap_scan resp (of_nat (Suc i)) ?t ?b st =
        Some (t', if ?b \<noteq> 0 then ?b else first_big (drop (Suc i) es))"
      "unat t' = max (unat ?t) (top_of (drop (Suc i) es))"
    using Suc.IH [of "Suc i" ?t ?b] Suc.prems(1) nw(1) by auto
  have "unat ?t = (if usable ?e then max (unat t) (unat (mm_base ?e) + unat (mm_length ?e)) else unat t)"
  proof (cases "usable ?e")
    case True
    then have "unat (mm_base ?e + mm_length ?e) = unat (mm_base ?e) + unat (mm_length ?e)"
      using nw(2) by (simp add: unat_add_lem [THEN iffD1])
    then show ?thesis using True by (simp add: word_less_nat_alt)
  qed simp
  then have "unat t' = max (unat t) (top_of (drop i es))"
    using t'(2) unfolding drop by (simp add: max.assoc)
  moreover have "(if ?b \<noteq> 0 then ?b else first_big (drop (Suc i) es)) =
      (if b \<noteq> 0 then b else first_big (drop i es))"
    unfolding drop by simp
  ultimately show ?case using step t'(1) by simp
qed

section \<open>The free memory\<close>

definition blocks_of :: "limine_memmap_entry \<Rightarrow> nat set" where
  "blocks_of e = {unat (mm_base e) div 4096 ..< unat (mm_base e) div 4096 + unat (mm_length e) div 4096}"

definition usable_blocks :: "limine_memmap_entry list \<Rightarrow> nat set" where
  "usable_blocks es = \<Union> (blocks_of ` {e \<in> set es. usable e})"

lemma usable_blocks_Cons:
  "usable_blocks (e # es) = (if usable e then blocks_of e else {}) \<union> usable_blocks es"
  by (auto simp: usable_blocks_def)

text \<open>Marking blocks writes the bytes of the bitmap only.\<close>

lemma mark_outside:
  assumes "i < unat (max_blocks st)" and "unat (max_blocks st) < 2 ^ 31"
    and "\<not> within x (pmm_bitmap st) (bitmap_bytes st)"
  shows "mem (mark i b st) x = mem st x"
proof -
  have "i div 8 < bitmap_bytes st" using assms(1) unfolding bitmap_bytes_def by linarith
  then show ?thesis using assms by (simp add: mark_def put_bit_outside)
qed

lemma mark_range_outside:
  assumes "\<not> within x (pmm_bitmap st) (bitmap_bytes st)"
  shows "a + n \<le> unat (max_blocks st) \<Longrightarrow> unat (max_blocks st) < 2 ^ 31 \<Longrightarrow>
    mem (mark_range n a b st) x = mem st x"
  using assms
proof (induction n arbitrary: a st)
  case (Suc n)
  then show ?case
    using mark_outside [of a st x b] by (simp add: bitmap_bytes_def)
qed simp

text \<open>
  \<open>pmm_step st st'\<close>: the PMM has only changed the bits of its bitmap and its counter.
\<close>

definition pmm_step :: "'a pmm_scheme \<Rightarrow> 'a pmm_scheme \<Rightarrow> bool" where
  "pmm_step st st' \<longleftrightarrow> (\<exists>m u. st' = st\<lparr>mem := m, used_blocks := u\<rparr>) \<and> pmm_wf st' \<and>
     (\<forall>x. \<not> within x (pmm_bitmap st) (bitmap_bytes st) \<longrightarrow> mem st' x = mem st x)"

lemma pmm_step_frame:
  assumes "pmm_step st st'"
  shows "max_blocks st' = max_blocks st" "pmm_bitmap st' = pmm_bitmap st" "cr3 st' = cr3 st"
    "hhdm_offset st' = hhdm_offset st" "bitmap_bytes st' = bitmap_bytes st" "pmm_wf st'"
  using assms by (auto simp: pmm_step_def bitmap_bytes_def)

lemma pmm_step_trans: "pmm_step st st' \<Longrightarrow> pmm_step st' st'' \<Longrightarrow> pmm_step st st''"
  unfolding pmm_step_def by (elim conjE exE, intro conjI) (fastforce simp: bitmap_bytes_def)+

lemma pmm_step_refl: "pmm_wf st \<Longrightarrow> pmm_step st st"
proof -
  have "st = st\<lparr>mem := mem st, used_blocks := used_blocks st\<rparr>" by simp
  then show "pmm_wf st \<Longrightarrow> pmm_step st st" unfolding pmm_step_def by blast
qed

lemma mark_range_update: "mark_range n a b st = st\<lparr>mem := mem (mark_range n a b st)\<rparr>"
proof (induction n arbitrary: a st)
  case (Suc n)
  have "mark_range n (Suc a) b (mark a b st) =
      (mark a b st)\<lparr>mem := mem (mark_range n (Suc a) b (mark a b st))\<rparr>" by (rule Suc)
  then show ?case by (simp add: mark_def)
qed simp

lemma init_region_ext:
  assumes "pmm_wf st" and "0 < max_blocks st"
    and "unat base div 4096 + unat len div 4096 \<le> unat (max_blocks st)"
  shows "\<exists>st'. pmm_init_region base len st = Some st' \<and> pmm_step st st' \<and>
    free_blocks st' =
      (free_blocks st \<union> {unat base div 4096 ..< unat base div 4096 + unat len div 4096}) - {0}"
proof -
  let ?n = "unat len div 4096" and ?a = "unat base div 4096"
  let ?r = "mark_range ?n ?a False st" and ?u = "used_blocks st - of_nat (unat len div 4096)"
  let ?st = "mark 0 True (?r\<lparr>used_blocks := ?u\<rparr>)"
  have max: "unat (max_blocks st) < 2 ^ 31" "0 < unat (max_blocks st)"
    using assms(1,2) by (simp_all add: pmm_wf_def word_less_nat_alt)
  obtain st' where st': "pmm_init_region base len st = Some st'" "pmm_wf st'"
      "free_blocks st' = (free_blocks st \<union> {?a..<?a + ?n}) - {0}"
    using pmm_init_region_free [OF assms] by blast
  have eq: "st' = ?st" using st'(1) pmm_init_region_eq [OF assms] by simp
  have "mem st' x = mem st x" if x: "\<not> within x (pmm_bitmap st) (bitmap_bytes st)" for x
    using mark_outside [of 0 "?r\<lparr>used_blocks := ?u\<rparr>" x True] mark_range_outside [OF x assms(3) max(1)]
      max x by (simp add: eq bitmap_bytes_def)
  moreover have "\<exists>m u. st' = st\<lparr>mem := m, used_blocks := u\<rparr>"
  proof -
    obtain m where m: "?r = st\<lparr>mem := m\<rparr>" using mark_range_update by blast
    have "st' = st\<lparr>mem := put_bit m (pmm_bitmap st) 0 True, used_blocks := ?u\<rparr>"
      unfolding eq m mark_def by simp
    then show ?thesis by blast
  qed
  ultimately show ?thesis using st' by (simp add: pmm_step_def)
qed

lemma deinit_region_ext:
  assumes "pmm_wf st" and "unat len + 4095 < 2 ^ 64"
    and "unat base div 4096 + (unat len + 4095) div 4096 \<le> unat (max_blocks st)"
  shows "\<exists>st'. pmm_deinit_region base len st = Some st' \<and> pmm_step st st' \<and>
    free_blocks st' =
      free_blocks st - {unat base div 4096 ..< unat base div 4096 + (unat len + 4095) div 4096}"
proof -
  let ?n = "(unat len + 4095) div 4096" and ?a = "unat base div 4096"
  let ?r = "mark_range ?n ?a True st" and ?u = "used_blocks st + of_nat ((unat len + 4095) div 4096)"
  have max: "unat (max_blocks st) < 2 ^ 31" using assms(1) by (simp add: pmm_wf_def)
  obtain st' where st': "pmm_deinit_region base len st = Some st'" "pmm_wf st'"
      "free_blocks st' = free_blocks st - {?a..<?a + ?n}"
    using pmm_deinit_region_free [OF assms] by blast
  have eq: "st' = ?r\<lparr>used_blocks := ?u\<rparr>" using st'(1) pmm_deinit_region_eq [OF assms] by simp
  have "mem st' x = mem st x" if "\<not> within x (pmm_bitmap st) (bitmap_bytes st)" for x
    using mark_range_outside [OF that assms(3) max] by (simp add: eq)
  moreover have "\<exists>m u. st' = st\<lparr>mem := m, used_blocks := u\<rparr>"
  proof -
    obtain m where m: "?r = st\<lparr>mem := m\<rparr>" using mark_range_update by blast
    show ?thesis unfolding eq m by auto
  qed
  ultimately show ?thesis using st' by (simp add: pmm_step_def)
qed

lemma div_plus_div: "x div k + y div k \<le> (x + y) div (k :: nat)"
  by (subst div_add1_eq) simp

lemma memmap_free_ok:
  fixes st :: "'a pmm_scheme"
  assumes at: "memmap_at (mem st) resp es" and len: "length es < 2 ^ 64"
    and apart: "\<And>x. memmap_cell (mem st) resp (length es) x \<Longrightarrow>
      \<not> within x (pmm_bitmap st) (bitmap_bytes st)"
    and max: "0 < max_blocks st" "top_of es div 4096 \<le> unat (max_blocks st)"
  shows "i + k = length es \<Longrightarrow> pmm_step st s \<Longrightarrow>
    \<exists>s'. memmap_free resp (of_nat i) s = Some s' \<and> pmm_step st s' \<and>
      free_blocks s' = free_blocks s \<union> usable_blocks (drop i es) -
        (if \<exists>e\<in>set (drop i es). usable e then {0} else {})"
proof (induction k arbitrary: i s)
  case 0
  have "memmap_at (mem s) resp es"
    using 0(2) apart by (intro memmap_at_cong(1) [OF at]) (simp add: pmm_step_def)
  then have "ld64 s (resp + 8) = Some (of_nat (length es))" by (rule memmap_loads(1))
  then show ?case using 0 by (subst memmap_free.simps) (simp add: usable_blocks_def)
next
  case (Suc k)
  have i: "i < length es" using Suc.prems(1) by simp
  let ?e = "es ! i"
  have drop: "drop i es = ?e # drop (Suc i) es" using i by (rule Cons_nth_drop_Suc [symmetric])
  have at': "memmap_at (mem s) resp es"
    using Suc.prems(2) apart by (intro memmap_at_cong(1) [OF at]) (simp add: pmm_step_def)
  have lt: "(of_nat i :: u64) < of_nat (length es)"
    using i len by (simp add: word_less_nat_alt unat_of_nat64)
  obtain s1 where s1: "(if usable ?e then pmm_init_region (mm_base ?e) (mm_length ?e) s else Some s) = Some s1"
      "pmm_step s s1" "free_blocks s1 = (if usable ?e then free_blocks s \<union> blocks_of ?e - {0}
         else free_blocks s)"
  proof (cases "usable ?e")
    case True
    have "unat (mm_base ?e) + unat (mm_length ?e) \<le> top_of es" using True i by (intro top_of_ge) simp_all
    then have "(unat (mm_base ?e) + unat (mm_length ?e)) div 4096 \<le> top_of es div 4096"
      by (rule div_le_mono)
    moreover have "unat (mm_base ?e) div 4096 + unat (mm_length ?e) div 4096 \<le>
        (unat (mm_base ?e) + unat (mm_length ?e)) div 4096"
      by (rule div_plus_div)
    ultimately have "unat (mm_base ?e) div 4096 + unat (mm_length ?e) div 4096 \<le> unat (max_blocks s)"
      using max(2) pmm_step_frame(1) [OF Suc.prems(2)] by simp
    then show ?thesis
      using init_region_ext [of s "mm_base ?e" "mm_length ?e"] that True max(1)
        pmm_step_frame(1,6) [OF Suc.prems(2)] by (auto simp: blocks_of_def)
  next
    case False
    then show ?thesis using that pmm_step_refl [OF pmm_step_frame(6) [OF Suc.prems(2)]] by simp
  qed
  have step: "memmap_free resp (of_nat i) s = memmap_free resp (of_nat (Suc i)) s1"
    using memmap_loads [OF at'] i lt s1(1) by (subst memmap_free.simps) (simp add: add.commute)
  have ext: "pmm_step st s1" using pmm_step_trans [OF Suc.prems(2) s1(2)] .
  obtain s' where s': "memmap_free resp (of_nat (Suc i)) s1 = Some s'" "pmm_step st s'"
      "free_blocks s' = free_blocks s1 \<union> usable_blocks (drop (Suc i) es) -
         (if \<exists>e\<in>set (drop (Suc i) es). usable e then {0} else {})"
    using Suc.IH [OF _ ext, of "Suc i"] Suc.prems(1) by auto
  have "free_blocks s' = free_blocks s \<union> usable_blocks (drop i es) -
      (if \<exists>e\<in>set (drop i es). usable e then {0} else {})"
  proof (cases "\<exists>e\<in>set (drop (Suc i) es). usable e")
    case True
    then show ?thesis using s1(3) s'(3) unfolding drop usable_blocks_Cons by auto
  next
    case False
    then have "usable_blocks (drop (Suc i) es) = {}" by (auto simp: usable_blocks_def)
    then show ?thesis using False s1(3) s'(3) unfolding drop usable_blocks_Cons by auto
  qed
  then show ?case using step s'(1,2) by auto
qed

text \<open>
  The whole of lines 66 to 93: the blocks that are free afterwards.
\<close>

definition boot_blocks :: "(u64 \<Rightarrow> u8) \<Rightarrow> u64 \<Rightarrow> limine_memmap_entry list \<Rightarrow> nat set" where
  "boot_blocks m bitmap es =
     usable_blocks es \<union> {i. top_of es div 4096 div 8 * 8 \<le> i \<and> i < top_of es div 4096 \<and>
       \<not> get_bit m bitmap i} - {0} -
     {unat (first_big es) div 4096 ..<
      unat (first_big es) div 4096 + (top_of es div 4096 div 8 + 4095) div 4096}"

lemma start_pmm_ok:
  fixes st :: "'a pmm_scheme"
  assumes resp: "memmap_response bi \<noteq> 0" "memmap_at (mem st) (memmap_response bi) es"
      "length es < 2 ^ 64"
    and nw: "no_wrap es" and top: "4096 \<le> top_of es" "top_of es div 4096 < 2 ^ 31"
  defines "start \<equiv> hhdm_offset st + first_big es"
    and "n \<equiv> 4 * ((top_of es div 4096 + 31) div 32)"
  assumes bitmap: "kregion start n"
    and fits: "unat (first_big es) div 4096 + (top_of es div 4096 div 8 + 4095) div 4096 \<le>
      top_of es div 4096"
    and apart: "\<And>x. memmap_cell (mem st) (memmap_response bi) (length es) x \<Longrightarrow> \<not> within x start n"
    and tx: "tx_live st"
  shows "\<exists>st'. start_pmm bi st = Some st' \<and> pmm_wf st' \<and> pmm_bitmap st' = start \<and>
    unat (max_blocks st') = top_of es div 4096 \<and> hhdm_offset st' = hhdm_offset st \<and>
    cr3 st' = cr3 st \<and> free_blocks st' = boot_blocks (mem st) start es \<and>
    pmm.more st' = pmm.more st \<and>
    (\<forall>x. \<not> within x start n \<longrightarrow> mem st' x = mem st x)"
proof -
  let ?resp = "memmap_response bi" and ?N = "top_of es div 4096"
  have drop0: "drop 0 es = es" by simp
  obtain t where t: "memmap_scan ?resp 0 0 0 st = Some (t, first_big es)" "unat t = top_of es"
    using memmap_scan_ok [OF resp(2,3), of 0 "length es" 0 0] nw by auto
  have n8: "?N div 8 \<le> n" unfolding n_def by linarith
  obtain s1 where s1: "pmm_initialize t start st = Some s1" "pmm_wf s1" "unat (max_blocks s1) = ?N"
      "pmm_bitmap s1 = start" "cr3 s1 = cr3 st" "hhdm_offset s1 = hhdm_offset st"
      "mem s1 = filled (mem st) start (?N div 8) 0xFF"
      "free_blocks s1 = {i. ?N div 8 * 8 \<le> i \<and> i < ?N \<and> \<not> get_bit (mem st) start i}"
      "pmm.more s1 = pmm.more st"
    using pmm_initialize_free [of t start st] top bitmap tx by (auto simp: t(2) n_def)
  have bytes: "bitmap_bytes s1 = n" by (simp add: bitmap_bytes_def s1(3) n_def)
  have out1: "mem s1 x = mem st x" if "\<not> within x start n" for x
    using that within_mono [OF _ n8] unfolding s1(7) filled_def by auto
  have cell: "memmap_at (mem s1) ?resp es"
      "memmap_cell (mem s1) ?resp (length es) x = memmap_cell (mem st) ?resp (length es) x" for x
    using memmap_at_cong [OF resp(2), of "mem s1"] out1 apart by blast+
  have "0 < unat (max_blocks s1)" using top(1) by (simp add: s1(3) div_greater_zero_iff)
  then have pos: "0 < max_blocks s1" by (simp add: word_less_nat_alt)
  have apart1: "\<not> within x (pmm_bitmap s1) (bitmap_bytes s1)"
    if "memmap_cell (mem s1) ?resp (length es) x" for x
    using that apart cell(2) by (simp add: s1(4) bytes)
  have "\<exists>e\<in>set es. usable e"
  proof (rule ccontr)
    assume "\<not> (\<exists>e\<in>set es. usable e)"
    then have "top_of es = 0" by (induction es) auto
    then show False using top(1) by simp
  qed
  then obtain s2 where s2: "memmap_free ?resp 0 s1 = Some s2" "pmm_step s1 s2"
      "free_blocks s2 = free_blocks s1 \<union> usable_blocks es - {0}"
    using memmap_free_ok [OF cell(1) resp(3) apart1 pos _ _ pmm_step_refl [OF s1(2)], of 0 "length es"]
    by (auto simp: s1(3))
  note f2 = pmm_step_frame [OF s2(2)]
  have bs: "unat (t div 4096 div 8) = ?N div 8" by (simp add: unat_div t(2))
  have "unat (t div 4096 div 8) + 4095 < 2 ^ 64" using top(2) div_le_dividend [of ?N 8] unfolding bs by simp
  then obtain s3 where s3: "pmm_deinit_region (first_big es) (t div 4096 div 8) s2 = Some s3"
      "pmm_step s2 s3" "free_blocks s3 = free_blocks s2 -
        {unat (first_big es) div 4096 ..< unat (first_big es) div 4096 + (?N div 8 + 4095) div 4096}"
    using deinit_region_ext [OF f2(6), of "t div 4096 div 8" "first_big es"] fits
    by (auto simp: bs f2(1) s1(3))
  note f3 = pmm_step_frame [OF s3(2)]
  have "start_pmm bi st = Some s3"
    using resp(1) t(1) s1(1) s2(1) s3(1) by (simp add: start_pmm_def start_def Let_def)
  moreover have "mem s3 x = mem st x" if "\<not> within x start n" for x
    using that out1 s2(2) s3(2) f2 by (simp add: pmm_step_def s1(4) bytes)
  moreover have "free_blocks s3 = boot_blocks (mem st) start es"
    unfolding s3(3) s2(3) s1(8) boot_blocks_def by auto
  moreover have "pmm.more s3 = pmm.more st" using s1(9) s2(2) s3(2) by (auto simp: pmm_step_def)
  ultimately show ?thesis using f2 f3 s1(3-6) by (intro exI [of _ s3]) simp
qed

section \<open>The heap window\<close>

abbreviation heap_start :: u64 where "heap_start \<equiv> 0xFFFF900000000000"

definition heap_path :: "nat \<Rightarrow> nat list" where
  "heap_path j = va_path (heap_start + of_nat (4096 * j))"

lemma unat_heap: "j < 4096 \<Longrightarrow> unat (heap_start + of_nat (4096 * j)) = 0xFFFF900000000000 + 4096 * j"
proof -
  assume "j < 4096"
  moreover from this have "unat (of_nat (4096 * j) :: u64) = 4096 * j" by (intro unat_of_nat64) simp
  ultimately show ?thesis by (subst unat_add_lem [THEN iffD1]) simp_all
qed

lemma heap_page_indices:
  assumes "j < 4096"
  shows "page_index 12 (heap_start + of_nat (4096 * j)) = j mod 512"
    and "page_index 21 (heap_start + of_nat (4096 * j)) = j div 512"
    and "page_index 39 (heap_start + of_nat (4096 * j)) = 288"
proof -
  have 12: "(0xFFFF900000000000 + 4096 * j) div 4096 = 512 * 0x7FFFC800000 + j" by simp
  have 21: "(0xFFFF900000000000 + 4096 * j) div 2 ^ 21 = 512 * 0x3FFFE4000 + j div 512"
    using div_mult2_eq [of "0xFFFF900000000000 + 4096 * j" 4096 512] unfolding 12 by simp
  have 39: "(0xFFFF900000000000 + 4096 * j) div 2 ^ 39 = 0x1FFFF20"
    using assms by (intro div_nat_eqI) simp_all
  have p12: "(2 :: nat) ^ 12 = 4096" by simp
  note u = unat_heap [OF assms] and pi = page_index_div
  show "page_index 12 (heap_start + of_nat (4096 * j)) = j mod 512"
    unfolding pi u p12 12 by (rule mod_mult_self4)
  show "page_index 21 (heap_start + of_nat (4096 * j)) = j div 512"
    unfolding pi u 21 mod_mult_self4 using assms
    by (intro mod_less) (simp add: less_mult_imp_div_less)
  show "page_index 39 (heap_start + of_nat (4096 * j)) = 288"
    unfolding pi u 39 by simp
qed

lemma heap_path_inj: "inj_on heap_path {..<4096}"
proof (rule inj_onI)
  fix i j assume ij: "i \<in> {..<4096}" "j \<in> {..<4096}" "heap_path i = heap_path j"
  then have "page_index 12 (heap_start + of_nat (4096 * i)) = page_index 12 (heap_start + of_nat (4096 * j))"
    "page_index 21 (heap_start + of_nat (4096 * i)) = page_index 21 (heap_start + of_nat (4096 * j))"
    by (simp_all add: heap_path_def va_path_def)
  then have "i mod 512 = j mod 512" "i div 512 = j div 512"
    using heap_page_indices ij(1,2) by simp_all
  then show "i = j" by (metis div_mult_mod_eq)
qed

lemma heap_path_valid: "j < 4096 \<Longrightarrow> 288 \<in> I \<Longrightarrow> lpath I (heap_path j) \<and> length (heap_path j) = 4"
  unfolding heap_path_def using va_path_lpath heap_page_indices(3) by simp

lemma heap_path_of:
  assumes "unat heap_start \<le> unat va" and "unat va < unat heap_start + 0x1000000"
    and "(unat va - unat heap_start) div 4096 < 4096"
  shows "va_path va = heap_path ((unat va - unat heap_start) div 4096)"
proof -
  let ?j = "(unat va - unat heap_start) div 4096"
  have h: "unat heap_start = 4096 * 0xFFFF900000000" by simp
  have page: "unat va div 4096 = unat (heap_start + of_nat (4096 * ?j)) div 4096"
  proof -
    have "unat va = 4096 * 0xFFFF900000000 + (unat va - unat heap_start)" using assms(1) by simp
    then have "unat va div 4096 = 0xFFFF900000000 + ?j"
      by (metis div_mult_self4 zero_neq_numeral)
    then show ?thesis using unat_heap [OF assms(3)] by simp
  qed
  have "page_index sh va = page_index sh (heap_start + of_nat (4096 * ?j))" if "12 \<le> sh" for sh
  proof -
    have "(2 :: nat) ^ sh = 4096 * 2 ^ (sh - 12)"
      using that power_add [of "2 :: nat" 12 "sh - 12"] by simp
    then have "x div 2 ^ sh = x div 4096 div 2 ^ (sh - 12)" for x :: nat
      by (simp only: div_mult2_eq)
    then show ?thesis using page by (simp only: page_index_div)
  qed
  then show ?thesis by (simp add: heap_path_def va_path_def)
qed

lemma heap_map_loop_ok:
  assumes I: "288 \<in> I"
  shows "k + d = 4096 \<Longrightarrow> vm_wf I s \<Longrightarrow> 4 * d \<le> card (free_blocks s) \<Longrightarrow>
    \<exists>s' fr. heap_map_loop d (heap_start + of_nat (4096 * k)) s = Some s' \<and> vm_ext I (4 * d) s s' \<and>
      mapped I heap_path 3 s s' fr k 4096"
proof (induction d arbitrary: k s)
  case 0
  then show ?case
    using vm_ext_refl [OF 0(2)] mapped_none [of 4096 k] by (intro exI conjI) simp_all
next
  case (Suc d)
  let ?v = "heap_start + of_nat (4096 * k)"
  have k: "k < 4096" and next_index: "Suc k + d = 4096" using Suc.prems(1) by simp_all
  have idx: "page_index 39 ?v \<in> I" using heap_page_indices(3) [OF k] I by simp
  obtain f s1 s2 where step: "pmm_alloc_block s = Some (block_addr f, s1)"
      "vmm_map_page (block_addr f) ?v 3 s1 = Some s2" "vm_ext I 4 s s2"
      "f \<in> free_blocks s" "held I s2 f"
      "\<forall>q. lpath I q \<longrightarrow> length q = 4 \<longrightarrow>
         entry s2 q = (if q = heap_path k then Some (leaf_entry (block_addr f) 3) else entry s q)"
    using alloc_map [OF Suc.prems(2) _ idx, of 3] Suc.prems(3) by (auto simp: heap_path_def)
  have free: "4 * d \<le> card (free_blocks s2)" using step(3) Suc.prems(3) by (simp add: vm_ext_def)
  obtain s' fr where IH: "heap_map_loop d (heap_start + of_nat (4096 * Suc k)) s2 = Some s'"
      "vm_ext I (4 * d) s2 s'" "mapped I heap_path 3 s2 s' fr (Suc k) 4096"
    using Suc.IH [OF next_index vm_ext_frame(6) [OF step(3)] free] by blast
  have "heap_start + of_nat (4096 * Suc k) = ?v + 4096" by (simp add: algebra_simps)
  then have "heap_map_loop (Suc d) ?v s = Some s'" using step(1,2) IH(1) by simp
  moreover have "mapped I heap_path 3 s s' (fr(k := f)) k 4096"
    using mapped_step [OF k heap_path_inj _ _ step(3-6) IH(2,3)] heap_path_valid [OF k I] by simp
  moreover have "vm_ext I (4 * Suc d) s s'" using vm_ext_trans [OF step(3) IH(2)] by simp
  ultimately show ?case by blast
qed

lemma vm_free_list:
  fixes s :: "'a kheap_scheme" and a :: u64
  defines "t \<equiv> s\<lparr>free_list := a\<rparr>"
  shows "vm_wf I t = vm_wf I s" "free_blocks t = free_blocks s" "held I t = held I s"
    "foreign I t = foreign I s" "entry t = entry s"
proof -
  have tab: "table t = table s" by (intro ext) (simp add: table_def t_def)
  have fb: "free_blocks t = free_blocks s" by (simp add: free_blocks_def blk_def t_def)
  have bm: "bitmap_pages t = bitmap_pages s" by (simp add: bitmap_pages_def bitmap_bytes_def t_def)
  have tabs: "tabs I t = tabs I s" by (simp add: tabs_def tab)
  have pw: "pmm_wf t = pmm_wf s" by (simp add: pmm_wf_def bitmap_bytes_def tx_live_def t_def)
  have h: "hhdm_offset t = hhdm_offset s" by (simp add: t_def)
  show "free_blocks t = free_blocks s" by (rule fb)
  show "vm_wf I t = vm_wf I s"
    by (simp add: vm_wf_def tab fb bm tabs pw reachable_page_def h)
  show "held I t = held I s" by (intro ext) (simp add: held_def fb bm tabs h)
  show "foreign I t = foreign I s" by (intro ext) (simp add: foreign_def fb bm tabs h)
  show "entry t = entry s" by (intro ext) (simp add: entry_def t_def)
qed

text \<open>
  All of lines 95 to 102. Memory that is foreign before \<open>vmm_initialize\<close> stays foreign: the new
  root is the only table below the fresh indices, and it is a frame that was free.
\<close>

lemma start_heap_ok:
  fixes st :: "'a kheap_scheme"
  assumes wf: "vm_wf {} st" and free: "16385 \<le> card (free_blocks st)" and fresh: "entry st [288] = None"
    and window: "\<And>x. within x heap_start 24 \<Longrightarrow> foreign {} st x"
  shows "\<exists>st' fr. start_heap st = Some st' \<and> vm_wf (fresh_indices st) st' \<and>
    heap st' [(0x1000000, True)] \<and> free_list st' = heap_start \<and>
    hhdm_offset st' = hhdm_offset st \<and> card (free_blocks st) \<le> card (free_blocks st') + 16385 \<and>
    free_blocks st' \<subseteq> free_blocks st \<and> kheap.more st' = kheap.more st \<and> inj_on fr {..<4096} \<and>
    (\<forall>j<4096. fr j \<in> free_blocks st \<and> held (fresh_indices st) st' (fr j) \<and>
       entry st' (heap_path j) = Some (leaf_entry (block_addr (fr j)) 3)) \<and>
    (\<forall>x. foreign {} st x \<longrightarrow> foreign (fresh_indices st) st' x \<and>
       (\<not> within x heap_start 24 \<longrightarrow> mem st' x = mem st x))"
proof -
  let ?I = "fresh_indices st" and ?f = "Min (free_blocks st)"
  have ne: "free_blocks st \<noteq> {}" using free by auto
  have f: "?f \<in> free_blocks st" using alloc_min(1) [OF wf ne] .
  have I: "288 \<in> ?I" using fresh by (simp add: fresh_indices_def)
  obtain s1 where s1: "vmm_initialize st = Some s1" "vm_wf ?I s1" "hhdm_offset s1 = hhdm_offset st"
      "bitmap_pages s1 = bitmap_pages st" "free_blocks s1 = free_blocks st - {?f}"
      "tabs ?I s1 = {?f}"
      "\<forall>x. pg (hhdm_offset st) x \<notin> {?f} \<union> bitmap_pages st \<longrightarrow> mem s1 x = mem st x"
      "pmm.more s1 = pmm.more st"
    using vmm_initialize_fresh [OF wf ne] by blast
  have old: "foreign ?I s1 x \<and> mem s1 x = mem st x" if x: "foreign {} st x" for x
  proof -
    have "pg (hhdm_offset st) x \<noteq> ?f" using x f by (metis UnCI foreign_def)
    then show ?thesis using x s1(3-7) by (auto simp: foreign_def)
  qed
  have "card (free_blocks s1) = card (free_blocks st) - 1"
    unfolding s1(5) using f by (simp add: card_Diff_singleton)
  then have card: "4 * 4096 \<le> card (free_blocks s1)" "card (free_blocks st) = card (free_blocks s1) + 1"
    using free by simp_all
  obtain s2 fr where s2: "heap_map_loop 4096 heap_start s1 = Some s2" "vm_ext ?I (4 * 4096) s1 s2"
      "mapped ?I heap_path 3 s1 s2 fr 0 4096"
    using heap_map_loop_ok [OF I, of 0 4096 s1] s1(2) card(1) by auto
  have "kregion heap_start (Suc (unat (0x1000000 :: u64)))" by (simp add: kregion_def khalf_def)
  then obtain m where m: "kheap_initialize heap_start 0x1000000 s2 =
        Some (s2\<lparr>free_list := heap_start, mem := m\<rparr>)"
      "heap (s2\<lparr>free_list := heap_start, mem := m\<rparr>) [(0x1000000, True)]"
      "\<forall>x. \<not> within x heap_start 24 \<longrightarrow> m x = mem s2 x"
    using kheap_initialize_ok [of heap_start "0x1000000" s2] by auto
  let ?s = "s2\<lparr>free_list := heap_start, mem := m\<rparr>"
  have same: "m x = mem s2 x" if "pg (hhdm_offset s2) x \<in> tabs ?I s2 \<union> bitmap_pages s2" for x
  proof -
    have "\<not> foreign ?I s2 x" using that by (simp add: foreign_def)
    then have "\<not> within x heap_start 24" using window old s2(2) by (auto simp: vm_ext_def)
    then show ?thesis using m(3) by blast
  qed
  note u = untouched [OF vm_ext_frame(6) [OF s2(2)] same]
  have eq: "?s = s2\<lparr>mem := m, free_list := heap_start\<rparr>" by simp
  have upd: "vm_wf ?I ?s = vm_wf ?I (s2\<lparr>mem := m\<rparr>)" "free_blocks ?s = free_blocks (s2\<lparr>mem := m\<rparr>)"
    "held ?I ?s = held ?I (s2\<lparr>mem := m\<rparr>)" "foreign ?I ?s = foreign ?I (s2\<lparr>mem := m\<rparr>)"
    "entry ?s = entry (s2\<lparr>mem := m\<rparr>)"
    unfolding eq by (rule vm_free_list)+
  have "start_heap st = Some ?s"
    using s1(1) s2(1) m(1) by (simp add: start_heap_def)
  moreover have "vm_wf ?I ?s" using u(1) upd(1) by simp
  moreover have "card (free_blocks st) \<le> card (free_blocks ?s) + 16385"
    using card(2) s2(2) u(2) upd(2) by (simp add: vm_ext_def)
  moreover have "free_blocks ?s \<subseteq> free_blocks st"
    using s1(5) s2(2) u(2) upd(2) by (auto simp: vm_ext_def)
  moreover have "kheap.more ?s = kheap.more st"
  proof -
    have "pmm.more s2 = pmm.more st" using s2(2) s1(8) by (auto simp: vm_ext_def)
    then have "kheap.more s2 = kheap.more st" by (cases s2, cases st) simp
    then show ?thesis by simp
  qed
  moreover have "fr j \<in> free_blocks st \<and> held ?I ?s (fr j) \<and>
      entry ?s (heap_path j) = Some (leaf_entry (block_addr (fr j)) 3)" if "j < 4096" for j
    using s2(3) that u(5,6) upd(3,5) s1(5) heap_path_valid [OF that I] by (auto simp: mapped_def)
  moreover have "foreign ?I ?s x \<and> (\<not> within x heap_start 24 \<longrightarrow> mem ?s x = mem st x)"
    if "foreign {} st x" for x
    using old [OF that] s2(2) u(4) upd(4) m(3) by (auto simp: vm_ext_def)
  moreover have "inj_on fr {..<4096}" using s2(3) by (simp add: mapped_def atLeast0LessThan)
  moreover have "hhdm_offset ?s = hhdm_offset st" using vm_ext_frame(2) [OF s2(2)] s1(3) by simp
  ultimately show ?thesis using m(2) by (intro exI [of _ ?s] exI [of _ fr]) simp
qed

section \<open>Properties\<close>

text \<open>
  \<open>boot_map_ok st bi es\<close>: the boot loader has left the memory map \<open>es\<close>; the bitmap for the memory
  below its top fits where \<open>_start\<close> puts it, and does not overwrite the map.
\<close>

definition boot_map_ok :: "'a machine_scheme \<Rightarrow> boot_info \<Rightarrow> limine_memmap_entry list \<Rightarrow> bool" where
  "boot_map_ok st bi es \<longleftrightarrow>
     memmap_response bi \<noteq> 0 \<and> memmap_at (mem st) (memmap_response bi) es \<and> length es < 2 ^ 64 \<and>
     no_wrap es \<and> 4096 \<le> top_of es \<and> top_of es div 4096 < 2 ^ 31 \<and>
     kregion (hhdm_offset st + first_big es) (4 * ((top_of es div 4096 + 31) div 32)) \<and>
     unat (first_big es) div 4096 + (top_of es div 4096 div 8 + 4095) div 4096 \<le> top_of es div 4096 \<and>
     (\<forall>x. memmap_cell (mem st) (memmap_response bi) (length es) x \<longrightarrow>
        \<not> within x (hhdm_offset st + first_big es) (4 * ((top_of es div 4096 + 31) div 32))) \<and>
     tx_live st"

lemma first_big_aligned:
  "(\<forall>e\<in>set es. usable e \<longrightarrow> 4096 dvd unat (mm_base e)) \<Longrightarrow> 4096 dvd unat (first_big es)"
  by (induction es) auto

lemma boot_blocks_inside:
  assumes al: "\<forall>e\<in>set es. usable e \<longrightarrow> 4096 dvd unat (mm_base e)"
    and full: "8 dvd top_of es div 4096" and i: "i \<in> boot_blocks m b es"
  shows "i \<noteq> 0" and "\<exists>e\<in>set es. usable e \<and> unat (mm_base e) \<le> 4096 * i \<and>
      4096 * i + 4096 \<le> unat (mm_base e) + unat (mm_length e)"
    and "4096 * i + 4096 \<le> unat (first_big es) \<or>
      unat (first_big es) + top_of es div 4096 div 8 \<le> 4096 * i"
proof -
  let ?N = "top_of es div 4096"
  have "?N div 8 * 8 = ?N" using full by simp
  then have u: "i \<in> usable_blocks es" "i \<noteq> 0"
      "i \<notin> {unat (first_big es) div 4096 ..< unat (first_big es) div 4096 + (?N div 8 + 4095) div 4096}"
    using i by (auto simp: boot_blocks_def)
  show "i \<noteq> 0" by (rule u(2))
  obtain e where e: "e \<in> set es" "usable e" "unat (mm_base e) div 4096 \<le> i"
      "i < unat (mm_base e) div 4096 + unat (mm_length e) div 4096"
    using u(1) by (auto simp: usable_blocks_def blocks_of_def)
  obtain b where b: "unat (mm_base e) = 4096 * b" using al e(1,2) by (auto elim: dvdE)
  have "4096 * (unat (mm_length e) div 4096) \<le> unat (mm_length e)" by simp
  then have "unat (mm_base e) \<le> 4096 * i" "4096 * i + 4096 \<le> unat (mm_base e) + unat (mm_length e)"
    using e(3,4) b by simp_all
  then show "\<exists>e\<in>set es. usable e \<and> unat (mm_base e) \<le> 4096 * i \<and>
      4096 * i + 4096 \<le> unat (mm_base e) + unat (mm_length e)" using e(1,2) by blast
  obtain f where f: "unat (first_big es) = 4096 * f" using first_big_aligned [OF al] by (rule dvdE)
  have "?N div 8 \<le> 4096 * ((?N div 8 + 4095) div 4096)" by linarith
  then show "4096 * i + 4096 \<le> unat (first_big es) \<or> unat (first_big es) + ?N div 8 \<le> 4096 * i"
    using u(3) f by auto
qed

text \<open>The first region that can take the bitmap, as the scan of \<open>_start\<close> looks for it.\<close>

definition big_region :: "limine_memmap_entry \<Rightarrow> bool" where
  "big_region e \<longleftrightarrow> usable e \<and> 0x100000 \<le> unat (mm_length e) \<and> mm_base e \<noteq> 0"

lemma first_big_find:
  "first_big es = (case find big_region es of None \<Rightarrow> 0 | Some e \<Rightarrow> mm_base e)"
  by (induction es) (auto simp: big_region_def word_le_nat_alt)

lemma bitmap_in_region:
  assumes "find big_region es = Some e" and "m \<le> 2 ^ 35"
  shows "4 * ((m div 4096 + 31) div 32) \<le> unat (mm_length e)"
proof -
  have "0x100000 \<le> unat (mm_length e)"
    using assms(1) by (auto simp: find_Some_iff big_region_def)
  moreover have "m div 4096 \<le> 2 ^ 35 div 4096" using assms(2) by (rule div_le_mono)
  then have "(m div 4096 + 31) div 32 \<le> (2 ^ 35 div 4096 + 31) div 32" by (intro div_le_mono) simp
  then have "4 * ((m div 4096 + 31) div 32) \<le> 0x100000" by simp
  ultimately show ?thesis by linarith
qed

text \<open>A page of usable memory behind block 0 and outside the bytes of the bitmap.\<close>

definition usable_page :: "limine_memmap_entry list \<Rightarrow> nat \<Rightarrow> bool" where
  "usable_page es i \<longleftrightarrow> i \<noteq> 0 \<and>
     (\<exists>e\<in>set es. usable e \<and> unat (mm_base e) \<le> 4096 * i \<and>
        4096 * i + 4096 \<le> unat (mm_base e) + unat (mm_length e)) \<and>
     (4096 * i + 4096 \<le> unat (first_big es) \<or>
      unat (first_big es) + top_of es div 4096 div 8 \<le> 4096 * i)"

text \<open>
  C6. The memory manager that \<open>_start\<close> sets up from a memory map that the boot loader left in
  memory (\<open>boot_map_ok\<close>: below 8 TiB, no region wraps, the bitmap lies in the kernel half, below the
  top and not over the map itself): it tracks the memory up to the top of the highest usable
  region, and its bitmap begins where the first usable region of at least 1 MiB that does not
  begin at 0 begins, or at 0 if there is none. All the words that the manager uses of it lie
  inside that region if the top is at most 32 GiB; above that they can run past its end, which the
  code does not check. For usable regions that begin at page boundaries and a top that fills the
  last byte of the bitmap, every block it counts as free is a page of usable memory, not page 0
  and outside the bytes of the bitmap, and as many calls of \<open>pmm_alloc_block\<close> as there are free
  blocks return different such pages.
\<close>

theorem boot_hands_out_usable_memory:
  assumes "boot_map_ok st bi es" and "\<forall>e\<in>set es. usable e \<longrightarrow> 4096 dvd unat (mm_base e)"
    and "8 dvd top_of es div 4096"
  shows "\<exists>st'. start_pmm bi st = Some st' \<and> pmm_wf st' \<and>
    unat (max_blocks st') = top_of es div 4096 \<and>
    pmm_bitmap st' = hhdm_offset st + first_big es \<and>
    (case find big_region es of None \<Rightarrow> first_big es = 0
     | Some e \<Rightarrow> first_big es = mm_base e \<and>
         (top_of es \<le> 2 ^ 35 \<longrightarrow> 4 * ((top_of es div 4096 + 31) div 32) \<le> unat (mm_length e))) \<and>
    (\<forall>i\<in>free_blocks st'. usable_page es i) \<and>
    (\<forall>n\<le>card (free_blocks st'). \<exists>as st''. alloc_many pmm_alloc_block n st' = Some (as, st'') \<and>
       length as = n \<and> distinct as \<and> (\<forall>a\<in>set as. \<exists>i. a = block_addr i \<and> usable_page es i))"
proof -
  have ok: "memmap_response bi \<noteq> 0" "memmap_at (mem st) (memmap_response bi) es" "length es < 2 ^ 64"
     "no_wrap es" "4096 \<le> top_of es" "top_of es div 4096 < 2 ^ 31"
     "kregion (hhdm_offset st + first_big es) (4 * ((top_of es div 4096 + 31) div 32))"
     "unat (first_big es) div 4096 + (top_of es div 4096 div 8 + 4095) div 4096 \<le> top_of es div 4096"
     "\<And>x. memmap_cell (mem st) (memmap_response bi) (length es) x \<Longrightarrow>
        \<not> within x (hhdm_offset st + first_big es) (4 * ((top_of es div 4096 + 31) div 32))"
     "tx_live st"
    using assms(1) by (auto simp: boot_map_ok_def)
  obtain st' where st': "start_pmm bi st = Some st'" "pmm_wf st'"
      "pmm_bitmap st' = hhdm_offset st + first_big es" "unat (max_blocks st') = top_of es div 4096"
      "free_blocks st' = boot_blocks (mem st) (hhdm_offset st + first_big es) es"
    using start_pmm_ok [OF ok] by blast
  have free: "usable_page es i" if "i \<in> free_blocks st'" for i
    using boot_blocks_inside [OF assms(2,3), of i] that unfolding st'(5) usable_page_def by blast
  have "\<exists>as st''. alloc_many pmm_alloc_block n st' = Some (as, st'') \<and> length as = n \<and> distinct as \<and>
      (\<forall>a\<in>set as. \<exists>i. a = block_addr i \<and> usable_page es i)" if "n \<le> card (free_blocks st')" for n
    using pmm.alloc_many_distinct [OF st'(2) that] free by blast
  moreover have "case find big_region es of None \<Rightarrow> first_big es = 0
     | Some e \<Rightarrow> first_big es = mm_base e \<and>
         (top_of es \<le> 2 ^ 35 \<longrightarrow> 4 * ((top_of es div 4096 + 31) div 32) \<le> unat (mm_length e))"
    using bitmap_in_region by (auto simp: first_big_find split: option.splits)
  ultimately show ?thesis using st'(1-4) free by (intro exI [of _ st']) simp
qed

text \<open>A map of one usable region, 2 MiB from 1 MiB, and one that is not usable.\<close>

definition demo_map :: "limine_memmap_entry list" where
  "demo_map = [\<lparr>mm_base = 0x100000, mm_length = 0x200000, mm_type = 0\<rparr>,
     \<lparr>mm_base = 0x300000, mm_length = 0x1000, mm_type = 1\<rparr>]"

definition demo_map_words :: "u64 list" where
  "demo_map_words = [0, 2, 0xFFFF800000400018, 0xFFFF800000400028, 0xFFFF800000400040,
     0x100000, 0x200000, 0, 0x300000, 0x1000, 1]"

definition demo_boot_info :: boot_info where
  "demo_boot_info = \<lparr>base_revision_supported = True, hhdm_response = 0,
     memmap_response = 0xFFFF800000400000, module_response = 0, video_bad_str = 0,
     init_kex_str = 0, vid_size_var = 0, file_size_var = 0\<rparr>"

definition demo_boot_pmm :: pmm where
  "demo_boot_pmm = demo_pmm\<lparr>mem :=
     place 0xFFFF800000400000 (concat (map (le 8) demo_map_words)) (\<lambda>_. 0)\<rparr>"

lemma demo_map_field:
  "i < 11 \<Longrightarrow> ldw 8 (mem demo_boot_pmm) (0xFFFF800000400000 + of_nat (8 * i)) = demo_map_words ! i"
proof (rule words_at)
  have len: "length (concat (map (le 8) demo_map_words)) = 88" by (simp add: demo_map_words_def)
  have "8 * length demo_map_words = length (concat (map (le 8) demo_map_words))"
    by (simp add: demo_map_words_def)
  then show "bytes (mem demo_boot_pmm) 0xFFFF800000400000 (8 * length demo_map_words) =
      concat (map (le 8) demo_map_words)"
    using bytes_place [of "concat (map (le 8) demo_map_words)"] len
    by (simp add: demo_boot_pmm_def)
qed (simp add: demo_map_words_def)

lemma demo_map_fields:
  "ldw 8 (mem demo_boot_pmm) 0xFFFF800000400008 = (2 :: u64)"
  "memmap_array (mem demo_boot_pmm) 0xFFFF800000400000 = 0xFFFF800000400018"
  "memmap_ptr (mem demo_boot_pmm) 0xFFFF800000400000 0 = 0xFFFF800000400028"
  "memmap_ptr (mem demo_boot_pmm) 0xFFFF800000400000 1 = 0xFFFF800000400040"
proof -
  note f = demo_map_field [of 1] demo_map_field [of 2] demo_map_field [of 3] demo_map_field [of 4]
  show "ldw 8 (mem demo_boot_pmm) 0xFFFF800000400008 = (2 :: u64)"
    and arr: "memmap_array (mem demo_boot_pmm) 0xFFFF800000400000 = 0xFFFF800000400018"
    using f(1,2) by (simp_all add: memmap_array_def demo_map_words_def)
  show "memmap_ptr (mem demo_boot_pmm) 0xFFFF800000400000 0 = 0xFFFF800000400028"
    "memmap_ptr (mem demo_boot_pmm) 0xFFFF800000400000 1 = 0xFFFF800000400040"
    using f(3,4) by (simp_all add: memmap_ptr_def arr demo_map_words_def)
qed

lemma demo_map_at: "memmap_at (mem demo_boot_pmm) 0xFFFF800000400000 demo_map"
proof -
  have two: "(\<forall>i<length demo_map. P i) \<longleftrightarrow> P 0 \<and> P 1" for P
    by (auto simp: demo_map_def less_Suc_eq numeral_2_eq_2)
  note f = demo_map_field [of 5] demo_map_field [of 6] demo_map_field [of 7]
    demo_map_field [of 8] demo_map_field [of 9] demo_map_field [of 10]
  show ?thesis
    unfolding memmap_at_def two
    using f demo_map_fields
    by (simp add: demo_map_words_def demo_map_def kregion_def khalf_def)
qed

lemma demo_map_cells:
  assumes "memmap_cell (mem demo_boot_pmm) 0xFFFF800000400000 (length demo_map) x"
  shows "\<not> within x 0xFFFF800000100000 96"
proof -
  have len: "length demo_map = 2" by (simp add: demo_map_def)
  have "within x (0xFFFF800000400000 + of_nat 8) 16 \<or> within x (0xFFFF800000400000 + of_nat 24) 16 \<or>
      within x (0xFFFF800000400000 + of_nat 40) 24 \<or> within x (0xFFFF800000400000 + of_nat 64) 24"
    using assms demo_map_fields by (auto simp: memmap_cell_def len numeral_2_eq_2 less_Suc_eq)
  then have "within x 0xFFFF800000400000 88"
    using within_part [of 8 16 88 x] within_part [of 24 16 88 x] within_part [of 40 24 88 x]
      within_part [of 64 24 88 x] by auto
  then obtain i where i: "i < 88" "x = 0xFFFF800000400000 + of_nat i" by (rule withinE)
  have "unat (of_nat i :: u64) = i" using i(1) by (intro unat_of_nat64) simp
  moreover have "x - 0xFFFF800000100000 = 0x300000 + of_nat i" using i(2) by simp
  ultimately have "unat (x - 0xFFFF800000100000) = 0x300000 + i"
    using i(1) by (simp add: unat_add_lem [THEN iffD1])
  then show ?thesis by (simp add: within_def)
qed

lemma demo_boot_map_ok: "boot_map_ok demo_boot_pmm demo_boot_info demo_map"
proof -
  have top: "top_of demo_map = 0x300000" "first_big demo_map = 0x100000"
    by (simp_all add: demo_map_def)
  have st: "hhdm_offset demo_boot_pmm = 0xFFFF800000000000" "memmap_response demo_boot_info = 0xFFFF800000400000"
    by (simp_all add: demo_boot_pmm_def demo_boot_info_def demo_pmm_def)
  have "tx_live demo_boot_pmm" by (simp add: demo_boot_pmm_def demo_pmm_def tx_live_demo)
  then show ?thesis
    unfolding boot_map_ok_def top st
    using demo_map_at demo_map_cells
    by (simp add: no_wrap_def kregion_def khalf_def) (simp add: demo_map_def)
qed

theorem boot_hands_out_usable_memory_witness:
  "\<exists>st'. start_pmm demo_boot_info demo_boot_pmm = Some st' \<and> pmm_wf st' \<and>
     (\<forall>i\<in>free_blocks st'. 256 < i \<and> i < 768)"
proof -
  have "\<forall>e\<in>set demo_map. usable e \<longrightarrow> 4096 dvd unat (mm_base e)" by (simp add: demo_map_def)
  moreover have "8 dvd top_of demo_map div 4096" by (simp add: demo_map_def)
  ultimately obtain st' where "start_pmm demo_boot_info demo_boot_pmm = Some st'" "pmm_wf st'"
      "\<forall>i\<in>free_blocks st'. usable_page demo_map i"
    using boot_hands_out_usable_memory [OF demo_boot_map_ok] by blast
  then show ?thesis by (intro exI [of _ st']) (fastforce simp: usable_page_def demo_map_def)
qed

text \<open>
  C7. The heap that \<open>_start\<close> builds: after \<open>vmm_initialize\<close>, the mapping loop and
  \<open>kheap_initialize\<close> the new address space translates every address of the 16 MiB window to
  one of 4096 distinct frames that were free and that no memory manager owns any more, the
  heap is one free block of 16 MiB, and foreign memory has changed in the first header only.
\<close>

theorem boot_heap_mapped:
  assumes "vm_wf {} st" and "16385 \<le> card (free_blocks st)" and "entry st [288] = None"
    and "\<And>x. within x heap_start 24 \<Longrightarrow> foreign {} st x"
  shows "\<exists>st' fr. start_heap st = Some st' \<and> vm_wf (fresh_indices st) st' \<and>
    heap st' [(0x1000000, True)] \<and> inj_on fr {..<4096} \<and> fr ` {..<4096} \<subseteq> free_blocks st \<and>
    (\<forall>j<4096. held (fresh_indices st) st' (fr j)) \<and>
    (\<forall>va. unat heap_start \<le> unat va \<and> unat va < unat heap_start + 0x1000000 \<longrightarrow>
       walk st' va = Some (block_addr (fr ((unat va - unat heap_start) div 4096)) + (va AND 0xFFF))) \<and>
    (\<forall>x. foreign {} st x \<longrightarrow> \<not> within x heap_start 24 \<longrightarrow> mem st' x = mem st x)"
proof -
  obtain st' fr where st': "start_heap st = Some st'" "vm_wf (fresh_indices st) st'"
      "heap st' [(0x1000000, True)]" "inj_on fr {..<4096}"
      "\<forall>j<4096. fr j \<in> free_blocks st \<and> held (fresh_indices st) st' (fr j) \<and>
         entry st' (heap_path j) = Some (leaf_entry (block_addr (fr j)) 3)"
      "\<forall>x. foreign {} st x \<longrightarrow> \<not> within x heap_start 24 \<longrightarrow> mem st' x = mem st x"
    using start_heap_ok [OF assms] by blast
  have "walk st' va = Some (block_addr (fr ((unat va - unat heap_start) div 4096)) + (va AND 0xFFF))"
    if va: "unat heap_start \<le> unat va" "unat va < unat heap_start + 0x1000000" for va
  proof -
    let ?j = "(unat va - unat heap_start) div 4096"
    have j: "?j < 4096" using va by (simp add: less_mult_imp_div_less)
    have path: "va_path va = heap_path ?j" using va j by (rule heap_path_of)
    have "entry st' (heap_path ?j) = Some (leaf_entry (block_addr (fr ?j)) 3)" "fr ?j < 2 ^ 40"
      using st'(5) j by (auto simp: held_def)
    then show ?thesis
      using leaf_entry_frame [of "block_addr (fr ?j)" 3] block_addr_low [of "fr ?j"]
      by (simp add: walk_entry path)
  qed
  then show ?thesis using st' by (intro exI [of _ st'] exI [of _ fr]) auto
qed

text \<open>A machine of 128 MiB whose memory is free up to there, with an empty root table above.\<close>

definition demo_big :: kheap where
  "demo_big = pmm.extend (demo_pmm\<lparr>max_blocks := 32768, pmm_bitmap := 0xFFFF800010000000,
     cr3 := 0x20000000\<rparr>) \<lparr>free_list = 0\<rparr>"

lemma demo_big_simps [simp]:
  "mem demo_big = (\<lambda>_. 0)" "hhdm_offset demo_big = 0xFFFF800000000000"
  "max_blocks demo_big = 32768" "pmm_bitmap demo_big = 0xFFFF800010000000"
  "cr3 demo_big = 0x20000000"
  by (simp_all add: demo_big_def demo_pmm_def pmm.defs)

lemma demo_big_table: "table demo_big q = (if q = [] then Some 0x20000000 else None)"
  by (cases q) (simp_all add: table_def split: option.splits)

lemma demo_big_tabs: "tabs I demo_big = {131072}"
proof -
  have "vpath I []" by (simp add: vpath_def lpath_def)
  then show ?thesis by (auto simp: tabs_def demo_big_table bno_def split: if_splits)
qed

lemma demo_big_bitmap: "bitmap_pages demo_big \<subseteq> {65536}"
proof -
  have al: "aligned 0x10000000" "bno 0x10000000 = 65536" by (simp_all add: aligned_def bno_def)
  have "pg 0xFFFF800000000000 x = 65536" if "within x 0xFFFF800010000000 4096" for x
  proof -
    have "within x (0x10000000 + 0xFFFF800000000000) 4096" using that by simp
    then show ?thesis using within_page [OF al(1)] al(2) by metis
  qed
  then show ?thesis by (auto simp: bitmap_pages_def bitmap_bytes_def)
qed

lemma demo_big_free: "free_blocks demo_big = {..<32768}"
  by (auto simp: free_blocks_def blk_def get_bit_def)

lemma demo_big_reachable: "i < 2 ^ 20 \<Longrightarrow> reachable_page demo_big i"
proof -
  assume i: "i < 2 ^ 20"
  then have "unat (block_addr i) = 4096 * i" by (intro unat_block_addr) simp
  then have "unat (block_addr i + 0xFFFF800000000000) = 4096 * i + 0xFFFF800000000000"
    using i by (subst unat_add_lem [THEN iffD1]) simp_all
  then show ?thesis
    using i by (simp add: reachable_page_def kregion_def khalf_unat)
qed

lemma demo_big_wf: "vm_wf I demo_big"
proof -
  have "pmm_wf demo_big"
    by (simp add: pmm_wf_def bitmap_bytes_def kregion_def khalf_def)
      (simp add: demo_big_def demo_pmm_def tx_live_demo pmm.defs)
  then show ?thesis
    using demo_big_bitmap demo_big_reachable
    by (auto simp: vm_wf_def demo_big_table demo_big_tabs demo_big_free split: if_splits)
qed

lemma demo_big_window:
  assumes "within x heap_start 24"
  shows "foreign I demo_big x"
proof -
  obtain i where i: "i < 24" "x = heap_start + of_nat i" using assms by (rule withinE)
  have "unat (of_nat i :: u64) = i" using i(1) by (intro unat_of_nat64) simp
  moreover have "x - 0xFFFF800000000000 = 0x100000000000 + of_nat i" using i(2) by simp
  ultimately have "unat (x - 0xFFFF800000000000) = 0x100000000000 + i"
    using i(1) by (simp add: unat_add_lem [THEN iffD1])
  then have "2 ^ 32 \<le> pg 0xFFFF800000000000 x" by (simp add: pg_def)
  then show ?thesis
    using demo_big_bitmap by (auto simp: foreign_def demo_big_tabs demo_big_free)
qed

theorem boot_heap_mapped_witness:
  "\<exists>st'. start_heap demo_big = Some st' \<and> heap st' [(0x1000000, True)] \<and>
     walk st' 0xFFFF900000001234 \<noteq> None"
proof -
  have "entry demo_big [288] = None" by (simp add: entry_def)
  moreover have "16385 \<le> card (free_blocks demo_big)" by (simp add: demo_big_free)
  ultimately show ?thesis
    using boot_heap_mapped [OF demo_big_wf _ _ demo_big_window]
    by (fastforce simp del: demo_big_simps)
qed

end
