(* ===== verification/Boot.thy ===== *)
theory Boot
  imports Kernel KexLd Screen
begin

text \<open>
  The boot as a whole: what \<open>kernel_start\<close> of theory \<open>Kernel\<close> does on a machine that the boot
  loader has set up, with a ramdisk that holds the video and a program made by the linker of
  theory \<open>KexLd\<close>. The predicates collect what the boot loader has to provide; \<open>kept\<close> is the
  invariant that leads through the steps of \<open>_start\<close>: the tables are well-formed, and the
  memory the boot loader reported as in use is as it was.
\<close>

unbundle bit_operations_syntax

section \<open>Steps that the memory managers do not notice\<close>

lemma vm_cong:
  fixes s :: "'a pmm_scheme" and t :: "'b pmm_scheme"
  assumes "mem t = mem s" and "cr3 t = cr3 s" and "hhdm_offset t = hhdm_offset s"
    and "pmm_bitmap t = pmm_bitmap s" and "max_blocks t = max_blocks s" and "inputs t = inputs s"
  shows "vm_wf I t = vm_wf I s" "free_blocks t = free_blocks s" "held I t = held I s"
    "foreign I t = foreign I s" "entry t = entry s"
proof -
  have tab: "table t = table s" by (intro ext) (simp add: table_def assms)
  have fb: "free_blocks t = free_blocks s" by (simp add: free_blocks_def blk_def assms)
  have bm: "bitmap_pages t = bitmap_pages s" by (simp add: bitmap_pages_def bitmap_bytes_def assms)
  have tabs: "tabs I t = tabs I s" by (simp add: tabs_def tab)
  have pw: "pmm_wf t = pmm_wf s" by (simp add: pmm_wf_def bitmap_bytes_def tx_live_def assms)
  show "free_blocks t = free_blocks s" by (rule fb)
  show "vm_wf I t = vm_wf I s"
    by (simp add: vm_wf_def tab fb bm tabs pw reachable_page_def assms)
  show "held I t = held I s" by (intro ext) (simp add: held_def fb bm tabs assms)
  show "foreign I t = foreign I s" by (intro ext) (simp add: foreign_def fb bm tabs assms)
  show "entry t = entry s" by (intro ext) (simp add: entry_def assms)
qed

text \<open>
  \<open>kept I C m s\<close>: in \<open>s\<close> the cells of \<open>C\<close> belong to no memory manager and hold what \<open>m\<close> holds.
\<close>

definition kept :: "nat set \<Rightarrow> (u64 \<Rightarrow> bool) \<Rightarrow> (u64 \<Rightarrow> u8) \<Rightarrow> 'a pmm_scheme \<Rightarrow> bool" where
  "kept I C m s \<longleftrightarrow> vm_wf I s \<and> (\<forall>x. C x \<longrightarrow> foreign I s x \<and> mem s x = m x)"

definition same_vm :: "'a pmm_scheme \<Rightarrow> 'b pmm_scheme \<Rightarrow> bool" where
  "same_vm s t \<longleftrightarrow> mem t = mem s \<and> cr3 t = cr3 s \<and> hhdm_offset t = hhdm_offset s \<and>
     pmm_bitmap t = pmm_bitmap s \<and> max_blocks t = max_blocks s \<and> inputs t = inputs s"

lemma same_vm_refl: "same_vm s s"
  by (simp add: same_vm_def)

lemma same_vm_trans: "same_vm s t \<Longrightarrow> same_vm t u \<Longrightarrow> same_vm s u"
  by (simp add: same_vm_def)

lemma same_vm_facts:
  assumes "same_vm s t"
  shows "vm_wf I t = vm_wf I s" "free_blocks t = free_blocks s" "held I t = held I s"
    "foreign I t = foreign I s" "entry t = entry s" "kept I C m t = kept I C m s"
    "mem t = mem s" "hhdm_offset t = hhdm_offset s" "tx_live t = tx_live s"
proof -
  note a = assms [unfolded same_vm_def]
  show v: "vm_wf I t = vm_wf I s" "free_blocks t = free_blocks s" "held I t = held I s"
    "foreign I t = foreign I s" "entry t = entry s" by (rule vm_cong; simp add: a)+
  show "kept I C m t = kept I C m s" "mem t = mem s" "hhdm_offset t = hhdm_offset s"
    "tx_live t = tx_live s" using a v by (simp_all add: kept_def tx_live_def)
qed

lemma printed_same_vm: "printed out (s :: 'a pmm_scheme) t \<Longrightarrow> same_vm s t"
  by (auto simp: printed_def same_vm_def)

lemma kept_ext: "kept I C m s \<Longrightarrow> vm_ext I n s t \<Longrightarrow> kept I C m t"
  by (auto simp: kept_def vm_ext_def)

lemma kept_tx_live: "kept I C m s \<Longrightarrow> tx_live s"
  by (simp add: kept_def vm_wf_def pmm_wf_def)

lemma kept_mono: "kept I C m s \<Longrightarrow> (\<And>x. C' x \<Longrightarrow> C x) \<Longrightarrow> kept I C' m s"
  by (simp add: kept_def)

text \<open>Writing cells \<open>V\<close> that belong to no memory manager.\<close>

lemma kept_store:
  fixes s :: "'a pmm_scheme"
  assumes k: "kept I C m s" and V: "\<And>x. V x \<Longrightarrow> foreign I s x"
    and out: "\<And>x. \<not> V x \<Longrightarrow> m' x = mem s x"
  defines "t \<equiv> s\<lparr>mem := m'\<rparr>"
  shows "kept I (\<lambda>x. C x \<and> \<not> V x) m t" "free_blocks t = free_blocks s"
    "foreign I t x = foreign I s x" "lpath I q \<Longrightarrow> entry t q = entry s q"
proof -
  have wf: "vm_wf I s" using k by (simp add: kept_def)
  have same: "m' x = mem s x" if "pg (hhdm_offset s) x \<in> tabs I s \<union> bitmap_pages s" for x
  proof -
    have "\<not> foreign I s x" using that by (simp add: foreign_def)
    then show ?thesis using V out by blast
  qed
  note u = untouched [OF wf same]
  show "free_blocks t = free_blocks s" "foreign I t x = foreign I s x"
    "lpath I q \<Longrightarrow> entry t q = entry s q"
    unfolding t_def by (rule u, assumption?)+
  show "kept I (\<lambda>x. C x \<and> \<not> V x) m t"
    using k u(1,4) out by (simp add: kept_def t_def)
qed

section \<open>The tables and the console\<close>

text \<open>The variables of the screen, which nothing in \<open>_start\<close> writes.\<close>

definition screen_vars :: "'a syscalls_scheme \<Rightarrow> limine_framebuffer list option \<times> u64" where
  "screen_vars st = (fb_response st, backbuffer st)"

lemma rest_fields:
  fixes s t :: "'a syscalls_scheme"
  shows "process.more t = process.more s \<Longrightarrow> screen_vars t = screen_vars s \<and> tss_entry t = tss_entry s"
    and "kheap.more t = kheap.more s \<Longrightarrow> process.more t = process.more s"
    and "pmm.more t = pmm.more s \<Longrightarrow> kheap.more t = kheap.more s"
    and "fs.more t = fs.more s \<Longrightarrow> screen_vars t = screen_vars s"
  by (cases s, cases t, simp add: screen_vars_def)+

lemma start_tables_ok:
  fixes st :: "'a boot_scheme"
  assumes "hhdm_response bi \<noteq> 0" and "ld64 st (hhdm_response bi + 8) = Some h"
    and "List.length (gdt st) = 7" and "List.length (idt st) = 256" and "tx_live st"
  shows "\<exists>st'. start_tables sy bi st = Some st' \<and> mem st' = mem st \<and> cr3 st' = cr3 st \<and>
    hhdm_offset st' = h \<and> tx_live st' \<and> screen_vars st' = screen_vars st \<and>
    rsp0 (tss_entry st') = tss_kernel_stack_sym sy + 4096"
proof -
  obtain s1 where s1: "gdt_initialize sy (st\<lparr>hhdm_offset := h\<rparr>) = Some s1" "mem s1 = mem st"
      "cr3 s1 = cr3 st" "hhdm_offset s1 = h" "inputs s1 = inputs st" "idt s1 = idt st"
      "screen_vars s1 = screen_vars st" "rsp0 (tss_entry s1) = tss_kernel_stack_sym sy + 4096"
    using gdt_initialize_eq [of "st\<lparr>hhdm_offset := h\<rparr>" sy] assms(3) by (simp add: screen_vars_def)
  let ?s2 = "pic_remap (snd (serial_initialize (terminal_initialize (idt_initialize sy s1))))"
  have idt: "mem (idt_initialize sy s1) = mem s1" "cr3 (idt_initialize sy s1) = cr3 s1"
    "hhdm_offset (idt_initialize sy s1) = hhdm_offset s1" "inputs (idt_initialize sy s1) = inputs s1"
    "screen_vars (idt_initialize sy s1) = screen_vars s1" "tss_entry (idt_initialize sy s1) = tss_entry s1"
    using idt_initialize_eq [of s1 sy] s1(6) assms(4) by (auto simp: screen_vars_def)
  have s2: "mem ?s2 = mem st" "cr3 ?s2 = cr3 st" "hhdm_offset ?s2 = h" "inputs ?s2 = inputs st"
    "screen_vars ?s2 = screen_vars st" "rsp0 (tss_entry ?s2) = tss_kernel_stack_sym sy + 4096"
    using s1 idt by (simp_all add: pic_remap_def serial_initialize_def terminal_initialize_def
      outb_def inb_def io_wait_def Let_def screen_vars_def)
  have live: "tx_live ?s2" using s2(4) assms(5) by (simp add: tx_live_def)
  obtain out st' where "kprintf (''Booted in x86_64 using Limine (finally)!'' @ nl) [] ?s2 = Some st'"
      "printed out ?s2 st'"
    using kprintf_plain [of "''Booted in x86_64 using Limine (finally)!'' @ nl" "[]" ?s2] live by auto
  moreover from this(2) have "screen_vars st' = screen_vars ?s2" "tss_entry st' = tss_entry ?s2"
    by (auto simp: printed_def screen_vars_def)
  ultimately show ?thesis
    using assms(1,2) s1(1) s2 live
    by (intro exI [of _ st'])
      (simp add: start_tables_def Let_def case_prod_beta printed_frame printed_tx_live)
qed

section \<open>What the boot loader provides\<close>

text \<open>
  The frames of the bitmap, the frames the memory manager will hand out, and the cells that
  stay as the boot loader left them: outside usable memory, the bitmap, the boot loader's root
  page table and the heap window.
\<close>

definition bitmap_frames :: "limine_memmap_entry list \<Rightarrow> nat set" where
  "bitmap_frames es = {unat (first_big es) div 4096 ..<
     unat (first_big es) div 4096 + (top_of es div 4096 div 8 + 4095) div 4096}"

definition boot_frames :: "limine_memmap_entry list \<Rightarrow> nat set" where
  "boot_frames es = usable_blocks es - {0} - bitmap_frames es"

definition boot_cell :: "'a machine_scheme \<Rightarrow> limine_memmap_entry list \<Rightarrow> u64 \<Rightarrow> bool" where
  "boot_cell st es x \<longleftrightarrow>
     pg (hhdm_offset st) x \<notin> usable_blocks es \<union> bitmap_frames es \<union> {bno (root st)} \<and>
     \<not> within x heap_start 0x1000000"

text \<open>
  \<open>boot_memory_ok bi es st\<close>: the memory map is \<open>es\<close>, with aligned regions whose bitmap fills whole
  words; the direct map covers the memory and ends below the heap window; the root table lies in
  memory that is not usable and has nothing below the heap window's index.
\<close>

definition boot_memory_ok :: "boot_info \<Rightarrow> limine_memmap_entry list \<Rightarrow> 'a machine_scheme \<Rightarrow> bool" where
  "boot_memory_ok bi es st \<longleftrightarrow> boot_map_ok st bi es \<and>
     (\<forall>e\<in>set es. usable e \<longrightarrow> 4096 dvd unat (mm_base e)) \<and> 32 dvd top_of es div 4096 \<and>
     khalf (hhdm_offset st) \<and> unat (hhdm_offset st) + top_of es \<le> unat heap_start \<and>
     unat (hhdm_offset st) + unat (root st) + 4096 \<le> unat heap_start \<and>
     bno (root st) \<notin> usable_blocks es \<union> bitmap_frames es \<and> entry st [288] = None"

lemma root_path: "vpath {} p \<longleftrightarrow> p = []"
  by (auto simp: vpath_def lpath_def)

lemma root_tabs: "tabs {} st = {bno (root st)}"
  by (auto simp: tabs_def root_path table_def)

lemma usable_block_below: "i \<in> usable_blocks es \<Longrightarrow> i < top_of es div 4096"
proof -
  assume "i \<in> usable_blocks es"
  then obtain e where e: "e \<in> set es" "usable e"
      "i < unat (mm_base e) div 4096 + unat (mm_length e) div 4096"
    by (auto simp: usable_blocks_def blocks_of_def)
  moreover have "unat (mm_base e) div 4096 + unat (mm_length e) div 4096 \<le>
      (unat (mm_base e) + unat (mm_length e)) div 4096" by (rule div_plus_div)
  moreover have "\<dots> \<le> top_of es div 4096" using top_of_ge [OF e(1,2)] by (rule div_le_mono)
  ultimately show ?thesis by linarith
qed

lemma bitmap_cell_frame:
  assumes al: "4096 dvd unat b" and fits: "unat b div 4096 + (n + 4095) div 4096 \<le> N"
    and N: "4096 * N < 2 ^ 64" and x: "within x (h + b) n"
  shows "pg h x \<in> {unat b div 4096 ..< unat b div 4096 + (n + 4095) div 4096}"
proof -
  obtain j where j: "j < n" "x = h + b + of_nat j" using x by (rule withinE)
  obtain k where k: "unat b = 4096 * k" using al by (rule dvdE)
  have c: "n \<le> 4096 * ((n + 4095) div 4096)" by linarith
  have "4096 * (k + (n + 4095) div 4096) \<le> 4096 * N" using fits k by simp
  then have le: "unat b + n \<le> 4096 * N" using c k by simp
  have "unat (of_nat j :: u64) = j" using j(1) le N by (intro unat_of_nat64) simp
  then have "unat (b + of_nat j) = 4096 * k + j"
    using j(1) le N k by (subst unat_add_lem [THEN iffD1]) simp_all
  then have "pg h x = k + j div 4096" unfolding j(2) pg_def by (simp add: add.assoc)
  moreover have "j div 4096 < (n + 4095) div 4096" using j(1) c by linarith
  ultimately show ?thesis using k by simp
qed

lemma window_frame:
  assumes x: "within x heap_start 0x1000000" and h: "unat h + z \<le> unat heap_start"
  shows "z div 4096 \<le> pg h x"
proof -
  obtain j where j: "j < 0x1000000" "x = heap_start + of_nat j" using x by (rule withinE)
  have "unat x = unat heap_start + j"
    unfolding j(2) using j(1) by (subst unat_add_lem [THEN iffD1]) (simp_all add: unat_of_nat64)
  moreover from this have "h \<le> x" using h by (simp add: word_le_nat_alt)
  ultimately have "z \<le> unat (x - h)" using h unat_sub [of h x] by simp
  then show ?thesis unfolding pg_def by (rule div_le_mono)
qed

text \<open>
  After \<open>start_pmm\<close> the virtual memory manager's invariant holds of the boot loader's tables,
  with nothing but the root table counted as the kernel's.
\<close>

lemma start_pmm_kept:
  fixes st :: "'a pmm_scheme"
  assumes ok: "boot_memory_ok bi es st"
  shows "\<exists>s. start_pmm bi st = Some s \<and> kept {} (boot_cell st es) (mem st) s \<and>
    free_blocks s = boot_frames es \<and> hhdm_offset s = hhdm_offset st \<and> entry s [288] = None \<and>
    pmm.more s = pmm.more st \<and> (\<forall>x. within x heap_start 0x1000000 \<longrightarrow> foreign {} s x)"
proof -
  let ?N = "top_of es div 4096" and ?h = "hhdm_offset st" and ?b = "first_big es"
  let ?n = "4 * ((?N + 31) div 32)"
  note o = ok [unfolded boot_memory_ok_def]
  have map: "memmap_response bi \<noteq> 0" "memmap_at (mem st) (memmap_response bi) es" "length es < 2 ^ 64"
     "no_wrap es" "4096 \<le> top_of es" "?N < 2 ^ 31" "kregion (?h + ?b) ?n"
     "unat ?b div 4096 + (?N div 8 + 4095) div 4096 \<le> ?N"
     "\<And>x. memmap_cell (mem st) (memmap_response bi) (length es) x \<Longrightarrow> \<not> within x (?h + ?b) ?n"
     "tx_live st"
    using o by (auto simp: boot_map_ok_def)
  obtain s where s: "start_pmm bi st = Some s" "pmm_wf s" "pmm_bitmap s = ?h + ?b"
      "unat (max_blocks s) = ?N" "hhdm_offset s = ?h" "cr3 s = cr3 st"
      "free_blocks s = boot_blocks (mem st) (?h + ?b) es"
      "\<forall>x. \<not> within x (?h + ?b) ?n \<longrightarrow> mem s x = mem st x" "pmm.more s = pmm.more st"
    using start_pmm_ok [OF map] by blast
  have n: "?n = ?N div 8" using o by (auto elim!: dvdE)
  have "8 dvd ?N" by (rule dvd_trans [of 8 32]) (use o in simp_all)
  then have "?N div 8 * 8 = ?N" by simp
  then have free: "free_blocks s = boot_frames es"
    unfolding s(7) boot_blocks_def boot_frames_def bitmap_frames_def by auto
  have al: "4096 dvd unat ?b" using o first_big_aligned by blast
  have top: "4096 * ?N < 2 ^ 64" using map(6) by simp
  have cell: "pg ?h x \<in> bitmap_frames es" if "within x (?h + ?b) ?n" for x
    using bitmap_cell_frame [OF al map(8) top] that unfolding n bitmap_frames_def by blast
  have "bitmap_bytes s = ?n" by (simp add: bitmap_bytes_def s(4))
  then have bm: "bitmap_pages s \<subseteq> bitmap_frames es"
    using cell by (auto simp: bitmap_pages_def s(3,5))
  have root: "root s = root st" by (simp add: s(6))
  have tabs: "tabs {} s = {bno (root st)}" by (simp add: root_tabs root)
  have hs: "unat heap_start = 0xFFFF900000000000" by simp
  have reach: "reachable_page s i" if i: "unat ?h + 4096 * i + 4096 \<le> unat heap_start" for i
  proof -
    have kh: "0xFFFF800000000000 \<le> unat ?h" using o by (simp add: khalf_unat)
    then have "i < 2 ^ 52" using i by simp
    moreover have un: "unat (block_addr i) = 4096 * i" using i kh by (intro unat_block_addr) simp
    then have "unat (block_addr i + ?h) = 4096 * i + unat ?h"
      using i by (subst unat_add_lem [THEN iffD1]) simp_all
    ultimately show ?thesis
      using i kh by (simp add: reachable_page_def s(5) kregion_def khalf_unat)
  qed
  have below: "unat ?h + 4096 * i + 4096 \<le> unat heap_start" if "i \<in> free_blocks s" for i
  proof -
    have "i < ?N" using that usable_block_below unfolding free boot_frames_def by blast
    then have "4096 * i + 4096 \<le> top_of es" by linarith
    then show ?thesis using o by linarith
  qed
  have rootb: "unat ?h + 4096 * bno (root st) + 4096 \<le> unat heap_start"
  proof -
    have "4096 * bno (root st) \<le> unat (root st)" by (simp add: bno_def)
    then show ?thesis using o by linarith
  qed
  have "vm_wf {} s"
    using s(2) reach [OF below] reach [OF rootb] bm o free
    by (auto simp: vm_wf_def root_path tabs boot_frames_def)
  moreover have cells: "foreign {} s x \<and> mem s x = mem st x" if "boot_cell st es x" for x
  proof -
    have x: "pg ?h x \<notin> usable_blocks es \<union> bitmap_frames es \<union> {bno (root st)}"
      using that by (simp add: boot_cell_def)
    then have "\<not> within x (?h + ?b) ?n" using cell by blast
    then show ?thesis using x s(8) bm by (auto simp: foreign_def tabs free s(5) boot_frames_def)
  qed
  moreover have "foreign {} s x" if x: "within x heap_start 0x1000000" for x
  proof -
    have N: "?N \<le> pg ?h x" using window_frame [OF x] o by blast
    have "(unat (root st) + 4096) div 4096 \<le> pg ?h x" using window_frame [OF x, of ?h] o by (simp add: add.assoc)
    then have "bno (root st) < pg ?h x" by (simp add: bno_def)
    moreover have "bitmap_frames es \<subseteq> {..<?N}" using map(8) by (auto simp: bitmap_frames_def)
    ultimately show ?thesis
      using N bm usable_block_below by (fastforce simp: foreign_def tabs free s(5) boot_frames_def)
  qed
  moreover have "entry s [288] = entry st [288]"
  proof -
    have "mem s x = mem st x" if "pg ?h x = bno (root st)" for x
    proof -
      have "pg ?h x \<notin> bitmap_frames es" using that o by simp
      then show ?thesis using s(8) cell by blast
    qed
    then have "entry_at (mem s) ?h (root st) 288 = entry_at (mem st) ?h (root st) 288"
      by (intro entry_at_cong) simp_all
    then show ?thesis by (simp add: entry_Cons table_def root s(5))
  qed
  ultimately show ?thesis using s(1,5,9) free o by (intro exI [of _ s]) (simp add: kept_def)
qed

section \<open>The heap and the first process\<close>

lemma start_heap_kept:
  fixes s :: "'a kheap_scheme"
  assumes k: "kept {} C m s" and fresh: "entry s [288] = None"
    and free: "16385 + n \<le> card (free_blocks s)"
    and window: "\<And>x. within x heap_start 0x1000000 \<Longrightarrow> foreign {} s x"
    and C: "\<And>x. C x \<Longrightarrow> \<not> within x heap_start 0x1000000"
  shows "\<exists>t. start_heap s = Some t \<and> kept (fresh_indices s) C m t \<and>
    n \<le> card (free_blocks t) \<and> heap t [(0x1000000, True)] \<and> free_list t = heap_start \<and>
    hhdm_offset t = hhdm_offset s \<and> free_blocks t \<subseteq> free_blocks s \<and> kheap.more t = kheap.more s \<and>
    (\<forall>x. within x heap_start 0x1000000 \<longrightarrow> foreign (fresh_indices s) t x)"
proof -
  have w24: "within x heap_start 0x1000000" if "within x heap_start 24" for x
    using within_mono [OF that] by simp
  obtain t where t: "start_heap s = Some t" "vm_wf (fresh_indices s) t" "heap t [(0x1000000, True)]"
      "free_list t = heap_start" "hhdm_offset t = hhdm_offset s"
      "card (free_blocks s) \<le> card (free_blocks t) + 16385"
      "free_blocks t \<subseteq> free_blocks s" "kheap.more t = kheap.more s"
      "\<forall>x. foreign {} s x \<longrightarrow> foreign (fresh_indices s) t x \<and>
         (\<not> within x heap_start 24 \<longrightarrow> mem t x = mem s x)"
    using start_heap_ok [of s] k free fresh window w24 by (auto simp: kept_def)
  have "kept (fresh_indices s) C m t" using k t(2,9) C w24 unfolding kept_def by metis
  then show ?thesis using t free window by (intro exI [of _ t]) auto
qed

text \<open>The first control block, and no memory outside the heap written.\<close>

lemma multitasking_initialize_kept:
  fixes s :: "'a process_scheme"
  assumes h: "heap s [(0x1000000, True)]" "free_list s = heap_start" and k: "kept I C m s"
    and window: "\<And>x. within x heap_start 0x1000000 \<Longrightarrow> foreign I s x"
    and C: "\<And>x. C x \<Longrightarrow> \<not> within x heap_start 0x1000000"
  shows "\<exists>t. multitasking_initialize s = Some t \<and> kept I C m t \<and>
    free_blocks t = free_blocks s \<and> hhdm_offset t = hhdm_offset s \<and>
    heap t [(56, False), (0x1000000 - 56, True)] \<and> free_list t = heap_start \<and>
    process.more t = process.more s \<and> (\<forall>x. foreign I t x = foreign I s x)"
proof -
  let ?p = "0xFFFF900000000018 :: u64"
  have live: "tx_live s" using k by (rule kept_tx_live)
  let ?bs = "[(56, False), (0x1000000 - 56, True)]"
  obtain m1 where m1: "kmalloc 32 s = Some (?p, s\<lparr>mem := m1\<rparr>)"
      "\<forall>x. \<not> hdr [(56, False), (0x1000000 - 56, True)] (unat (x - heap_start)) \<longrightarrow> m1 x = mem s x"
      "heap (s\<lparr>mem := m1\<rparr>) ?bs"
    using kmalloc_ok [OF h(1) _ live, of 32] h(2) by auto
  define m2 where "m2 = stw 8 (stw 8 (stw 8 (stw 4 m1 ?p (0 :: u32)) (?p + 8) (0 :: u64)) (?p + 16)
    (get_active_page_dir s)) (?p + 24) ?p"
  have kr: "kregion (?p + of_nat i) n" if "i + n \<le> 32" for i n
    by (rule kregion_mono [OF kregion_offset [of ?p 32 i]]) (use that in \<open>simp_all add: kregion_def khalf_def\<close>)
  let ?t = "s\<lparr>current_process := ?p, mem := m2, process_list := ?p\<rparr>"
  have "tx_live ?t" using live by (simp add: tx_live_def)
  then obtain out t where t: "kprintf (''Multithreading: Initialized'' @ nl) [] ?t = Some t" "printed out ?t t"
    using kprintf_plain [of "''Multithreading: Initialized'' @ nl" "[]" ?t] by auto
  have run: "multitasking_initialize s = Some t"
    using m1(1) t(1) kr [of 0 4] kr [of 8 8] kr [of 16 8] kr [of 24 8]
    by (simp add: multitasking_initialize_def kernel_mem m2_def Let_def get_active_page_dir_def)
  have same: "m2 x = mem s x" if x: "\<not> within x heap_start 0x1000000" for x
  proof -
    have "\<not> within x (?p + of_nat i) n" if "i + n \<le> 32" for i n
      using x within_part [of "24 + i" n "0x1000000" x heap_start] that by (auto simp: add.assoc)
    from this [of 0 4] this [of 8 8] this [of 16 8] this [of 24 8]
    have "m2 x = m1 x" by (simp add: m2_def stw_outside)
    then show ?thesis using x m1(2) by (auto simp: within_def)
  qed
  note st = kept_store [OF k, of "\<lambda>x. within x heap_start 0x1000000" m2, OF window same]
  have hdr: "m2 x = m1 x" if "hdr ?bs (unat (x - heap_start))" for x
  proof -
    have "unat (x - heap_start) < 24 \<or> 56 \<le> unat (x - heap_start)" using that by auto
    then have "\<not> within x (?p + of_nat i) n" if "i + n \<le> 32" for i n
      using within_offset_iff [of "24 + i" n x heap_start] that by (auto simp: add.assoc)
    from this [of 0 4] this [of 8 8] this [of 16 8] this [of 24 8]
    show ?thesis by (simp add: m2_def stw_outside)
  qed
  have "heap t ?bs"
    by (rule heap_mem_cong [OF m1(3)])
      (use h(2) t(2) hdr in \<open>auto simp: printed_def\<close>)
  moreover have "free_list t = heap_start" "process.more t = process.more s"
    using h(2) t(2) by (auto simp: printed_def)
  moreover have "kept I C m (s\<lparr>mem := m2\<rparr>)" using st(1) by (rule kept_mono) (use C in auto)
  moreover have "same_vm (s\<lparr>mem := m2\<rparr>) t"
    by (rule same_vm_trans [OF _ printed_same_vm [OF t(2)]]) (simp add: same_vm_def)
  moreover have "free_blocks (s\<lparr>mem := m2\<rparr>) = free_blocks s" using st(2) by blast
  moreover have "foreign I (s\<lparr>mem := m2\<rparr>) = foreign I s" using st(3) by blast
  ultimately show ?thesis using run same_vm_facts [of "s\<lparr>mem := m2\<rparr>" t] by (intro exI [of _ t]) simp
qed

section \<open>The ramdisk\<close>

definition region_in :: "(u64 \<Rightarrow> bool) \<Rightarrow> u64 \<Rightarrow> nat \<Rightarrow> bool" where
  "region_in C p n \<longleftrightarrow> kregion p n \<and> (\<forall>x. within x p n \<longrightarrow> C x)"

text \<open>The module response leads to a file of which \<open>a\<close> is the address.\<close>

definition module_at :: "(u64 \<Rightarrow> bool) \<Rightarrow> (u64 \<Rightarrow> u8) \<Rightarrow> u64 \<Rightarrow> u64 \<Rightarrow> bool" where
  "module_at C m resp a \<longleftrightarrow> resp \<noteq> 0 \<and> region_in C (resp + 8) 16 \<and> 0 < (ldw 8 m (resp + 8) :: u64) \<and>
     region_in C (ldw 8 m (resp + 16)) 8 \<and>
     region_in C (ldw 8 m (ldw 8 m (resp + 16) :: u64) + 8) 8 \<and>
     ldw 8 m (ldw 8 m (ldw 8 m (resp + 16) :: u64) + 8 :: u64) = a"

abbreviation video_bad :: "u8 list" where "video_bad \<equiv> lit ''video.bad''"
abbreviation init_kex :: "u8 list" where "init_kex \<equiv> lit ''init.kex''"

text \<open>The cells of the archive and of the two file names.\<close>

definition file_cell :: "boot_info \<Rightarrow> u64 \<Rightarrow> files \<Rightarrow> u64 \<Rightarrow> bool" where
  "file_cell bi a fs x \<longleftrightarrow> within x a (archive_size fs) \<or> within x (video_bad_str bi) 10 \<or>
     within x (init_kex_str bi) 9"

definition boot_files_ok ::
  "boot_info \<Rightarrow> limine_memmap_entry list \<Rightarrow> u64 \<Rightarrow> files \<Rightarrow> 'a machine_scheme \<Rightarrow> bool" where
  "boot_files_ok bi es a fs st \<longleftrightarrow> module_at (boot_cell st es) (mem st) (module_response bi) a \<and>
     archive (mem st) a fs \<and> region_in (boot_cell st es) a (archive_size fs) \<and>
     unat (hhdm_offset st) \<le> unat a \<and> unat a + archive_size fs \<le> unat heap_start \<and>
     cstring (mem st) (video_bad_str bi) video_bad \<and> region_in (boot_cell st es) (video_bad_str bi) 10 \<and>
     cstring (mem st) (init_kex_str bi) init_kex \<and> region_in (boot_cell st es) (init_kex_str bi) 9 \<and>
     region_in (\<lambda>x. boot_cell st es x \<and> \<not> file_cell bi a fs x) (vid_size_var bi) 8 \<and>
     region_in (\<lambda>x. boot_cell st es x \<and> \<not> file_cell bi a fs x) (file_size_var bi) 8"

lemma archive_cong:
  "archive m a fs \<Longrightarrow> archive_size fs \<le> 2 ^ 64 \<Longrightarrow>
     (\<And>x. within x a (archive_size fs) \<Longrightarrow> m' x = m x) \<Longrightarrow> archive m' a fs"
proof (induction fs arbitrary: a)
  case Nil
  then show ?case by simp
next
  case (Cons x fs)
  obtain h d where x: "x = (h, d)" by (cases x)
  let ?n = "List.length d"
  have size: "archive_size (x # fs) = file_span ?n + archive_size fs" by (simp add: x)
  have part: "m' (a + of_nat k + of_nat i) = m (a + of_nat k + of_nat i)"
    if "k + i < archive_size (x # fs)" for k i
  proof -
    have "within (a + of_nat (k + i)) a (archive_size (x # fs))"
      using that Cons.prems(2) by (subst within_offset) simp_all
    then show ?thesis using Cons.prems(3) by (simp add: add.assoc)
  qed
  have "bytes m' a 500 = bytes m a 500"
    using part [of 0] span_ge [of ?n] by (simp add: bytes_eq_iff size)
  moreover have "bytes m' (a + 512) ?n = bytes m (a + 512) ?n"
    using part [of 512] span_ge [of ?n] archive_size_pos [of fs] by (simp add: bytes_eq_iff size)
  moreover have "archive m' (a + of_nat (file_span ?n)) fs"
  proof (rule Cons.IH)
    show "archive m (a + of_nat (file_span ?n)) fs" using Cons.prems(1) x by simp
    show "archive_size fs \<le> 2 ^ 64" using Cons.prems(2) size by simp
    fix y assume "within y (a + of_nat (file_span ?n)) (archive_size fs)"
    then have "within y a (archive_size (x # fs))"
      using within_part [of "file_span ?n" "archive_size fs" "archive_size (x # fs)" y a] Cons.prems(2) size
      by simp
    then show "m' y = m y" by (rule Cons.prems(3))
  qed
  ultimately show ?case using Cons.prems(1) x by simp
qed

lemma cstring_cong:
  assumes "cstring m p xs" and "Suc (List.length xs) = n" and "n < 2 ^ 63"
    and "\<And>x. within x p n \<Longrightarrow> m' x = m x"
  shows "cstring m' p xs"
proof -
  have "m' (p + of_nat i) = m (p + of_nat i)" if "i \<le> List.length xs" for i
    using that assms(2,3) assms(4) [of "p + of_nat i"] by simp
  then show ?thesis using assms(1) by (simp add: cstring_iff bytes_eq_iff list_eq_iff_nth_eq nth_bytes)
qed

text \<open>\<open>files_kept\<close>: a machine in which the archive and the names are still in place.\<close>

definition files_kept ::
  "nat set \<Rightarrow> boot_info \<Rightarrow> (u64 \<Rightarrow> bool) \<Rightarrow> u64 \<Rightarrow> files \<Rightarrow> (u64 \<Rightarrow> u8) \<Rightarrow> 'a pmm_scheme \<Rightarrow> bool" where
  "files_kept I bi C a fs m s \<longleftrightarrow> kept I (file_cell bi a fs) m s \<and> (\<forall>x. C x \<longrightarrow> foreign I s x)"

lemma files_kept_reads:
  assumes k: "files_kept I bi C a fs m s" and "archive m a fs" and "archive_size fs \<le> 2 ^ 64"
    and "cstring m (video_bad_str bi) video_bad" and "cstring m (init_kex_str bi) init_kex"
  shows "archive (mem s) a fs" "cstring (mem s) (video_bad_str bi) video_bad"
    "cstring (mem s) (init_kex_str bi) init_kex"
proof -
  have same: "mem s x = m x" if "file_cell bi a fs x" for x
    using k that by (simp add: files_kept_def kept_def)
  show "archive (mem s) a fs"
    using same by (intro archive_cong [OF assms(2,3)]) (simp add: file_cell_def)
  show "cstring (mem s) (video_bad_str bi) video_bad"
    using same by (intro cstring_cong [OF assms(4), of 10]) (simp_all add: file_cell_def)
  show "cstring (mem s) (init_kex_str bi) init_kex"
    using same by (intro cstring_cong [OF assms(5), of 9]) (simp_all add: file_cell_def)
qed

lemma files_kept_same: "files_kept I bi C a fs m s \<Longrightarrow> same_vm s t \<Longrightarrow> files_kept I bi C a fs m t"
  by (simp add: files_kept_def same_vm_facts)

lemma files_kept_ext: "files_kept I bi C a fs m s \<Longrightarrow> vm_ext I n s t \<Longrightarrow> files_kept I bi C a fs m t"
  using kept_ext [of I "file_cell bi a fs" m s n t] by (simp add: files_kept_def vm_ext_def)

text \<open>The store of a file's size into a local variable of \<open>_start\<close>.\<close>

lemma files_kept_store:
  fixes s :: "'a pmm_scheme" and w :: u64
  assumes k: "files_kept I bi C a fs m s"
    and v: "region_in (\<lambda>x. C x \<and> \<not> file_cell bi a fs x) v 8"
  defines "t \<equiv> s\<lparr>mem := stw 8 (mem s) v w\<rparr>"
  shows "files_kept I bi C a fs m t" "free_blocks t = free_blocks s"
    "lpath I q \<Longrightarrow> entry t q = entry s q"
proof -
  have kk: "kept I (file_cell bi a fs) m s" and f: "\<And>x. C x \<Longrightarrow> foreign I s x"
    using k by (simp_all add: files_kept_def)
  have V: "\<And>x. within x v 8 \<Longrightarrow> foreign I s x" using v f by (simp add: region_in_def)
  have out: "\<And>x. \<not> within x v 8 \<Longrightarrow> stw 8 (mem s) v w x = mem s x" by (simp add: stw_outside)
  note st = kept_store [OF kk, of "\<lambda>x. within x v 8" "stw 8 (mem s) v w", OF V out]
  have "kept I (file_cell bi a fs) m t"
    unfolding t_def using st(1) by (rule kept_mono) (use v in \<open>auto simp: region_in_def\<close>)
  then show "files_kept I bi C a fs m t"
    using f st(3) by (simp add: files_kept_def t_def)
  show "free_blocks t = free_blocks s" "lpath I q \<Longrightarrow> entry t q = entry s q"
    using st(2,4) by (simp_all add: t_def)
qed

text \<open>
  What the steps after the set-up leave as it was: the heap's list, the descriptor tables, every
  variable of later components, and all memory that belongs to no memory manager, except the two
  local variables of \<open>_start\<close>.
\<close>

definition var_cell :: "boot_info \<Rightarrow> u64 \<Rightarrow> bool" where
  "var_cell bi x \<longleftrightarrow> within x (vid_size_var bi) 8 \<or> within x (file_size_var bi) 8"

definition onward :: "nat set \<Rightarrow> boot_info \<Rightarrow> 'a fs_scheme \<Rightarrow> 'a fs_scheme \<Rightarrow> bool" where
  "onward I bi s t \<longleftrightarrow> free_list t = free_list s \<and> gdt t = gdt s \<and> idt t = idt s \<and>
     tss_entry t = tss_entry s \<and> fs.more t = fs.more s \<and> free_blocks t \<subseteq> free_blocks s \<and>
     (\<forall>x. foreign I s x \<longrightarrow> foreign I t x \<and> (\<not> var_cell bi x \<longrightarrow> mem t x = mem s x))"

lemma onward_trans: "onward I bi s t \<Longrightarrow> onward I bi t u \<Longrightarrow> onward I bi s u"
  unfolding onward_def by (auto dest: subsetD)

lemma onward_ext: "vm_ext I n s t \<Longrightarrow> onward I bi s t"
  by (auto simp: onward_def vm_ext_def)

lemma onward_same_vm:
  assumes "same_vm s t" and "free_list t = free_list s" and "gdt t = gdt s" and "idt t = idt s"
    and "tss_entry t = tss_entry s" and "fs.more t = fs.more s"
  shows "onward I bi s t"
  using assms same_vm_facts [OF assms(1)] by (simp add: onward_def)

lemma onward_printed:
  fixes s :: "'a fs_scheme"
  assumes "printed out s t"
  shows "onward I bi s t"
  using assms by (intro onward_same_vm printed_same_vm [OF assms]) (auto simp: printed_def)

lemma onward_store:
  fixes s :: "'a fs_scheme" and w :: u64
  assumes k: "files_kept I bi C a fs m s" and v: "region_in (\<lambda>x. C x \<and> \<not> file_cell bi a fs x) v 8"
    and var: "v = vid_size_var bi \<or> v = file_size_var bi"
  shows "onward I bi s (s\<lparr>mem := stw 8 (mem s) v w\<rparr>)"
proof -
  have kk: "kept I (file_cell bi a fs) m s" and f: "\<And>x. C x \<Longrightarrow> foreign I s x"
    using k by (simp_all add: files_kept_def)
  have V: "\<And>x. within x v 8 \<Longrightarrow> foreign I s x" using v f by (simp add: region_in_def)
  have out: "\<And>x. \<not> within x v 8 \<Longrightarrow> stw 8 (mem s) v w x = mem s x" by (simp add: stw_outside)
  note st = kept_store(2,3) [OF kk, of "\<lambda>x. within x v 8" "stw 8 (mem s) v w", OF V out]
  then show ?thesis using out var by (auto simp: onward_def var_cell_def)
qed

section \<open>The video below 0x80000000\<close>

lemma page_part: "(x :: u64) AND NOT 0xFFF = block_addr (unat x div 4096)"
proof -
  have "of_nat (unat x div 4096) = x div 4096" using word_arith_nat_div [of x 4096] by simp
  then have "block_addr (unat x div 4096) = push_bit 12 (drop_bit 12 x)"
    by (simp add: block_addr_def push_bit_eq_mult drop_bit_eq_div)
  moreover have "x AND NOT (mask 12) = push_bit 12 (drop_bit 12 x)"
    by (rule bit_word_eqI) (auto simp: bit_simps)
  moreover have "(0xFFF :: u64) = mask 12" by (simp add: mask_eq_exp_minus_1)
  ultimately show ?thesis by (simp only:)
qed

lemma page_offset: "unat ((x :: u64) AND 0xFFF) = unat x mod 4096"
proof -
  have "x AND 0xFFF = take_bit 12 x" by (simp add: take_bit_eq_mask mask_eq_exp_minus_1)
  then show ?thesis by (simp only: unsigned_take_bit_eq) (simp add: take_bit_eq_mod)
qed

lemma video_page:
  assumes "0x80000000 + 4096 * n \<le> 2 ^ 47" and "j < n"
  shows "unat (0x80000000 + of_nat (4096 * j) :: u64) = 0x80000000 + 4096 * j"
    and "unat (0x80000000 + of_nat (4096 * j) :: u64) < 2 ^ 47"
proof -
  have "unat (of_nat (4096 * j) :: u64) = 4096 * j" using assms by (intro unat_of_nat64) simp
  then show "unat (0x80000000 + of_nat (4096 * j) :: u64) = 0x80000000 + 4096 * j"
    using assms by (subst unat_add_lem [THEN iffD1]) simp_all
  then show "unat (0x80000000 + of_nat (4096 * j) :: u64) < 2 ^ 47" using assms by simp
qed

lemma video_path_inj:
  assumes "0x80000000 + 4096 * n \<le> 2 ^ 47" and "i < n" and "j < n"
  shows "page_path 0x80000000 i = page_path 0x80000000 j \<longleftrightarrow> i = j"
  unfolding page_path_def va_path_low [OF video_page(2) [OF assms(1,2)] video_page(2) [OF assms(1,3)]]
    video_page(1) [OF assms(1,2)] video_page(1) [OF assms(1,3)] by linarith

lemma video_map_loop_ok:
  fixes s :: "'a pmm_scheme"
  assumes I: "{..<256} \<subseteq> I" and n: "0x80000000 + 4096 * n \<le> 2 ^ 47"
  shows "k + d = n \<Longrightarrow> vm_wf I s \<Longrightarrow> 3 * d \<le> card (free_blocks s) \<Longrightarrow>
    \<exists>t. video_map_loop d (of_nat k) (block_addr f) s = Some t \<and> vm_ext I (3 * d) s t \<and>
      (\<forall>q. lpath I q \<longrightarrow> length q = 4 \<longrightarrow> q \<notin> page_path 0x80000000 ` {k..<n} \<longrightarrow>
         entry t q = entry s q) \<and>
      (\<forall>j. k \<le> j \<longrightarrow> j < n \<longrightarrow>
         entry t (page_path 0x80000000 j) = Some (leaf_entry (block_addr (f + j)) 7))"
proof (induction d arbitrary: k s)
  case 0
  then show ?case using vm_ext_refl [of I s 0] by (intro exI [of _ s]) simp
next
  case (Suc d)
  let ?v = "0x80000000 + of_nat (4096 * k) :: u64"
  have k: "k < n" and rest: "Suc k + d = n" using Suc.prems(1) by simp_all
  have idx: "page_index 39 ?v \<in> I" using low_index [OF video_page(2) [OF n k]] I by blast
  obtain s1 where s1: "vmm_map_page (block_addr (f + k)) ?v 7 s = Some s1" "vm_ext I 3 s s1"
      "\<forall>q. lpath I q \<longrightarrow> length q = 4 \<longrightarrow>
         entry s1 q = (if q = page_path 0x80000000 k then Some (leaf_entry (block_addr (f + k)) 7) else entry s q)"
    using vmm_map_page_ok [OF Suc.prems(2) _ idx, of "block_addr (f + k)" 7] Suc.prems(3)
    by (auto simp: page_path_def)
  have free: "3 * d \<le> card (free_blocks s1)" using s1(2) Suc.prems(3) by (simp add: vm_ext_def)
  obtain t where t: "video_map_loop d (of_nat (Suc k)) (block_addr f) s1 = Some t" "vm_ext I (3 * d) s1 t"
      "\<forall>q. lpath I q \<longrightarrow> length q = 4 \<longrightarrow> q \<notin> page_path 0x80000000 ` {Suc k..<n} \<longrightarrow>
         entry t q = entry s1 q"
      "\<forall>j. Suc k \<le> j \<longrightarrow> j < n \<longrightarrow>
         entry t (page_path 0x80000000 j) = Some (leaf_entry (block_addr (f + j)) 7)"
    using Suc.IH [OF rest vm_ext_frame(6) [OF s1(2)] free] by blast
  have "block_addr f + of_nat k * 4096 = block_addr (f + k)" "0x80000000 + of_nat k * 4096 = ?v"
    by (simp_all add: block_addr_def algebra_simps)
  then have "video_map_loop (Suc d) (of_nat k) (block_addr f) s = Some t"
    unfolding video_map_loop.simps using s1(1) t(1) by (simp only: of_nat_Suc add.commute bind.bind_lunit)
  moreover have "vm_ext I (3 * Suc d) s t" using vm_ext_trans [OF s1(2) t(2)] by simp
  moreover have "entry t q = entry s q"
    if "lpath I q" "length q = 4" "q \<notin> page_path 0x80000000 ` {k..<n}" for q
  proof -
    have "q \<noteq> page_path 0x80000000 k" "q \<notin> page_path 0x80000000 ` {Suc k..<n}"
      using that(3) k by (auto simp: image_iff)
    then show ?thesis using that(1,2) s1(3) t(3) by simp
  qed
  moreover have "entry t (page_path 0x80000000 j) = Some (leaf_entry (block_addr (f + j)) 7)"
    if j: "k \<le> j" "j < n" for j
  proof (cases "j = k")
    case True
    have "page_path 0x80000000 k \<notin> page_path 0x80000000 ` {Suc k..<n}"
    proof
      assume "page_path 0x80000000 k \<in> page_path 0x80000000 ` {Suc k..<n}"
      then obtain i where "i < n" "Suc k \<le> i" "page_path 0x80000000 k = page_path 0x80000000 i" by auto
      then show False using video_path_inj [OF n k, of i] by simp
    qed
    moreover have "lpath I (page_path 0x80000000 k)" "length (page_path 0x80000000 k) = 4"
      using va_path_lpath [OF idx] by (simp_all add: page_path_def)
    ultimately show ?thesis using True s1(3) t(3) by simp
  qed (use j t(4) in simp)
  ultimately show ?case by blast
qed

lemma files_kept_bytes:
  assumes k: "files_kept I bi C a fs m s" and q: "q + n \<le> archive_size fs" and "archive_size fs \<le> 2 ^ 64"
  shows "bytes (mem s) (a + of_nat q) n = bytes m (a + of_nat q) n"
proof -
  have "mem s (a + of_nat q + of_nat i) = m (a + of_nat q + of_nat i)" if "i < n" for i
  proof -
    have "within (a + of_nat (q + i)) a (archive_size fs)"
      using that q assms(3) by (subst within_offset) simp_all
    then have "file_cell bi a fs (a + of_nat q + of_nat i)" by (simp add: file_cell_def add.assoc)
    then show ?thesis using k by (simp add: files_kept_def kept_def)
  qed
  then show ?thesis by (simp add: bytes_eq_iff)
qed

lemma archive_file_bound:
  "archive m a fs \<Longrightarrow> map_of (names fs) name = Some d \<Longrightarrow> List.length d \<le> 2 ^ 32 - 1024"
proof (induction fs arbitrary: a)
  case (Cons x fs)
  obtain h c where x: "x = (h, c)" by (cases x)
  then show ?case using Cons by (auto simp: header_ok_def split: if_splits)
qed simp

text \<open>The frames that the page tables of the video can take.\<close>

definition video_frames :: "files \<Rightarrow> nat" where
  "video_frames fs = (case map_of (names fs) video_bad of None \<Rightarrow> 0
     | Some v \<Rightarrow> 3 * ((List.length v + 8190) div 4096))"

text \<open>
  \<open>video_at h a fs s\<close>: the pages from 0x80000000 on are mapped to the frames that hold the video
  file, which begins \<open>off\<close> bytes into the first of them.
\<close>

definition video_at :: "u64 \<Rightarrow> u64 \<Rightarrow> files \<Rightarrow> 'a machine_scheme \<Rightarrow> bool" where
  "video_at h a fs s \<longleftrightarrow> (\<forall>v. map_of (names fs) video_bad = Some v \<longrightarrow>
     (let k = data_offset fs video_bad in \<exists>f off.
        k + List.length v \<le> archive_size fs \<and> bytes (mem s) (a + of_nat k) (List.length v) = v \<and>
        unat (a + of_nat k) = unat h + (4096 * f + off) \<and> off < 4096 \<and>
        (\<forall>j<(List.length v + off + 4095) div 4096.
           entry s (page_path 0x80000000 j) = Some (leaf_entry (block_addr (f + j)) 7))))"

lemma boot_files_parts:
  assumes "boot_files_ok bi es a fs st"
  shows "archive (mem st) a fs" "kregion a (archive_size fs)" "archive_size fs \<le> 2 ^ 64"
    "cstring (mem st) (video_bad_str bi) video_bad" "kregion (video_bad_str bi) (Suc (List.length video_bad))"
    "cstring (mem st) (init_kex_str bi) init_kex" "kregion (init_kex_str bi) (Suc (List.length init_kex))"
    "kregion (vid_size_var bi) 8" "kregion (file_size_var bi) 8"
    "vid_size_var bi \<noteq> 0" "file_size_var bi \<noteq> 0"
  using assms by (auto simp: boot_files_ok_def region_in_def kregion_def khalf_def)

lemma start_video_ok:
  fixes s :: "'a fs_scheme"
  assumes ok: "boot_files_ok bi es a fs st" and I: "{..<256} \<subseteq> I"
    and k: "files_kept I bi (boot_cell st es) a fs (mem st) s"
    and s: "fs_start_addr s = a" "hhdm_offset s = hhdm_offset st"
    and free: "video_frames fs + n \<le> card (free_blocks s)"
  shows "\<exists>t. start_video bi s = Some t \<and> files_kept I bi (boot_cell st es) a fs (mem st) t \<and>
    fs_start_addr t = a \<and> hhdm_offset t = hhdm_offset st \<and> n \<le> card (free_blocks t) \<and>
    video_at (hhdm_offset st) a fs t \<and> onward I bi s t"
proof -
  note p = boot_files_parts [OF ok]
  note r = files_kept_reads [OF k p(1,3,4,6)]
  have live: "tx_live s" using k kept_tx_live by (auto simp: files_kept_def)
  have "vid_size_var bi = 0 \<or> kregion (vid_size_var bi) 8" using p(8) by simp
  note get = fs_get_file_loop_archive [OF p(5) r(2) this r(1) p(2)]
  show ?thesis
  proof (cases "map_of (names fs) video_bad")
    case None
    then have "fs_get_file (video_bad_str bi) (vid_size_var bi) s = Some (0, s)"
      using get by (simp add: fs_get_file_def s(1))
    moreover obtain out t where t: "kprintf (''WARN: video.bad not found in ramdisk!'' @ nl) [] s = Some t"
        "printed out s t"
      using kprintf_plain [of "''WARN: video.bad not found in ramdisk!'' @ nl" "[]" s] live by auto
    ultimately have "start_video bi s = Some t" by (simp add: start_video_def)
    moreover have "fs_start_addr t = a" using t(2) s(1) by (auto simp: printed_def)
    moreover note same_vm_facts [OF printed_same_vm [OF t(2)]] files_kept_same [OF k printed_same_vm [OF t(2)]]
      onward_printed [OF t(2)]
    ultimately show ?thesis
      using None s(2) free by (intro exI [of _ t]) (simp add: video_frames_def video_at_def)
  next
    case (Some v)
    let ?w = "of_nat (List.length v) :: u64"
    let ?s1 = "s\<lparr>mem := stw 8 (mem s) (vid_size_var bi) ?w\<rparr>"
    let ?q = "data_offset fs video_bad"
    have q: "fs_get_file (video_bad_str bi) (vid_size_var bi) s = Some (a + of_nat ?q, ?s1)"
        "a + of_nat ?q \<noteq> 0" "?q + List.length v \<le> archive_size fs"
        "bytes (mem s) (a + of_nat ?q) (List.length v) = v"
      using get Some p(10) by (auto simp: fs_get_file_def s(1))
    let ?p = "a + of_nat ?q" and ?h = "hhdm_offset st"
    let ?D = "unat ?p - unat ?h"
    let ?f = "?D div 4096" and ?off = "?D mod 4096"
    let ?n = "(List.length v + ?off + 4095) div 4096"
    have len: "List.length v \<le> 2 ^ 32 - 1024" using archive_file_bound [OF p(1) Some] .
    have b: "unat ?h \<le> unat a" "unat a + archive_size fs \<le> 0xFFFF900000000000"
      using ok by (simp_all add: boot_files_ok_def)
    have "unat (of_nat ?q :: u64) = ?q" using b(2) q(3) by (intro unat_of_nat64) simp
    then have p_unat: "unat ?p = unat a + ?q"
      using b(2) q(3) by (subst unat_add_lem [THEN iffD1]) simp_all
    then have "?h \<le> ?p" using b(1) by (simp add: word_le_nat_alt)
    then have D: "unat (?p - ?h) = ?D" by (rule unat_sub)
    have phys: "(?p - ?h) AND NOT 0xFFF = block_addr ?f" "unat ((?p - ?h) AND 0xFFF) = ?off"
      by (simp_all only: page_part page_offset D)
    have "unat (?w + ((?p - ?h) AND 0xFFF)) = List.length v + ?off"
      using len phys(2) by (subst unat_add_lem [THEN iffD1]) (simp_all add: unat_of_nat64)
    then have "unat (?w + ((?p - ?h) AND 0xFFF) + 4095) = List.length v + ?off + 4095"
      using len by (subst unat_add_lem [THEN iffD1]) simp_all
    then have pages: "unat ((?w + ((?p - ?h) AND 0xFFF) + 4095) div 4096) = ?n" by (simp add: unat_div)
    have n: "0x80000000 + 4096 * ?n \<le> 2 ^ 47" "3 * ?n \<le> video_frames fs"
      using len Some by (simp_all add: video_frames_def)
    have var: "region_in (\<lambda>x. boot_cell st es x \<and> \<not> file_cell bi a fs x) (vid_size_var bi) 8"
      using ok by (simp add: boot_files_ok_def)
    note s1 = files_kept_store(1,2) [OF k var, of ?w]
    have load: "ld64 ?s1 (vid_size_var bi) = Some ?w"
      using p(8) by (simp add: kernel_mem ldw_stw_same)
    let ?pages = "(?w + ((?p - ?h) AND 0xFFF) + 4095) div 4096"
    let ?map = "''Mapping video: %d bytes (%d pages)...'' @ nl"
    have live1: "tx_live ?s1" using live by (simp add: tx_live_def)
    obtain o1 s2 where s2: "kprintf ?map [?w, ?pages] ?s1 = Some s2" "printed o1 ?s1 s2"
      using kprintf_plain [of ?map "[?w, ?pages]" ?s1] live1 by auto
    note sv2 = printed_same_vm [OF s2(2)]
    have k2: "files_kept I bi (boot_cell st es) a fs (mem st) s2" by (rule files_kept_same [OF s1(1) sv2])
    then have wf2: "vm_wf I s2" by (simp add: files_kept_def kept_def)
    have free2: "free_blocks s2 = free_blocks s" using same_vm_facts(2) [OF sv2] s1(2) by simp
    have enough: "3 * ?n \<le> card (free_blocks s2)" using n(2) free free2 by simp
    obtain s3 where s3: "video_map_loop ?n 0 (block_addr ?f) s2 = Some s3" "vm_ext I (3 * ?n) s2 s3"
        "\<forall>j<?n. entry s3 (page_path 0x80000000 j) = Some (leaf_entry (block_addr (?f + j)) 7)"
      using video_map_loop_ok [OF I n(1), of 0 ?n s2 ?f] wf2 enough by auto
    have k3: "files_kept I bi (boot_cell st es) a fs (mem st) s3" by (rule files_kept_ext [OF k2 s3(2)])
    then have live3: "tx_live s3" using kept_tx_live by (auto simp: files_kept_def)
    let ?done = "''Video mapped successfully to 0x80000000'' @ nl"
    obtain o2 t where t: "kprintf ?done [] s3 = Some t" "printed o2 s3 t"
      using kprintf_plain [of ?done "[]" s3] live3 by auto
    note sv = printed_same_vm [OF t(2)]
    have kt: "files_kept I bi (boot_cell st es) a fs (mem st) t" by (rule files_kept_same [OF k3 sv])
    have "start_video bi s = Some t"
      using q(1,2) s(2) load s2(1) s3(1) t(1) phys(1) pages by (simp add: start_video_def Let_def)
    moreover have "fs_start_addr t = a"
      using s(1) s2(2) s3(2) t(2) by (auto simp: printed_def vm_ext_def)
    moreover have "hhdm_offset t = hhdm_offset st"
      using s(2) same_vm_facts(8) [OF sv] same_vm_facts(8) [OF sv2] vm_ext_frame(2) [OF s3(2)] by simp
    moreover have "n \<le> card (free_blocks t)"
      using free free2 n(2) s3(2) same_vm_facts(2) [OF sv] by (simp add: vm_ext_def)
    moreover have "bytes (mem t) ?p (List.length v) = v"
      using files_kept_bytes [OF kt q(3) p(3)] files_kept_bytes [OF k q(3) p(3)] q(4) by simp
    moreover have "onward I bi s t"
      using onward_trans [OF onward_trans [OF onward_store [OF k var] onward_printed [OF s2(2)]]
        onward_trans [OF onward_ext [OF s3(2)] onward_printed [OF t(2)]]] by blast
    moreover have "unat ?p = unat ?h + (4096 * ?f + ?off)" using p_unat b(1) by simp
    moreover have "\<forall>j<?n. entry t (page_path 0x80000000 j) = Some (leaf_entry (block_addr (?f + j)) 7)"
      using s3(3) same_vm_facts(5) [OF sv] by simp
    ultimately show ?thesis
      using kt Some q(3) unfolding video_at_def Let_def
      by (intro exI [of _ t] conjI allI impI exI [of _ ?f] exI [of _ ?off]) simp_all
  qed
qed

text \<open>What a program reads in those pages: the video, and in front of it what is in memory there.\<close>

lemma video_reads:
  fixes s :: "'a machine_scheme"
  assumes at: "video_at h a fs s" and v: "map_of (names fs) video_bad = Some v"
    and h: "hhdm_offset s = h" and khalf: "khalf h" and len: "List.length v \<le> 2 ^ 32"
  defines "p \<equiv> a + of_nat (data_offset fs video_bad)"
  defines "off \<equiv> (unat p - unat h) mod 4096"
  shows "bytes (mem s) p (List.length v) = v"
    and "i < off + List.length v \<Longrightarrow>
      ld8 s (0x80000000 + of_nat i) = Some (mem s (p - of_nat off + of_nat i))"
proof -
  obtain f o' where f: "bytes (mem s) p (List.length v) = v" "unat p = unat h + (4096 * f + o')" "o' < 4096"
      "\<forall>j<(List.length v + o' + 4095) div 4096.
         entry s (page_path 0x80000000 j) = Some (leaf_entry (block_addr (f + j)) 7)"
    using at v unfolding video_at_def p_def Let_def by blast
  show "bytes (mem s) p (List.length v) = v" by (rule f(1))
  have off: "off = o'" using f(2,3) by (simp add: off_def)
  have "unat p < 2 ^ 64" by simp
  then have fb: "f < 2 ^ 39" using f(2) khalf by (simp add: khalf_unat)
  have base: "p - of_nat off = block_addr f + h"
  proof -
    have w: "of_nat (unat x) = x" for x :: u64 by (simp only: of_nat_unat ucast_id)
    have "p = of_nat (unat h + (4096 * f + o'))" by (simp only: f(2) [symmetric] w)
    also have "\<dots> = h + (block_addr f + of_nat o')" by (simp only: of_nat_add w) (simp add: block_addr_def)
    finally show ?thesis by (simp add: off)
  qed
  show "ld8 s (0x80000000 + of_nat i) = Some (mem s (p - of_nat off + of_nat i))"
    if i: "i < off + List.length v"
  proof -
    have j: "i div 4096 < (List.length v + o' + 4095) div 4096" using i off by linarith
    have "f + i div 4096 < 2 ^ 40" using fb i off f(3) len by simp
    then have "resolve s (0x80000000 + of_nat i) =
        Some (block_addr (f + i div 4096) + of_nat (i mod 4096) + hhdm_offset s)"
      using f(4) j i off f(3) len
      by (intro resolve_mapped [of _ "off + List.length v"]) simp_all
    moreover have "block_addr (f + i div 4096) + of_nat (i mod 4096) = block_addr f + of_nat i"
    proof -
      have "(of_nat i :: u64) = of_nat (4096 * (i div 4096) + i mod 4096)"
        by (simp only: mult_div_mod_eq)
      also have "\<dots> = 4096 * of_nat (i div 4096) + of_nat (i mod 4096)"
        by (simp only: of_nat_add of_nat_mult of_nat_numeral)
      finally show ?thesis by (simp add: block_addr_def distrib_right)
    qed
    ultimately show ?thesis by (simp add: ld8_def base h add.commute add.left_commute)
  qed
qed

section \<open>The first program\<close>

definition video_pages :: "files \<Rightarrow> nat set" where
  "video_pages fs = {0x80000 ..< 0x80000 + video_frames fs div 3}"

text \<open>The video stays where it is when the tables of its pages and its file do.\<close>

lemma video_at_kept:
  fixes s :: "'a pmm_scheme" and t :: "'b pmm_scheme"
  assumes at: "video_at h a fs s" and k: "files_kept I bi C a fs m s" "files_kept J bi' C' a fs m t"
    and size: "archive_size fs \<le> 2 ^ 64" and small: "archive m a fs"
    and entries: "\<And>va. unat va < 2 ^ 47 \<Longrightarrow> unat va div 4096 \<in> video_pages fs \<Longrightarrow>
      entry t (va_path va) = entry s (va_path va)"
  shows "video_at h a fs t"
  unfolding video_at_def Let_def
proof (intro allI impI)
  let ?k = "data_offset fs video_bad"
  fix v assume v: "map_of (names fs) video_bad = Some v"
  then obtain f off where f: "?k + List.length v \<le> archive_size fs"
      "bytes (mem s) (a + of_nat ?k) (List.length v) = v" "unat (a + of_nat ?k) = unat h + (4096 * f + off)"
      "off < 4096" "\<forall>j<(List.length v + off + 4095) div 4096.
         entry s (page_path 0x80000000 j) = Some (leaf_entry (block_addr (f + j)) 7)"
    using at unfolding video_at_def Let_def by blast
  have len: "List.length v \<le> 2 ^ 32 - 1024" using archive_file_bound [OF small v] .
  have "entry t (page_path 0x80000000 j) = Some (leaf_entry (block_addr (f + j)) 7)"
    if j: "j < (List.length v + off + 4095) div 4096" for j
  proof -
    let ?n = "(List.length v + 8190) div 4096"
    have n: "0x80000000 + 4096 * ?n \<le> 2 ^ 47" using len by simp
    have "(List.length v + off + 4095) div 4096 \<le> ?n" using f(4) by (intro div_le_mono) simp
    then have jn: "j < ?n" using j by linarith
    have "unat (0x80000000 + of_nat (4096 * j) :: u64) div 4096 \<in> video_pages fs"
      unfolding video_page(1) [OF n jn] using jn v by (simp add: video_pages_def video_frames_def)
    then show ?thesis
      using entries [OF video_page(2) [OF n jn]] f(5) j by (simp add: page_path_def)
  qed
  moreover have "bytes (mem t) (a + of_nat ?k) (List.length v) = v"
    using files_kept_bytes [OF k(1) f(1) size] files_kept_bytes [OF k(2) f(1) size] f(2) by simp
  ultimately show "\<exists>f off. ?k + List.length v \<le> archive_size fs \<and>
      bytes (mem t) (a + of_nat ?k) (List.length v) = v \<and>
      unat (a + of_nat ?k) = unat h + (4096 * f + off) \<and> off < 4096 \<and>
      (\<forall>j<(List.length v + off + 4095) div 4096.
         entry t (page_path 0x80000000 j) = Some (leaf_entry (block_addr (f + j)) 7))"
    using f(1,3,4) by blast
qed

text \<open>
  What the linker must have been given: an executable whose segments can be loaded and leave
  the pages of the video alone.
\<close>

definition boot_program ::
  "elf_h \<Rightarrow> (u8 list \<Rightarrow> u8 list) \<Rightarrow> u8 list \<Rightarrow> u64 \<Rightarrow> temp_seg list \<Rightarrow> files \<Rightarrow> bool" where
  "boot_program eh SHA256 elf entry_point segs fs \<longleftrightarrow>
     (\<exists>file machine f. kex_link eh SHA256 elf = Some file \<and>
        read_elf eh \<lparr>idata = elf, ipos = 0, ifail = False\<rparr> = Some (entry_point, machine, segs, f) \<and>
        map_of (names fs) init_kex = Some file) \<and>
     0 < phdr32_size eh \<and> 0 < phdr64_size eh \<and> (\<forall>x. List.length (SHA256 x) = 32) \<and>
     loadable elf segs \<and> (\<forall>e\<in>set segs. page_range (ts_vaddr e) (ts_memsz e) \<inter> video_pages fs = {})"

definition program_frames :: "temp_seg list \<Rightarrow> nat" where
  "program_frames segs = 4 * ((\<Sum>e\<leftarrow>segs. pages_of (ts_memsz e)) + 1)"

definition segments_in_place :: "u8 list \<Rightarrow> temp_seg list \<Rightarrow> 'a machine_scheme \<Rightarrow> bool" where
  "segments_in_place elf segs s \<longleftrightarrow> (\<forall>e\<in>set segs. \<forall>i<unat (ts_memsz e).
     ld8 s (ts_vaddr e + of_nat i) = Some (if i < unat (ts_filesz e) then elf ! (unat (ts_off e) + i) else 0))"

text \<open>Every segment is mapped to frames of \<open>F\<close> of its own.\<close>

definition segments_mapped :: "nat set \<Rightarrow> nat set \<Rightarrow> temp_seg list \<Rightarrow> 'a pmm_scheme \<Rightarrow> bool" where
  "segments_mapped I F segs s \<longleftrightarrow>
     (\<forall>e\<in>set segs. \<exists>b. loaded I F s (ts_vaddr e) (unat (ts_memsz e)) b)"

lemma loaded_mono: "loaded I F s va n b \<Longrightarrow> F \<subseteq> G \<Longrightarrow> loaded I G s va n b"
  unfolding loaded_def by (auto dest: subsetD)

lemma start_init_ok:
  fixes s :: "'a fs_scheme"
  assumes ok: "boot_files_ok bi es a fs st" and I: "{..<256} \<subseteq> I"
    and prog: "boot_program eh SHA256 elf entry_point segs fs"
    and k: "files_kept I bi (boot_cell st es) a fs (mem st) s"
    and s: "fs_start_addr s = a" "hhdm_offset s = hhdm_offset st"
    and vid: "video_at (hhdm_offset st) a fs s" and free: "program_frames segs \<le> card (free_blocks s)"
  shows "\<exists>t. start_init bi fl s = Some (User_mode (switch_to_user_mode entry_point fl) t) \<and>
    segments_in_place elf segs t \<and> video_at (hhdm_offset st) a fs t \<and>
    files_kept I bi (boot_cell st es) a fs (mem st) t \<and> hhdm_offset t = hhdm_offset st \<and>
    onward I bi s t \<and> segments_mapped I (free_blocks s) segs t"
proof -
  note p = boot_files_parts [OF ok]
  note r = files_kept_reads [OF k p(1,3,4,6)]
  obtain "file" machine f where prog': "kex_link eh SHA256 elf = Some file"
      "read_elf eh \<lparr>idata = elf, ipos = 0, ifail = False\<rparr> = Some (entry_point, machine, segs, f)"
      "0 < phdr32_size eh" "0 < phdr64_size eh" "\<And>x. List.length (SHA256 x) = 32" "loadable elf segs"
    and get: "map_of (names fs) init_kex = Some file"
    using prog unfolding boot_program_def by blast
  let ?w = "of_nat (List.length file) :: u64" and ?q = "data_offset fs init_kex"
  let ?p = "a + of_nat ?q" and ?s1 = "s\<lparr>mem := stw 8 (mem s) (file_size_var bi) ?w\<rparr>"
  have "file_size_var bi = 0 \<or> kregion (file_size_var bi) 8" using p(9) by simp
  then have q: "fs_get_file (init_kex_str bi) (file_size_var bi) s = Some (?p, ?s1)" "?p \<noteq> 0"
      "?q + List.length file \<le> archive_size fs" "bytes (mem s) ?p (List.length file) = file"
      "kregion ?p (List.length file)"
    using fs_get_file_loop_archive [OF p(7) r(3) _ r(1) p(2)] get p(11) by (auto simp: fs_get_file_def s(1))
  have var: "region_in (\<lambda>x. boot_cell st es x \<and> \<not> file_cell bi a fs x) (file_size_var bi) 8"
    using ok by (simp add: boot_files_ok_def)
  note s1 = files_kept_store(1,2) [OF k var, of ?w] files_kept_store(3) [OF k var, of _ ?w]
  have wf: "vm_wf I ?s1" using s1(1) by (simp add: files_kept_def kept_def)
  have reg: "foreign_region I ?s1 ?p (List.length file)"
    unfolding foreign_region_def
  proof (intro conjI allI impI q(5))
    fix i assume "i < List.length file"
    then have "within (a + of_nat (?q + i)) a (archive_size fs)"
      using q(3) p(3) by (subst within_offset) simp_all
    then have "boot_cell st es (?p + of_nat i)"
      using ok by (simp add: boot_files_ok_def region_in_def add.assoc)
    then show "foreign I ?s1 (?p + of_nat i)" using s1(1) by (simp add: files_kept_def)
  qed
  have data: "bytes (mem ?s1) ?p (List.length file) = file"
    using files_kept_bytes [OF s1(1) q(3) p(3)] files_kept_bytes [OF k q(3) p(3)] q(4) by simp
  have enough: "4 * ((\<Sum>e\<leftarrow>segs. pages_of (ts_memsz e)) + 1) \<le> card (free_blocks ?s1)"
    using free s1(2) by (simp add: program_frames_def)
  obtain t where t: "load_kex_and_run ?p fl ?s1 = Some (Entered (switch_to_user_mode entry_point fl) t)"
      "segments_in_place elf segs t" "vm_ext I (program_frames segs) ?s1 t"
      "segments_mapped I (free_blocks ?s1) segs t"
      "\<forall>va. unat va < 2 ^ 47 \<longrightarrow> unat va div 4096 \<noteq> 0x7FF \<longrightarrow>
         (\<forall>e\<in>set segs. unat va div 4096 \<notin> page_range (ts_vaddr e) (ts_memsz e)) \<longrightarrow>
         entry t (va_path va) = entry ?s1 (va_path va)"
    using kex_ld_load_ok [of eh SHA256 elf "file" entry_point machine segs f I ?s1 ?p fl,
      OF prog' wf I reg data enough]
    unfolding segments_in_place_def segments_mapped_def program_frames_def by blast
  have "start_init bi fl s = Some (User_mode (switch_to_user_mode entry_point fl) t)"
    using q(1,2) t(1) by (simp add: start_init_def)
  moreover have "onward I bi s t"
    using onward_trans [OF onward_store [OF k var] onward_ext [OF t(3)]] by blast
  moreover have "segments_mapped I (free_blocks s) segs t" using t(4) s1(2) by simp
  moreover have kt: "files_kept I bi (boot_cell st es) a fs (mem st) t"
    by (rule files_kept_ext [OF s1(1) t(3)])
  moreover have "video_at (hhdm_offset st) a fs t"
  proof (rule video_at_kept [OF vid k kt p(3,1)])
    fix va :: u64 assume va: "unat va < 2 ^ 47" "unat va div 4096 \<in> video_pages fs"
    have "entry t (va_path va) = entry ?s1 (va_path va)"
    proof -
      have "unat va div 4096 \<noteq> 0x7FF" using va(2) by (auto simp: video_pages_def)
      moreover have "\<forall>e\<in>set segs. unat va div 4096 \<notin> page_range (ts_vaddr e) (ts_memsz e)"
        using prog va(2) unfolding boot_program_def by blast
      ultimately show ?thesis using t(5) va(1) by blast
    qed
    moreover have "page_index 39 va \<in> I" using low_index [OF va(1)] I by blast
    ultimately show "entry t (va_path va) = entry s (va_path va)"
      using s1(3) va_path_lpath by simp
  qed
  moreover have "hhdm_offset t = hhdm_offset st" using vm_ext_frame(2) [OF t(3)] s(2) by simp
  ultimately show ?thesis using t(2) by blast
qed

section \<open>From the boot loader to the first program\<close>

lemma kept_ld64:
  assumes "kept I C m s" and "region_in C p 8"
  shows "ld64 s p = Some (ldw 8 m p)"
proof -
  have "mem s x = m x" if "within x p 8" for x
    using assms that by (simp add: kept_def region_in_def)
  then have "ldw 8 (mem s) p = (ldw 8 m p :: u64)" by (intro ldw_cong) simp
  then show ?thesis using assms(2) by (simp add: kernel_mem region_in_def)
qed

lemma region_in_part:
  assumes "region_in C p n" and "i + k \<le> n" and "n \<le> 2 ^ 64"
  shows "region_in C (p + of_nat i) k"
proof -
  have "kregion (p + of_nat i) (n - i)" using assms by (intro kregion_offset) (simp_all add: region_in_def)
  then have "kregion (p + of_nat i) k" by (rule kregion_mono) (use assms(2) in simp)
  then show ?thesis using assms(1) within_part [OF assms(2,3)] by (auto simp: region_in_def)
qed

lemma file_cells:
  assumes "boot_files_ok bi es a fs st" and "file_cell bi a fs x"
  shows "boot_cell st es x"
  using assms by (auto simp: boot_files_ok_def file_cell_def region_in_def)

lemma start_programs_ok:
  fixes s :: "'a fs_scheme"
  assumes ok: "boot_files_ok bi es a fs st" and I: "{..<256} \<subseteq> I"
    and prog: "boot_program eh SHA256 elf entry_point segs fs"
    and k: "kept I (boot_cell st es) (mem st) s" and h: "hhdm_offset s = hhdm_offset st"
    and free: "video_frames fs + program_frames segs \<le> card (free_blocks s)"
  shows "\<exists>t. start_programs bi fl s = Some (User_mode (switch_to_user_mode entry_point fl) t) \<and>
    segments_in_place elf segs t \<and> video_at (hhdm_offset st) a fs t \<and>
    files_kept I bi (boot_cell st es) a fs (mem st) t \<and> hhdm_offset t = hhdm_offset st \<and>
    onward I bi s t \<and> segments_mapped I (free_blocks s) segs t"
proof -
  let ?C = "boot_cell st es" and ?m = "mem st" and ?r = "module_response bi"
  let ?ms = "ldw 8 ?m (?r + 16) :: u64"
  let ?f = "ldw 8 ?m ?ms :: u64"
  have m: "?r \<noteq> 0" "region_in ?C (?r + 8) 16" "0 < (ldw 8 ?m (?r + 8) :: u64)" "region_in ?C ?ms 8"
      "region_in ?C (?f + 8) 8" "ldw 8 ?m (?f + 8) = a"
    using ok by (simp_all add: boot_files_ok_def module_at_def)
  have r: "region_in ?C (?r + 8) 8" "region_in ?C (?r + 16) 8"
    using region_in_part [OF m(2), of 0 8] region_in_part [OF m(2), of 8 8] by (simp_all add: add.assoc)
  note p = boot_files_parts [OF ok]
  have fk: "files_kept I bi ?C a fs ?m s"
    using k kept_mono [OF k file_cells [OF ok]] by (simp add: files_kept_def kept_def)
  note reads = files_kept_reads [OF fk p(1,3,4,6)]
  obtain out s1 where s1: "fs_init a s = Some s1" "printed out (s\<lparr>fs_start_addr := a\<rparr>) s1"
    using fs_init_prints [OF reads(1) p(2) kept_tx_live [OF k]] by blast
  have sv: "same_vm s s1"
    by (rule same_vm_trans [OF _ printed_same_vm [OF s1(2)]]) (simp add: same_vm_def)
  have a: "fs_start_addr s1 = a" using s1(2) by (auto simp: printed_def)
  have h1: "hhdm_offset s1 = hhdm_offset st" using same_vm_facts(8) [OF sv] h by simp
  have free1: "video_frames fs + program_frames segs \<le> card (free_blocks s1)"
    using same_vm_facts(2) [OF sv] free by simp
  obtain s2 where s2: "start_video bi s1 = Some s2" "files_kept I bi ?C a fs ?m s2"
      "fs_start_addr s2 = a" "hhdm_offset s2 = hhdm_offset st"
      "program_frames segs \<le> card (free_blocks s2)" "video_at (hhdm_offset st) a fs s2" "onward I bi s1 s2"
    using start_video_ok [OF ok I files_kept_same [OF fk sv] a h1 free1] by blast
  have "start_programs bi fl s = start_init bi fl s2"
    using m(1,3,6) s1(1) s2(1) kept_ld64 [OF k r(1)] kept_ld64 [OF k r(2)] kept_ld64 [OF k m(4)]
      kept_ld64 [OF k m(5)]
    by (simp add: start_programs_def)
  moreover obtain t where t: "start_init bi fl s2 = Some (User_mode (switch_to_user_mode entry_point fl) t)"
      "segments_in_place elf segs t" "video_at (hhdm_offset st) a fs t"
      "files_kept I bi ?C a fs ?m t" "hhdm_offset t = hhdm_offset st" "onward I bi s2 t"
      "segments_mapped I (free_blocks s2) segs t"
    using start_init_ok [OF ok I prog s2(2-4,6,5)] by blast
  moreover have o1: "onward I bi s s2"
  proof (rule onward_trans [OF _ s2(7)])
    show "onward I bi s s1" by (rule onward_same_vm [OF sv]) (use s1(2) in \<open>auto simp: printed_def\<close>)
  qed
  moreover have "segments_mapped I (free_blocks s) segs t"
    using t(7) o1 loaded_mono unfolding segments_mapped_def onward_def by blast
  ultimately show ?thesis using onward_trans by (intro exI [of _ t]) auto
qed

definition boot_ok ::
  "boot_info \<Rightarrow> limine_memmap_entry list \<Rightarrow> u64 \<Rightarrow> u64 \<Rightarrow> files \<Rightarrow> 'a boot_scheme \<Rightarrow> bool" where
  "boot_ok bi es h a fs st \<longleftrightarrow> base_revision_supported bi \<and> List.length (gdt st) = 7 \<and>
     List.length (idt st) = 256 \<and> hhdm_response bi \<noteq> 0 \<and> ld64 st (hhdm_response bi + 8) = Some h \<and>
     boot_memory_ok bi es (st\<lparr>hhdm_offset := h\<rparr>) \<and> boot_files_ok bi es a fs (st\<lparr>hhdm_offset := h\<rparr>)"

lemma boot_cong:
  fixes s :: "'a machine_scheme" and t :: "'b machine_scheme"
  assumes "mem t = mem s" and "cr3 t = cr3 s" and "hhdm_offset t = hhdm_offset s" and "tx_live t"
  shows "boot_memory_ok bi es s \<Longrightarrow> boot_memory_ok bi es t"
    and "boot_files_ok bi es a fs s \<Longrightarrow> boot_files_ok bi es a fs t"
    and "boot_cell t es = boot_cell s es"
proof -
  have "entry t q = entry s q" for q by (simp add: entry_def assms)
  then show "boot_memory_ok bi es s \<Longrightarrow> boot_memory_ok bi es t"
    using assms by (simp add: boot_memory_ok_def boot_map_ok_def)
  show cell: "boot_cell t es = boot_cell s es" by (intro ext) (simp add: boot_cell_def assms)
  show "boot_files_ok bi es a fs s \<Longrightarrow> boot_files_ok bi es a fs t"
    by (simp add: boot_files_ok_def cell assms)
qed

text \<open>
  What \<open>_start\<close> leaves behind: the heap with one block in use, the kernel stack in the task state
  segment, the segments of the program in frames of usable memory, and the boot loader's memory
  and the heap window outside of what the memory managers hand out.
\<close>

definition booted ::
  "symbols \<Rightarrow> limine_memmap_entry list \<Rightarrow> (u64 \<Rightarrow> bool) \<Rightarrow> temp_seg list \<Rightarrow> nat set \<Rightarrow>
     'a syscalls_scheme \<Rightarrow> 'a syscalls_scheme \<Rightarrow> bool" where
  "booted sy es C segs I st t \<longleftrightarrow> vm_wf I t \<and> {..<256} \<subseteq> I \<and>
     heap t [(56, False), (0x1000000 - 56, True)] \<and> free_list t = heap_start \<and>
     screen_vars t = screen_vars st \<and> rsp0 (tss_entry t) = tss_kernel_stack_sym sy + 4096 \<and>
     segments_mapped I (boot_frames es) segs t \<and>
     (\<forall>x. C x \<or> within x heap_start 0x1000000 \<longrightarrow> foreign I t x)"

lemma kernel_start_ok:
  fixes st :: "'a boot_scheme"
  assumes ok: "boot_ok bi es h a fs st"
    and prog: "boot_program eh SHA256 elf entry_point segs fs"
    and free: "16385 + video_frames fs + program_frames segs \<le> card (boot_frames es)"
  shows "\<exists>t I. kernel_start sy bi fl st = Some (User_mode (switch_to_user_mode entry_point fl) t) \<and>
    segments_in_place elf segs t \<and> video_at h a fs t \<and> hhdm_offset t = h \<and>
    booted sy es (boot_cell (st\<lparr>hhdm_offset := h\<rparr>) es) segs I st t \<and>
    (\<forall>x. file_cell bi a fs x \<longrightarrow> mem t x = mem st x)"
proof -
  note o = ok [unfolded boot_ok_def]
  have live: "tx_live st" using o by (simp add: boot_memory_ok_def boot_map_ok_def tx_live_def)
  let ?e = "enable_sse st"
  have e: "mem ?e = mem st" "cr3 ?e = cr3 st" "gdt ?e = gdt st" "idt ?e = idt st" "inputs ?e = inputs st"
    "hhdm_offset ?e = hhdm_offset st" "screen_vars ?e = screen_vars st"
    by (simp_all add: enable_sse_def Let_def screen_vars_def)
  have res: "resolve ?e x = resolve st x" for x by (simp add: resolve_def walk_def e)
  then have "ld8 ?e x = ld8 st x" for x by (simp add: ld8_def e)
  then have "ldn n ?e x = (ldn n st x :: u64 option)" for n x by (induction n arbitrary: x) simp_all
  then have ld: "ld64 ?e (hhdm_response bi + 8) = Some h" using o by (simp add: ld64_def)
  obtain s0 where s0: "start_tables sy bi ?e = Some s0" "mem s0 = mem st" "cr3 s0 = cr3 st"
      "hhdm_offset s0 = h" "tx_live s0" "screen_vars s0 = screen_vars st"
      "rsp0 (tss_entry s0) = tss_kernel_stack_sym sy + 4096"
    using start_tables_ok [of bi ?e h sy] o ld live e by (auto simp: tx_live_def)
  let ?st = "st\<lparr>hhdm_offset := h\<rparr>"
  have eq: "mem s0 = mem ?st" "cr3 s0 = cr3 ?st" "hhdm_offset s0 = hhdm_offset ?st" using s0 by simp_all
  have mok: "boot_memory_ok bi es s0" and fok: "boot_files_ok bi es a fs s0"
    using boot_cong(1,2) [OF eq s0(5)] o by blast+
  obtain s1 where s1: "start_pmm bi s0 = Some s1" "kept {} (boot_cell s0 es) (mem s0) s1"
      "free_blocks s1 = boot_frames es" "hhdm_offset s1 = hhdm_offset s0" "entry s1 [288] = None"
      "\<forall>x. within x heap_start 0x1000000 \<longrightarrow> foreign {} s1 x" "pmm.more s1 = pmm.more s0"
    using start_pmm_kept [OF mok] by blast
  have C: "\<And>x. boot_cell s0 es x \<Longrightarrow> \<not> within x heap_start 0x1000000" by (simp add: boot_cell_def)
  let ?I = "fresh_indices s1" and ?n = "video_frames fs + program_frames segs"
  have free1: "16385 + ?n \<le> card (free_blocks s1)" using free s1(3) by simp
  obtain s2 where s2: "start_heap s1 = Some s2" "kept ?I (boot_cell s0 es) (mem s0) s2"
      "?n \<le> card (free_blocks s2)" "heap s2 [(0x1000000, True)]" "free_list s2 = heap_start"
      "hhdm_offset s2 = hhdm_offset s1" "\<forall>x. within x heap_start 0x1000000 \<longrightarrow> foreign ?I s2 x"
      "free_blocks s2 \<subseteq> free_blocks s1" "kheap.more s2 = kheap.more s1"
    using start_heap_kept [OF s1(2,5) free1 _ C] s1(6) by blast
  obtain s3 where s3: "pit_initialize 100 s2 = Some s3" "same_vm s2 s3" "free_list s3 = free_list s2"
      "process.more s3 = process.more s2"
    by (simp add: pit_initialize_def same_vm_def outb_def Let_def)
  note sv = same_vm_facts [OF s3(2)]
  have heap3: "heap s3 [(0x1000000, True)]" using s2(4) s3(3) sv(7) by (simp add: heap_def)
  have list3: "free_list s3 = heap_start" using s2(5) s3(3) by simp
  have k3: "kept ?I (boot_cell s0 es) (mem s0) s3" using s2(2) sv(6) by simp
  have w3: "\<And>x. within x heap_start 0x1000000 \<Longrightarrow> foreign ?I s3 x" using s2(7) sv(4) by simp
  obtain s4 where s4: "multitasking_initialize s3 = Some s4" "kept ?I (boot_cell s0 es) (mem s0) s4"
      "free_blocks s4 = free_blocks s3" "hhdm_offset s4 = hhdm_offset s3"
      "heap s4 [(56, False), (0x1000000 - 56, True)]" "free_list s4 = heap_start"
      "process.more s4 = process.more s3" "\<forall>x. foreign ?I s4 x = foreign ?I s3 x"
    using multitasking_initialize_kept [OF heap3 list3 k3 w3 C] by blast
  have I: "{..<256} \<subseteq> ?I" by (auto simp: fresh_indices_def)
  have h4: "hhdm_offset s4 = hhdm_offset s0" using s4(4) sv(8) s2(6) s1(4) by simp
  have free4: "?n \<le> card (free_blocks s4)" using s2(3) s4(3) sv(2) by simp
  obtain t where t: "start_programs bi fl s4 = Some (User_mode (switch_to_user_mode entry_point fl) t)"
      "segments_in_place elf segs t" "video_at (hhdm_offset s0) a fs t"
      "files_kept ?I bi (boot_cell s0 es) a fs (mem s0) t" "hhdm_offset t = hhdm_offset s0"
      "onward ?I bi s4 t" "segments_mapped ?I (free_blocks s4) segs t"
    using start_programs_ok [OF fok I prog s4(2) h4 free4] by blast
  have "kernel_start sy bi fl st = Some (User_mode (switch_to_user_mode entry_point fl) t)"
    using o s0(1) s1(1) s2(1) s3(1) s4(1) t(1) by (simp add: kernel_start_def Let_def)
  moreover have "booted sy es (boot_cell ?st es) segs ?I st t"
    unfolding booted_def
  proof (intro conjI I)
    have more: "process.more s4 = process.more s0"
      using s4(7) s3(4) rest_fields(2) [OF s2(9)] rest_fields(2) [OF rest_fields(3) [OF s1(7)]] by simp
    note old = rest_fields(1) [OF more] and new = t(6) [unfolded onward_def]
    show "screen_vars t = screen_vars st" using rest_fields(4) [of t s4] new old s0(6) by simp
    show "rsp0 (tss_entry t) = tss_kernel_stack_sym sy + 4096" using new old s0(7) by simp
    show "free_list t = heap_start" using new s4(6) by simp
    show "vm_wf ?I t" using t(4) by (simp add: files_kept_def kept_def)
    have w4: "foreign ?I s4 x" if "within x heap_start 0x1000000" for x using that s4(8) w3 by simp
    have var: "\<not> var_cell bi x" if x: "within x heap_start 0x1000000" for x
    proof
      assume "var_cell bi x"
      then have "boot_cell s0 es x" using fok by (auto simp: boot_files_ok_def region_in_def var_cell_def)
      then show False using x C by blast
    qed
    show "heap t [(56, False), (0x1000000 - 56, True)]"
    proof (rule heap_mem_cong [OF s4(5)])
      fix x assume "hdr [(56, False), (0x1000000 - 56, True)] (unat (x - free_list s4))"
      then have "within x heap_start 0x1000000" using s4(6) by (auto simp: within_def)
      then show "mem t x = mem s4 x" using new w4 var by blast
    qed (use new in simp)
    show "\<forall>x. boot_cell ?st es x \<or> within x heap_start 0x1000000 \<longrightarrow> foreign ?I t x"
    proof (intro allI impI)
      fix x assume "boot_cell ?st es x \<or> within x heap_start 0x1000000"
      then have "foreign ?I s4 x" using w4 s4(2) boot_cong(3) [OF eq s0(5)] by (auto simp: kept_def)
      then show "foreign ?I t x" using new by blast
    qed
    have "free_blocks s4 \<subseteq> boot_frames es" using s4(3) sv(2) s2(8) s1(3) by simp
    then show "segments_mapped ?I (boot_frames es) segs t"
      using t(7) loaded_mono unfolding segments_mapped_def by blast
  qed
  ultimately show ?thesis
    using t(2,3,4,5) s0(2,4) by (intro exI [of _ t] exI [of _ ?I]) (simp add: files_kept_def kept_def)
qed

section \<open>The screen and the buffer of the first program\<close>

lemma regions_apart:
  assumes "kregion a n" and "kregion b k" and "0 < n" and "0 < k"
    and "\<And>x. within x a n \<Longrightarrow> \<not> within x b k"
  shows "unat a + n \<le> unat b \<or> unat b + k \<le> unat a"
proof (rule ccontr)
  assume "\<not> ?thesis"
  then have "within b a n \<or> within a b k"
    using within_kregion [OF assms(1), of b] within_kregion [OF assms(2), of a] by linarith
  then show False using assms(3,4) assms(5) [of a] assms(5) [of b] by auto
qed

text \<open>
  \<open>boot_screen_ok C fb sp\<close>: the video memory and the kernel stack below \<open>sp\<close> lie in memory
  the boot loader reports as in use, and the screen fits what is free of the heap.
\<close>

definition boot_screen_ok :: "(u64 \<Rightarrow> bool) \<Rightarrow> limine_framebuffer \<Rightarrow> u64 \<Rightarrow> bool" where
  "boot_screen_ok C fb sp \<longleftrightarrow> unat (width fb) < 2 ^ 29 \<and> unat (height fb) < 2 ^ 31 \<and>
     unat (width fb) \<le> unat (pitch fb) div 4 \<and> 0 < screen_bytes fb \<and>
     screen_bytes fb + 80 \<le> 0x1000000 \<and> region_in C (address fb) (screen_bytes fb) \<and>
     region_in (\<lambda>x. C x \<and> \<not> within x (address fb) (screen_bytes fb)) (sp - 160) 160"

lemma heap_region: "kregion heap_start 0x1000000"
  by (simp add: kregion_def khalf_def)

lemma booted_display:
  fixes t :: "'a syscalls_scheme"
  assumes b: "booted sy es C segs I st t" and scr: "boot_screen_ok C fb sp"
    and fb: "fb_response st = Some (fb # fbs)" "backbuffer st = 0"
    and C: "\<And>x. C x \<Longrightarrow> \<not> within x heap_start 0x1000000"
  shows "display t fb [(56, False), (0x1000000 - 56, True)]" and "stack_ok t fb 0x1000000 sp"
proof -
  note b = b [unfolded booted_def] and scr = scr [unfolded boot_screen_ok_def region_in_def]
  have vars: "fb_response t = Some (fb # fbs)" "backbuffer t = 0" "free_list t = heap_start"
    using b fb by (simp_all add: screen_vars_def)
  have "tx_live t" using b by (simp add: vm_wf_def pmm_wf_def)
  have va: "unat (address fb) + screen_bytes fb \<le> unat heap_start \<or>
      unat heap_start + 0x1000000 \<le> unat (address fb)"
    using scr C heap_region by (intro regions_apart) auto
  then have "screen_ok fb heap_start 0x1000000"
    using scr by (simp add: screen_ok_def)
  then show "display t fb [(56, False), (0x1000000 - 56, True)]"
    using b vars scr \<open>tx_live t\<close> by (simp add: display_def)
  have "unat (sp - 160) + 160 \<le> unat heap_start \<or> unat heap_start + 0x1000000 \<le> unat (sp - 160)"
    using scr C heap_region by (intro regions_apart) auto
  moreover have "unat (sp - 160) + 160 \<le> unat (address fb) \<or>
      unat (address fb) + screen_bytes fb \<le> unat (sp - 160)"
    using scr by (intro regions_apart) auto
  ultimately show "stack_ok t fb 0x1000000 sp" using scr vars(3) by (simp add: stack_ok_def)
qed

text \<open>Memory that is mapped for the program and lies in one of its segments.\<close>

definition in_segment :: "temp_seg list \<Rightarrow> u64 \<Rightarrow> nat \<Rightarrow> bool" where
  "in_segment segs p n \<longleftrightarrow> (\<exists>e\<in>set segs. unat (ts_vaddr e) \<le> unat p \<and>
     unat p + n \<le> unat (ts_vaddr e) + unat (ts_memsz e))"

lemma loaded_buffer:
  fixes t :: "'a pmm_scheme"
  assumes l: "loaded I F t va N b" and wf: "vm_wf I t" and I: "{..<256} \<subseteq> I"
    and p: "unat va \<le> unat p" "unat p + n \<le> unat va + N"
    and A: "\<And>x. A x \<Longrightarrow> foreign I t x \<and> pg (hhdm_offset t) x \<notin> F"
  shows "\<exists>q. user_buffer t A p n q \<and>
    (\<forall>i<n. pg (hhdm_offset t) (q i) \<in> F \<and> held I t (pg (hhdm_offset t) (q i)))"
proof -
  let ?h = "hhdm_offset t" and ?d = "unat p - unat va"
  obtain fr where fr: "inj_on (cell ?h fr) {..<N}"
      "\<forall>i<N. fr (i div 4096) \<in> F \<and> held I t (fr (i div 4096)) \<and>
         entry t (page_path va (i div 4096)) = Some (leaf_entry (block_addr (fr (i div 4096))) 7)"
    and al: "4096 dvd unat va" "unat va + N \<le> 2 ^ 47"
    using l unfolding loaded_def by blast
  define q where "q i = cell ?h fr (?d + i)" for i
  have d: "?d + i < N" if "i < n" for i using that p by linarith
  have pgq: "pg ?h (q i) = fr ((?d + i) div 4096)" if "i < n" for i
    unfolding q_def cell_def using fr(2) d [OF that] frame_cell(1) by (simp add: held_def)
  have nA: "\<not> A (q i)" if "i < n" for i
    using A [of "q i"] pgq [OF that] fr(2) d [OF that] by auto
  have "inj_on q {..<n}"
  proof (rule inj_onI)
    fix i j assume "i \<in> {..<n}" "j \<in> {..<n}" "q i = q j"
    then have "?d + i = ?d + j" using inj_onD [OF fr(1)] d unfolding q_def by blast
    then show "i = j" by simp
  qed
  moreover have "resolve (t\<lparr>mem := m\<rparr>) (p + of_nat i) = Some (q i)"
    if m: "\<forall>x. \<not> A x \<longrightarrow> (\<forall>i<n. x \<noteq> q i) \<longrightarrow> m x = mem t x" and i: "i < n" for m i
  proof -
    have same: "m x = mem t x" if x: "pg ?h x \<in> tabs I t \<union> bitmap_pages t" for x
    proof -
      have "\<not> A x" using A [of x] x by (auto simp: foreign_def)
      moreover have "x \<noteq> q j" if "j < n" for j
        using x pgq [OF that] fr(2) d [OF that] by (auto simp: held_def)
      ultimately show ?thesis using m by blast
    qed
    have low: "unat (va + of_nat (?d + i)) < 2 ^ 47"
      using aligned_offset(1) [OF al d [OF i]] al(2) d [OF i] by simp
    then have "page_index 39 (va + of_nat (?d + i)) \<in> I" using low_index I by blast
    then have "lpath I (page_path va ((?d + i) div 4096))"
      using va_path_lpath(1) aligned_offset(2) [OF al d [OF i]] by metis
    then have "entry (t\<lparr>mem := m\<rparr>) (page_path va ((?d + i) div 4096)) =
        Some (leaf_entry (block_addr (fr ((?d + i) div 4096))) 7)"
      using untouched(6) [OF wf same] fr(2) d [OF i] by simp
    moreover have "fr ((?d + i) div 4096) < 2 ^ 31" using fr(2) d [OF i] by (auto simp: held_def)
    ultimately have "resolve (t\<lparr>mem := m\<rparr>) (va + of_nat (?d + i)) = Some (q i)"
      using resolve_mapped [OF al d [OF i], of "t\<lparr>mem := m\<rparr>" "fr ((?d + i) div 4096)"]
      by (simp add: q_def cell_def)
    moreover have "va + of_nat (?d + i) = p + of_nat i"
    proof -
      have "(of_nat ?d :: u64) = p - va" using p(1) by (simp add: of_nat_diff word_le_nat_alt)
      then show ?thesis by (simp add: algebra_simps)
    qed
    ultimately show ?thesis by (simp only:)
  qed
  ultimately have "user_buffer t A p n q" using nA by (simp add: user_buffer_def)
  moreover have "\<forall>i<n. pg ?h (q i) \<in> F \<and> held I t (pg ?h (q i))" using pgq fr(2) d by simp
  ultimately show ?thesis by blast
qed

text \<open>
  The session of a program on the screen: its calls touch no page table and no frame that is not
  the program's or the screen's.
\<close>

definition session_apart ::
  "nat set \<Rightarrow> limine_memmap_entry list \<Rightarrow> 'a syscalls_scheme \<Rightarrow> limine_framebuffer \<Rightarrow> u64 \<Rightarrow> (nat \<Rightarrow> u64) \<Rightarrow> bool" where
  "session_apart I es t fb sp q \<longleftrightarrow>
     (\<forall>x. call_cell t fb 0x1000000 sp x \<longrightarrow> foreign I t x \<and> pg (hhdm_offset t) x \<notin> boot_frames es) \<and>
     (\<forall>i<MAX_FRAME_BYTES. pg (hhdm_offset t) (q i) \<in> boot_frames es \<and> held I t (pg (hhdm_offset t) (q i)))"

lemma booted_mono: "booted sy es C segs I st t \<Longrightarrow> (\<And>x. D x \<Longrightarrow> C x) \<Longrightarrow> booted sy es D segs I st t"
  by (auto simp: booted_def)

lemma booted_session:
  fixes t :: "'a syscalls_scheme"
  assumes b: "booted sy es C segs I st t" and scr: "boot_screen_ok C fb sp"
    and fb: "fb_response st = Some (fb # fbs)" "backbuffer st = 0"
    and C: "\<And>x. C x \<Longrightarrow> boot_cell s es x"
    and h: "hhdm_offset t = hhdm_offset s" "unat (hhdm_offset s) + top_of es \<le> unat heap_start"
    and p: "in_segment segs p MAX_FRAME_BYTES"
  shows "\<exists>q. session_ok t fb 0x1000000 sp p q \<and> session_apart I es t fb sp q"
proof -
  have win: "\<And>x. C x \<Longrightarrow> \<not> within x heap_start 0x1000000" using C by (simp add: boot_cell_def)
  note disp = booted_display [OF b scr fb win]
  have fl: "free_list t = heap_start" and wf: "vm_wf I t" and I: "{..<256} \<subseteq> I"
    using b by (simp_all add: booted_def)
  obtain e where e: "e \<in> set segs" "unat (ts_vaddr e) \<le> unat p"
      "unat p + MAX_FRAME_BYTES \<le> unat (ts_vaddr e) + unat (ts_memsz e)"
    using p unfolding in_segment_def by blast
  obtain bs where l: "loaded I (boot_frames es) t (ts_vaddr e) (unat (ts_memsz e)) bs"
    using b e(1) unfolding booted_def segments_mapped_def by blast
  have cell: "foreign I t x \<and> pg (hhdm_offset t) x \<notin> boot_frames es"
    if x: "call_cell t fb 0x1000000 sp x" for x
  proof (cases "within x heap_start 0x1000000")
    case True
    have "pg (hhdm_offset s) x \<notin> usable_blocks es"
      using window_frame [OF True h(2)] usable_block_below by fastforce
    then show ?thesis using b True h(1) by (auto simp: booted_def boot_frames_def)
  next
    case False
    then have "C x" using x scr fl
      by (auto simp: call_cell_def screen_cell_def boot_screen_ok_def region_in_def)
    then show ?thesis using b h(1) C by (auto simp: booted_def boot_frames_def boot_cell_def)
  qed
  obtain q where "user_buffer t (call_cell t fb 0x1000000 sp) p MAX_FRAME_BYTES q"
      "\<forall>i<MAX_FRAME_BYTES. pg (hhdm_offset t) (q i) \<in> boot_frames es \<and> held I t (pg (hhdm_offset t) (q i))"
    using loaded_buffer [OF l wf I e(2,3), of "call_cell t fb 0x1000000 sp"] cell by blast
  then show ?thesis using disp cell unfolding session_ok_def session_apart_def
    by (intro exI [of _ q]) auto
qed

lemma session_keeps:
  fixes t :: "'a syscalls_scheme"
  assumes wf: "vm_wf I t" and ap: "session_apart I es t fb sp q" and st: "session_step t fb 0x1000000 sp q u"
  shows "lpath I pth \<Longrightarrow> entry u pth = entry t pth"
    and "pg (hhdm_offset t) x \<notin> boot_frames es \<Longrightarrow> \<not> call_cell t fb 0x1000000 sp x \<Longrightarrow> mem u x = mem t x"
proof -
  note ap = ap [unfolded session_apart_def] and st = st [unfolded session_step_def]
  show "mem u x = mem t x" if "pg (hhdm_offset t) x \<notin> boot_frames es" "\<not> call_cell t fb 0x1000000 sp x"
    using that ap st by metis
  have same: "mem u x = mem t x" if x: "pg (hhdm_offset t) x \<in> tabs I t \<union> bitmap_pages t" for x
  proof -
    have "\<not> call_cell t fb 0x1000000 sp x" using ap x by (auto simp: foreign_def)
    moreover have "x \<noteq> q i" if "i < MAX_FRAME_BYTES" for i
      using ap that x by (auto simp: held_def)
    ultimately show ?thesis using st by blast
  qed
  assume "lpath I pth"
  with untouched(6) [OF wf same] have "entry (t\<lparr>mem := mem u\<rparr>) pth = entry t pth" by simp
  moreover have "entry u pth = entry (t\<lparr>mem := mem u\<rparr>) pth" using st by (simp add: entry_def)
  ultimately show "entry u pth = entry t pth" by simp
qed

section \<open>The video in the first program's memory\<close>

text \<open>
  The player searches the first page of its mapping for the magic: the ramdisk starts on a page,
  and what it holds between the start of that page and the video must not look like one.
\<close>

definition video_findable :: "u64 \<Rightarrow> u64 \<Rightarrow> files \<Rightarrow> 'a machine_scheme \<Rightarrow> bool" where
  "video_findable h a fs st \<longleftrightarrow> 4096 dvd unat a - unat h \<and>
     (let k = data_offset fs video_bad in \<forall>i<k mod 4096.
        magic_at (\<lambda>x. Some (mem st x)) (a + of_nat (k - k mod 4096 + i)) = Some False)"

lemma magic_at_cong:
  assumes "\<And>j. j < 4 \<Longrightarrow> rd (q + of_nat j) = rd' (q' + of_nat j)"
  shows "magic_at rd q = magic_at rd' q'"
proof -
  have e: "rd q = rd' q'" "rd (q + 1) = rd' (q' + 1)" "rd (q + 2) = rd' (q' + 2)" "rd (q + 3) = rd' (q' + 3)"
    using assms [of 0] assms [of 1] assms [of 2] assms [of 3] by simp_all
  show ?thesis unfolding magic_at_def e ..
qed

lemma length_video_file: "12 \<le> List.length (video_file w h frames)"
  by (simp add: video_file_def)

lemma video_in_mapping:
  fixes t :: "'a machine_scheme" and st :: "'b machine_scheme"
  assumes at: "video_at h a fs t" and v: "map_of (names fs) video_bad = Some v" "12 \<le> List.length v"
    and h: "hhdm_offset t = h" "khalf h" "unat h \<le> unat a" "unat a + archive_size fs \<le> unat heap_start"
    and arch: "archive (mem st) a fs" and same: "\<And>x. within x a (archive_size fs) \<Longrightarrow> mem t x = mem st x"
    and find: "video_findable h a fs st"
  defines "off \<equiv> data_offset fs video_bad mod 4096"
  shows "file_at (ld8 t) (0x80000000 + of_nat off) v"
    and "\<forall>i<off. magic_at (ld8 t) (0x80000000 + of_nat i) = Some False"
proof -
  let ?k = "data_offset fs video_bad"
  let ?p = "a + of_nat ?k"
  have fits: "?k + List.length v \<le> archive_size fs"
    using at v(1) unfolding video_at_def Let_def by blast
  have len: "List.length v \<le> 2 ^ 32 - 1024" using archive_file_bound [OF arch v(1)] .
  have hs: "unat heap_start = 0xFFFF900000000000" by simp
  have "unat (of_nat ?k :: u64) = ?k" using fits h(4) unfolding hs by (intro unat_of_nat64) simp
  then have "unat ?p = unat a + ?k"
    using fits h(4) unfolding hs by (subst unat_add_lem [THEN iffD1]) simp_all
  moreover obtain c where "unat a - unat h = 4096 * c"
    using find unfolding video_findable_def by (auto elim: dvdE)
  ultimately have "unat ?p - unat h = 4096 * c + ?k" using h(3) by simp
  then have off: "(unat ?p - unat h) mod 4096 = off" by (simp add: off_def)
  have le: "off \<le> ?k" by (simp add: off_def)
  note reads = video_reads [OF at v(1) h(1,2), unfolded off]
  have cell: "ld8 t (0x80000000 + of_nat i) = Some (mem t (a + of_nat (?k - off + i)))"
    if "i < off + List.length v" for i
    using reads(2) [of i] that len le by (simp add: of_nat_diff algebra_simps)
  have old: "mem t (a + of_nat i) = mem st (a + of_nat i)" if "i < archive_size fs" for i
    using that h(4) same [of "a + of_nat i"] unfolding hs by simp
  show "file_at (ld8 t) (0x80000000 + of_nat off) v"
    unfolding file_at_def
  proof (intro allI impI)
    fix i assume i: "i < List.length v"
    have "bytes (mem t) ?p (List.length v) ! i = v ! i" using reads(1) len by simp
    then have "mem t (a + of_nat (?k + i)) = v ! i" using i by (simp add: nth_bytes add.assoc)
    then show "ld8 t (0x80000000 + of_nat off + of_nat i) = Some (v ! i)"
      using cell [of "off + i"] i le by (simp add: add.assoc)
  qed
  show "\<forall>i<off. magic_at (ld8 t) (0x80000000 + of_nat i) = Some False"
  proof (intro allI impI)
    fix i assume i: "i < off"
    have "magic_at (ld8 t) (0x80000000 + of_nat i) =
        magic_at (\<lambda>x. Some (mem st x)) (a + of_nat (?k - off + i))"
    proof (rule magic_at_cong)
      fix j :: nat assume j: "j < 4"
      have "?k - off + (i + j) < archive_size fs" using i j v(2) fits le by simp
      then show "ld8 t (0x80000000 + of_nat i + of_nat j) =
          Some (mem st (a + of_nat (?k - off + i) + of_nat j))"
        using cell [of "i + j"] old [of "?k - off + (i + j)"] i j v(2) by (simp add: add.assoc)
    qed
    then show "magic_at (ld8 t) (0x80000000 + of_nat i) = Some False"
      using find i unfolding video_findable_def Let_def off_def by simp
  qed
qed

section \<open>A machine that boots\<close>

text \<open>
  128 MiB with one usable region from 1 MiB on; the responses and the two file names at
  0xFFFF800020000000, the ramdisk at 0xFFFF800030000000 with a video of one frame and with the
  program of theory \<open>KexLd\<close>.
\<close>

definition demo_video :: "(u8 \<times> u8 \<times> u8) list list" where
  "demo_video = [(255, 255, 255) # replicate 7 (0, 0, 9)]"

definition named_header :: "u8 list \<Rightarrow> nat \<Rightarrow> tar_header" where
  "named_header name n = (demo_header 0x41 n)\<lparr>filename := name @ replicate (100 - List.length name) 0\<rparr>"

text \<open>
  A program with 0x11000 bytes of memory, of which the file holds three: the rest is for the
  frame buffer.
\<close>

definition play_elf :: "u8 list" where
  "play_elf = demo_elf_of [0, 0x10, 1, 0, 0, 0, 0, 0]"

definition play_seg :: temp_seg where
  "play_seg = demo_seg_of 0x11000"

lemma play_elf_read:
  "read_elf demo_elf_h \<lparr>idata = play_elf, ipos = 0, ifail = False\<rparr> =
     Some (0x400000, 62, [play_seg], \<lparr>idata = play_elf, ipos = 120, ifail = False\<rparr>)"
  by code_simp

definition play_file :: "u8 list" where
  "play_file = the (kex_link demo_elf_h (\<lambda>_. replicate 32 0) play_elf)"

lemma play_file:
  "kex_link demo_elf_h (\<lambda>_. replicate 32 0) play_elf = Some play_file"
  "List.length play_file = 4099"
  using demo_link [OF play_elf_def _ play_seg_def play_elf_read] by (auto simp: play_file_def)

definition demo_disk :: files where
  "demo_disk = [(named_header video_bad (List.length (video_file 8 1 demo_video)), video_file 8 1 demo_video),
     (named_header init_kex (List.length play_file), play_file)]"

definition demo_ram_map :: "limine_memmap_entry list" where
  "demo_ram_map = [\<lparr>mm_base = 0x100000, mm_length = 0x7F00000, mm_type = 0\<rparr>]"

definition demo_words :: "u64 list" where
  "demo_words = [0, 1, 0xFFFF800020000018, 0xFFFF800020000020, 0x100000, 0x7F00000, 0,
     0, 0xFFFF800000000000, 0, 1, 0xFFFF800020000060, 0xFFFF800020000068, 0, 0xFFFF800030000000]"

definition demo_page :: "u8 list" where
  "demo_page = concat (map (le 8) demo_words) @ video_bad @ [0] @ init_kex @ [0]"

definition demo_loader :: boot_info where
  "demo_loader = \<lparr>base_revision_supported = True, hhdm_response = 0xFFFF800020000038,
     memmap_response = 0xFFFF800020000000, module_response = 0xFFFF800020000048,
     video_bad_str = 0xFFFF800020000078, init_kex_str = 0xFFFF800020000082,
     vid_size_var = 0xFFFF800020001000, file_size_var = 0xFFFF800020001008\<rparr>"

definition demo_screen :: limine_framebuffer where
  "demo_screen = \<lparr>address = 0xFFFF800038000000, width = 16, height = 4, pitch = 64\<rparr>"

definition demo_boot :: boot where
  "demo_boot = syscalls.extend (demo_syscalls\<lparr>cr3 := 0x10000000, fb_response := Some [demo_screen], backbuffer := 0,
     mem := place 0xFFFF800020000000 demo_page (place 0xFFFF800030000000 (tar_image demo_disk) (\<lambda>_. 0))\<rparr>)
   \<lparr>cr0 = 0, cr4 = 0\<rparr>"

lemma demo_boot_simps:
  "mem demo_boot = place 0xFFFF800020000000 demo_page (place 0xFFFF800030000000 (tar_image demo_disk) (\<lambda>_. 0))"
  "cr3 demo_boot = 0x10000000" "hhdm_offset demo_boot = 0xFFFF800000000000"
  "inputs demo_boot = (\<lambda>_ _. 0xFF)" "gdt demo_boot = replicate 7 zero_gdt_entry"
  "idt demo_boot = replicate 256 no_gate" "fb_response demo_boot = Some [demo_screen]" "backbuffer demo_boot = 0"
  by (simp_all add: demo_boot_def syscalls.defs demo_syscalls_simps demo_syscalls_def fs.defs demo_fs_def
    tables.defs demo_tables_def segments.defs demo_segments_def process.defs demo_process_def)

lemma named_header_ok:
  assumes "List.length name < 100" and "name \<noteq> []" and "0 \<notin> set name" and "n \<le> 2 ^ 32 - 1024"
  shows "header_ok (named_header name n) n" "file_name (named_header name n) = name"
proof -
  have "name ! 0 \<noteq> 0" using assms(2,3) by (metis length_greater_0_conv nth_mem)
  then have f: "(name @ replicate (100 - List.length name) 0) ! 0 \<noteq> 0" using assms(2) by (simp add: nth_append)
  have z: "0 \<in> set (replicate (100 - List.length name) (0 :: u8))" using assms(1) by simp
  show "header_ok (named_header name n) n"
    using demo_header_ok [of "0x41" n] assms(1,4) f z
    by (simp add: header_ok_def header_bytes_def named_header_def demo_header_def octal_def)
  have "takeWhile (\<lambda>c. c \<noteq> 0) (name @ replicate (100 - List.length name) 0) = name"
    using assms(3) by (subst takeWhile_append2) (auto simp: takeWhile_replicate)
  then show "file_name (named_header name n) = name" by (simp add: file_name_def named_header_def)
qed

lemma demo_video_length: "List.length (video_file 8 1 demo_video) < 100"
  by (simp add: video_file_def demo_video_def rle_encode_def is_bright_def eval_nat_numeral)

lemma demo_disk_ok:
  "\<forall>(h, d)\<in>set demo_disk. header_ok h (List.length d)"
  "names demo_disk = [(video_bad, video_file 8 1 demo_video), (init_kex, play_file)]"
  "archive_size demo_disk = 6145" "List.length (tar_image demo_disk) = 6145"
proof -
  have v: "List.length (video_file 8 1 demo_video) \<le> 2 ^ 32 - 1024" using demo_video_length by simp
  note n = named_header_ok [of video_bad] named_header_ok [of init_kex]
  show ok: "\<forall>(h, d)\<in>set demo_disk. header_ok h (List.length d)"
    using n v by (simp add: demo_disk_def play_file(2))
  show "names demo_disk = [(video_bad, video_file 8 1 demo_video), (init_kex, play_file)]"
    using n v by (simp add: demo_disk_def play_file(2))
  have "0 < List.length (video_file 8 1 demo_video)" using length_video_file [of 8 1 demo_video] by linarith
  moreover have "(n + 511) div 512 = 1" if "0 < n" "n < 100" for n :: nat
    using that by (intro div_nat_eqI) simp_all
  ultimately have "(List.length (video_file 8 1 demo_video) + 511) div 512 = 1"
    using demo_video_length by blast
  then show "archive_size demo_disk = 6145"
    by (simp add: demo_disk_def file_span_def play_file(2))
  then show "List.length (tar_image demo_disk) = 6145" by (simp add: length_tar_image [OF ok])
qed

lemma demo_page_length: "List.length demo_page = 139"
  by (simp add: demo_page_def demo_words_def)

lemma demo_word:
  assumes "i < 15"
  shows "ldw 8 (mem demo_boot) (0xFFFF800020000000 + of_nat (8 * i)) = demo_words ! i"
proof (rule words_at)
  have len: "8 * List.length demo_words = 120" by (simp add: demo_words_def)
  have page: "bytes (mem demo_boot) 0xFFFF800020000000 139 = demo_page"
    using bytes_place [of demo_page] demo_page_length by (simp add: demo_boot_simps)
  show "bytes (mem demo_boot) 0xFFFF800020000000 (8 * List.length demo_words) = concat (map (le 8) demo_words)"
    using bytes_field [of "mem demo_boot" "0xFFFF800020000000" 139 "[]" "concat (map (le 8) demo_words)" _ 0 120]
    unfolding len using page by (simp add: demo_page_def demo_words_def)
  show "i < List.length demo_words" using assms by (simp add: demo_words_def)
qed

lemma demo_loads:
  "ldw 8 (mem demo_boot) 0xFFFF800020000008 = (1 :: u64)"
  "ldw 8 (mem demo_boot) 0xFFFF800020000010 = (0xFFFF800020000018 :: u64)"
  "ldw 8 (mem demo_boot) 0xFFFF800020000018 = (0xFFFF800020000020 :: u64)"
  "ldw 8 (mem demo_boot) 0xFFFF800020000020 = (0x100000 :: u64)"
  "ldw 8 (mem demo_boot) 0xFFFF800020000028 = (0x7F00000 :: u64)"
  "ldw 8 (mem demo_boot) 0xFFFF800020000030 = (0 :: u64)"
  "ldw 8 (mem demo_boot) 0xFFFF800020000040 = (0xFFFF800000000000 :: u64)"
  "ldw 8 (mem demo_boot) 0xFFFF800020000050 = (1 :: u64)"
  "ldw 8 (mem demo_boot) 0xFFFF800020000058 = (0xFFFF800020000060 :: u64)"
  "ldw 8 (mem demo_boot) 0xFFFF800020000060 = (0xFFFF800020000068 :: u64)"
  "ldw 8 (mem demo_boot) 0xFFFF800020000070 = (0xFFFF800030000000 :: u64)"
  using demo_word [of 1] demo_word [of 2] demo_word [of 3] demo_word [of 4] demo_word [of 5]
    demo_word [of 6] demo_word [of 8] demo_word [of 10] demo_word [of 11] demo_word [of 12] demo_word [of 14]
  by (simp_all add: demo_words_def)

lemma cstring_bytes:
  assumes "bytes m p n = xs @ [0]" and "n = Suc (List.length xs)" and "0 \<notin> set xs"
  shows "cstring m p xs"
  using assms bytes_append [of m p "List.length xs" 1] by (simp add: cstring_iff)

lemma demo_strings:
  "cstring (mem demo_boot) 0xFFFF800020000078 video_bad"
  "cstring (mem demo_boot) 0xFFFF800020000082 init_kex"
proof -
  have page: "bytes (mem demo_boot) 0xFFFF800020000000 139 = demo_page"
    using bytes_place [of demo_page] demo_page_length by (simp add: demo_boot_simps)
  have b1: "bytes (mem demo_boot) (0xFFFF800020000000 + of_nat 120) 10 = video_bad @ [0]"
    by (rule bytes_field [of "mem demo_boot" _ 139 "concat (map (le 8) demo_words)" "video_bad @ [0]" "init_kex @ [0]"])
      (use page in \<open>simp_all add: demo_page_def demo_words_def\<close>)
  show "cstring (mem demo_boot) 0xFFFF800020000078 video_bad" using cstring_bytes [OF b1] by simp
  have b2: "bytes (mem demo_boot) (0xFFFF800020000000 + of_nat 130) 9 = init_kex @ [0]"
    by (rule bytes_field [of "mem demo_boot" _ 139 "concat (map (le 8) demo_words) @ video_bad @ [0]" "init_kex @ [0]" "[]"])
      (use page in \<open>simp_all add: demo_page_def demo_words_def\<close>)
  show "cstring (mem demo_boot) 0xFFFF800020000082 init_kex" using cstring_bytes [OF b2] by simp
qed

lemma demo_disk_bytes: "bytes (mem demo_boot) 0xFFFF800030000000 6145 = tar_image demo_disk"
proof -
  have "mem demo_boot (0xFFFF800030000000 + of_nat i) = tar_image demo_disk ! i" if "i < 6145" for i
  proof -
    have u: "unat (of_nat i :: u64) = i" using that by (intro unat_of_nat64) simp
    then have "unat (0x10000000 + of_nat i :: u64) = 0x10000000 + i"
      using that by (subst unat_add_lem [THEN iffD1]) simp_all
    then show ?thesis
      using that u by (simp add: demo_boot_simps place_def demo_page_length demo_disk_ok(4) add.commute)
  qed
  then show ?thesis by (simp add: list_eq_iff_nth_eq nth_bytes demo_disk_ok(4))
qed

lemma demo_archive_kept: "archive (mem demo_boot) 0xFFFF800030000000 demo_disk"
  using demo_disk_bytes by (intro archive_image [OF demo_disk_ok(1)]) (simp only: demo_disk_ok(3))

lemma demo_frames:
  "top_of demo_ram_map = 0x8000000" "first_big demo_ram_map = 0x100000"
  "usable_blocks demo_ram_map = {256..<32768}" "bitmap_frames demo_ram_map = {256}"
  "boot_frames demo_ram_map = {257..<32768}"
proof -
  show top: "top_of demo_ram_map = 0x8000000" "first_big demo_ram_map = 0x100000"
    by (simp_all add: demo_ram_map_def)
  show us: "usable_blocks demo_ram_map = {256..<32768}"
    by (simp add: demo_ram_map_def usable_blocks_def blocks_of_def)
  show bf: "bitmap_frames demo_ram_map = {256}" unfolding bitmap_frames_def top by auto
  show "boot_frames demo_ram_map = {257..<32768}" unfolding boot_frames_def us bf by auto
qed

lemma demo_root: "root demo_boot = 0x10000000" "bno 0x10000000 = 65536"
  by (simp_all add: demo_boot_simps bno_def)

lemma demo_cell:
  assumes "0xFFFF800020000000 \<le> unat x" and "unat x < 0xFFFF900000000000 \<or> 0xFFFF900001000000 \<le> unat x"
  shows "boot_cell demo_boot demo_ram_map x"
proof -
  have "(0xFFFF800000000000 :: u64) \<le> x" using assms(1) by (simp add: word_le_nat_alt)
  then have "unat (x - 0xFFFF800000000000) = unat x - 0xFFFF800000000000" by (subst unat_sub) simp_all
  then have "0x20000 \<le> pg (hhdm_offset demo_boot) x"
    using assms(1) by (simp add: pg_def demo_boot_simps)
  moreover have "\<not> within x heap_start 0x1000000"
  proof
    assume "within x heap_start 0x1000000"
    then obtain j where j: "j < 0x1000000" "x = heap_start + of_nat j" by (rule withinE)
    have "unat (of_nat j :: u64) = j" using j(1) by (intro unat_of_nat64) simp
    then have "unat x = unat heap_start + j"
      unfolding j(2) using j(1) by (subst unat_add_lem [THEN iffD1]) simp_all
    then show False using assms(2) j(1) by auto
  qed
  ultimately show ?thesis by (simp add: boot_cell_def demo_frames demo_root)
qed

lemma within_unat:
  assumes "within x p n" and "unat p + n \<le> 2 ^ 64"
  shows "unat p \<le> unat x" "unat x < unat p + n"
proof -
  obtain j where j: "j < n" "x = p + of_nat j" using assms(1) by (rule withinE)
  have "unat (of_nat j :: u64) = j" using j(1) assms(2) by (intro unat_of_nat64) simp
  then have "unat x = unat p + j"
    unfolding j(2) using j(1) assms(2) by (subst unat_add_lem [THEN iffD1]) simp_all
  then show "unat p \<le> unat x" "unat x < unat p + n" using j(1) by simp_all
qed

lemma demo_region:
  assumes "0xFFFF800020000000 \<le> unat p" and "unat p + n \<le> 2 ^ 64"
    and "unat p + n \<le> 0xFFFF900000000000 \<or> 0xFFFF900001000000 \<le> unat p"
  shows "region_in (boot_cell demo_boot demo_ram_map) p n"
proof -
  have "boot_cell demo_boot demo_ram_map x" if "within x p n" for x
    using within_unat [OF that] assms by (intro demo_cell) auto
  moreover have "kregion p n" using assms by (simp add: kregion_def khalf_unat)
  ultimately show ?thesis by (simp add: region_in_def)
qed

lemma demo_region_apart:
  assumes "unat p + n \<le> unat q" and "unat q + k \<le> 2 ^ 64"
  shows "within x p n \<Longrightarrow> \<not> within x q k" and "within x q k \<Longrightarrow> \<not> within x p n"
  using within_unat [of x p n] within_unat [of x q k] assms by linarith+

lemma demo_memmap: "memmap_at (mem demo_boot) 0xFFFF800020000000 demo_ram_map"
  by (simp add: memmap_at_def memmap_array_def memmap_ptr_def demo_loads demo_ram_map_def kregion_def khalf_def)

lemma demo_memory_ok: "boot_memory_ok demo_loader demo_ram_map demo_boot"
proof -
  have "\<not> within x 0xFFFF800000100000 4096"
    if "memmap_cell (mem demo_boot) 0xFFFF800020000000 (List.length demo_ram_map) x" for x
  proof -
    have len: "List.length demo_ram_map = 1" by (simp add: demo_ram_map_def)
    have "within x 0xFFFF800020000008 16 \<or> within x 0xFFFF800020000018 8 \<or> within x 0xFFFF800020000020 24"
      using that unfolding len by (simp add: memmap_cell_def memmap_array_def memmap_ptr_def demo_loads)
    then show ?thesis
      using demo_region_apart(2) [of "0xFFFF800000100000" 4096 "0xFFFF800020000008" 16 x]
        demo_region_apart(2) [of "0xFFFF800000100000" 4096 "0xFFFF800020000018" 8 x]
        demo_region_apart(2) [of "0xFFFF800000100000" 4096 "0xFFFF800020000020" 24 x] by auto
  qed
  then have "boot_map_ok demo_boot demo_loader demo_ram_map"
    using demo_memmap
    by (simp add: boot_map_ok_def demo_frames demo_loader_def demo_boot_simps no_wrap_def kregion_def khalf_def
      tx_live_demo) (simp add: demo_ram_map_def)
  moreover have "entry demo_boot [288] = None"
  proof -
    have "mem demo_boot (0xFFFF800010000900 + of_nat i) = 0" if "i < 8" for i
    proof -
      have u: "unat (of_nat i :: u64) = i" using that by (intro unat_of_nat64) simp
      then have "unat (0xFFFF800010000900 + of_nat i :: u64) = 0xFFFF800010000900 + i"
        using that by (subst unat_add_lem [THEN iffD1]) simp_all
      then show ?thesis
        using that within_unat [of "0xFFFF800010000900 + of_nat i" "0xFFFF800020000000" 139]
          within_unat [of "0xFFFF800010000900 + of_nat i" "0xFFFF800030000000" 6145]
        by (auto simp: demo_boot_simps place_def demo_page_length demo_disk_ok(4) within_def)
    qed
    then have "ldw 8 (mem demo_boot) 0xFFFF800010000900 = (ldw 8 (\<lambda>_. 0) 0xFFFF800010000900 :: u64)"
      by (intro ldw_shift) simp
    also have "\<dots> = 0" by (rule bit_word_eqI) (simp add: bit_ldw)
    finally have "entry_at (mem demo_boot) 0xFFFF800000000000 0x10000000 288 = 0"
      by (simp add: entry_at_def entry_addr_def)
    then show ?thesis by (simp add: entry_Cons table_def demo_boot_simps)
  qed
  ultimately show ?thesis
    unfolding boot_memory_ok_def demo_frames demo_root
    by (simp add: demo_boot_simps khalf_def demo_root(2)) (simp add: demo_ram_map_def)
qed

lemma demo_file_cells:
  assumes "0xFFFF800020001000 \<le> unat p" and "unat p + n \<le> 0xFFFF800030000000"
  shows "region_in (\<lambda>x. boot_cell demo_boot demo_ram_map x \<and>
    \<not> file_cell demo_loader 0xFFFF800030000000 demo_disk x) p n"
proof -
  have "region_in (boot_cell demo_boot demo_ram_map) p n" using assms by (intro demo_region) simp_all
  moreover have "\<not> file_cell demo_loader 0xFFFF800030000000 demo_disk x" if "within x p n" for x
    using within_unat [OF that] assms within_unat [of x "0xFFFF800030000000" 6145]
      within_unat [of x "0xFFFF800020000078" 10] within_unat [of x "0xFFFF800020000082" 9]
    by (auto simp: file_cell_def demo_loader_def demo_disk_ok(3))
  ultimately show ?thesis by (simp add: region_in_def)
qed

lemma demo_files_ok: "boot_files_ok demo_loader demo_ram_map 0xFFFF800030000000 demo_disk demo_boot"
  unfolding boot_files_ok_def module_at_def
  using demo_archive_kept demo_strings
  by (simp add: demo_loader_def demo_loads demo_disk_ok(3) demo_region demo_boot_simps(3)
    demo_file_cells [unfolded demo_loader_def])

lemma demo_boot_ok:
  "boot_ok demo_loader demo_ram_map 0xFFFF800000000000 0xFFFF800030000000 demo_disk demo_boot"
proof -
  have "demo_boot\<lparr>hhdm_offset := hhdm_offset demo_boot\<rparr> = demo_boot" by simp
  then have same: "demo_boot\<lparr>hhdm_offset := 0xFFFF800000000000\<rparr> = demo_boot"
    by (simp only: demo_boot_simps(3))
  have "kregion 0xFFFF800020000040 8" by (simp add: kregion_def khalf_def)
  then have "ld64 demo_boot 0xFFFF800020000040 = Some 0xFFFF800000000000"
    by (simp add: kernel_mem demo_loads)
  then show ?thesis
    using demo_memory_ok demo_files_ok
    unfolding boot_ok_def same by (simp add: demo_boot_simps(5,6) demo_loader_def)
qed

lemma demo_program:
  "boot_program demo_elf_h (\<lambda>_. replicate 32 0) play_elf 0x400000 [play_seg] demo_disk"
proof -
  have v: "List.length (video_file 8 1 demo_video) + 8190 < 2 * 4096 + 4096" using demo_video_length by simp
  have "loadable play_elf [play_seg]"
    by (simp add: loadable_def in_file_def play_seg_def demo_seg_of_def page_range_def pages_of_def play_elf_def
      demo_elf_of_def)
  moreover have "map_of (names demo_disk) init_kex = Some play_file" by (simp add: demo_disk_ok(2))
  moreover have "page_range (ts_vaddr play_seg) (ts_memsz play_seg) \<inter> video_pages demo_disk = {}"
    by (auto simp: page_range_def pages_of_def play_seg_def demo_seg_of_def video_pages_def)
  moreover have "0 < phdr32_size demo_elf_h" "0 < phdr64_size demo_elf_h" by (simp_all add: demo_elf_h_def)
  ultimately show ?thesis
    using play_file(1) play_elf_read unfolding boot_program_def by simp
qed

lemma demo_boot_frames:
  "16385 + video_frames demo_disk + program_frames [play_seg] \<le> card (boot_frames demo_ram_map)"
proof -
  have "(List.length (video_file 8 1 demo_video) + 8190) div 4096 \<le> 2"
    using demo_video_length by linarith
  then have "video_frames demo_disk \<le> 6" by (simp add: video_frames_def demo_disk_ok(2))
  moreover have "program_frames [play_seg] = 72" by (simp add: program_frames_def play_seg_def demo_seg_of_def pages_of_def)
  ultimately show ?thesis by (simp add: demo_frames(5))
qed

lemma demo_findable: "video_findable 0xFFFF800000000000 0xFFFF800030000000 demo_disk demo_boot"
proof -
  let ?h = "named_header video_bad (List.length (video_file 8 1 demo_video))"
  have name: "file_name ?h = video_bad" using named_header_ok(2) [of video_bad] demo_video_length by simp
  have "data_offset demo_disk video_bad = 512"
    by (simp only: demo_disk_def data_offset.simps name if_True simp_thms)
  moreover have "magic_at (\<lambda>x. Some (mem demo_boot x)) (0xFFFF800030000000 + of_nat i) = Some False"
    if i: "i < 512" for i
  proof -
    let ?b = "header_bytes ?h @ replicate 12 0"
    have len: "List.length ?b = 512" using demo_disk_ok(1) by (simp add: demo_disk_def header_ok_def)
    obtain ys where "tar_image demo_disk = ?b @ ys" by (simp add: demo_disk_def)
    then have "bytes (mem demo_boot) 0xFFFF800030000000 6145 ! i = ?b ! i"
      using i len unfolding demo_disk_bytes by (simp only: nth_append if_True)
    then have "mem demo_boot (0xFFFF800030000000 + of_nat i) = ?b ! i" using i by (simp add: nth_bytes)
    moreover have "?b ! i \<in> set ?b" using i len by (intro nth_mem) simp
    moreover have "0x42 \<notin> set ?b"
    proof -
      have "of_nat (n div 8 ^ k mod 8) + 0x30 \<noteq> (0x42 :: u8)" for n k :: nat
      proof
        assume "of_nat (n div 8 ^ k mod 8) + 0x30 = (0x42 :: u8)"
        then have "of_nat (n div 8 ^ k mod 8) = (0x42 - 0x30 :: u8)" by (simp only: eq_diff_eq)
        then have "unat (of_nat (n div 8 ^ k mod 8) :: u8) = 18" by simp
        moreover have "n div 8 ^ k mod 8 < 8" by simp
        ultimately show False by (simp add: unsigned_of_nat take_bit_nat_eq_self)
      qed
      then have "0x42 \<notin> set (octal n)" for n by (auto simp: octal_def add.commute)
      then show ?thesis by (simp add: header_bytes_def named_header_def demo_header_def)
    qed
    ultimately have "mem demo_boot (0xFFFF800030000000 + of_nat i) \<noteq> 0x42" by metis
    then show ?thesis by (simp add: magic_at_def)
  qed
  ultimately show ?thesis by (simp add: video_findable_def)
qed

section \<open>Properties\<close>

text \<open>
  C2. The whole boot: on a machine that the boot loader has set up (\<open>boot_ok\<close>), with enough free
  frames and with a ramdisk whose \<open>init.kex\<close> is the linker's output for an ELF executable with
  loadable segments, \<open>_start\<close> never faults or hangs and enters ring 3 at the entry point of the
  executable, with every byte of its segments at its virtual address. Loadable means: every
  segment begins at a page boundary, ends in the lower half, has its file part inside the file
  and no larger than its size in memory, and shares no page with another segment, with the stack
  page 0x7FF000 or with the video at 0x80000000. Without that the claim is false: the loader maps
  pages from the address of the segment on and compares nothing. \<open>boot_ok\<close> asks that usable
  regions begin at page boundaries, that the top of memory fills whole words of the bitmap, that
  the direct map ends below the heap window, and that the bitmap, the tables, the archive and the
  boot loader's structures are apart.
\<close>

theorem boot_runs_init:
  assumes "boot_ok bi es h a fs st" and "boot_program eh SHA256 elf entry_point segs fs"
    and "16385 + video_frames fs + program_frames segs \<le> card (boot_frames es)"
  shows "\<exists>st'. kernel_start sy bi fl st = Some (User_mode (switch_to_user_mode entry_point fl) st') \<and>
    (\<forall>e\<in>set segs. \<forall>i<unat (ts_memsz e). ld8 st' (ts_vaddr e + of_nat i) =
       Some (if i < unat (ts_filesz e) then elf ! (unat (ts_off e) + i) else 0))"
  using kernel_start_ok [OF assms] unfolding segments_in_place_def by blast

theorem boot_runs_init_witness:
  "\<exists>st'. kernel_start demo_symbols demo_loader 0 demo_boot =
       Some (User_mode (switch_to_user_mode 0x400000 0) st') \<and>
     ld8 st' 0x400002 = Some 3 \<and> ld8 st' 0x400004 = Some 0"
proof -
  have byte: "play_elf ! 122 = 3" by code_simp
  obtain st' where "kernel_start demo_symbols demo_loader 0 demo_boot =
        Some (User_mode (switch_to_user_mode 0x400000 0) st')"
      "\<forall>e\<in>set [play_seg]. \<forall>i<unat (ts_memsz e). ld8 st' (ts_vaddr e + of_nat i) =
         Some (if i < unat (ts_filesz e) then play_elf ! (unat (ts_off e) + i) else 0)"
    using boot_runs_init [OF demo_boot_ok demo_program demo_boot_frames, of demo_symbols 0] by blast
  moreover from bspec [OF this(2), of play_seg] have "\<forall>i<5. ld8 st' (0x400000 + of_nat i) =
      Some (if i < 3 then play_elf ! (120 + i) else 0)"
    by (simp add: play_seg_def demo_seg_of_def)
  moreover from spec [OF this, of 2] spec [OF this, of 4]
  have "ld8 st' 0x400002 = Some 3" "ld8 st' 0x400004 = Some 0" by (simp_all add: byte)
  ultimately show ?thesis by blast
qed

text \<open>The video stays where the program reads it while frames are drawn.\<close>

lemma session_video:
  fixes t :: "'a syscalls_scheme"
  assumes b: "booted sy es C segs I st0 t" and ap: "session_apart I es t fb sp q"
    and st: "session_step t fb 0x1000000 sp q u" and at: "video_at h a fs t" and h: "hhdm_offset t = h"
    and cells: "\<And>x. within x a (archive_size fs) \<Longrightarrow>
      pg h x \<notin> boot_frames es \<and> \<not> call_cell t fb 0x1000000 sp x"
    and arch: "archive (mem s) a fs" "archive_size fs \<le> 2 ^ 64"
  shows "video_at h a fs u" and "\<And>x. within x a (archive_size fs) \<Longrightarrow> mem u x = mem t x"
proof -
  have wf: "vm_wf I t" and I: "{..<256} \<subseteq> I" using b by (simp_all add: booted_def)
  note keep = session_keeps [OF wf ap st, unfolded h]
  show mem: "\<And>x. within x a (archive_size fs) \<Longrightarrow> mem u x = mem t x" using keep(2) cells by blast
  show "video_at h a fs u"
    unfolding video_at_def Let_def
  proof (intro allI impI)
    fix v assume v: "map_of (names fs) video_bad = Some v"
    let ?k = "data_offset fs video_bad"
    obtain f off where f: "?k + List.length v \<le> archive_size fs" "bytes (mem t) (a + of_nat ?k) (List.length v) = v"
        "unat (a + of_nat ?k) = unat h + (4096 * f + off)" "off < 4096"
        "\<forall>j<(List.length v + off + 4095) div 4096.
           entry t (page_path 0x80000000 j) = Some (leaf_entry (block_addr (f + j)) 7)"
      using at v unfolding video_at_def Let_def by blast
    have "bytes (mem u) (a + of_nat ?k) (List.length v) = bytes (mem t) (a + of_nat ?k) (List.length v)"
    proof -
      have "mem u (a + of_nat ?k + of_nat i) = mem t (a + of_nat ?k + of_nat i)" if "i < List.length v" for i
      proof -
        have "within (a + of_nat (?k + i)) a (archive_size fs)"
          using that f(1) arch(2) by (subst within_offset) simp_all
        then show ?thesis using mem by (simp add: add.assoc)
      qed
      then show ?thesis by (simp add: bytes_eq_iff)
    qed
    moreover have "entry u (page_path 0x80000000 j) = entry t (page_path 0x80000000 j)"
      if j: "j < (List.length v + off + 4095) div 4096" for j
    proof -
      have n: "0x80000000 + 4096 * ((List.length v + off + 4095) div 4096) \<le> 2 ^ 47"
        using archive_file_bound [OF arch(1) v] f(4) by simp
      have "page_index 39 (0x80000000 + of_nat (4096 * j)) \<in> I"
        using low_index [OF video_page(2) [OF n j]] I by blast
      then show ?thesis using keep(1) va_path_lpath(1) unfolding page_path_def by blast
    qed
    ultimately show "\<exists>f off. ?k + List.length v \<le> archive_size fs \<and>
        bytes (mem u) (a + of_nat ?k) (List.length v) = v \<and>
        unat (a + of_nat ?k) = unat h + (4096 * f + off) \<and> off < 4096 \<and>
        (\<forall>j<(List.length v + off + 4095) div 4096.
           entry u (page_path 0x80000000 j) = Some (leaf_entry (block_addr (f + j)) 7))"
      using f by (intro exI [of _ f] exI [of _ off]) simp
  qed
qed

lemma boot_plays:
  fixes frames :: "(u8 \<times> u8 \<times> u8) list list" and st :: "'a boot_scheme"
  assumes "boot_ok bi es hh a fs st" and "boot_program eh SHA256 elf entry_point segs fs"
    and "16385 + video_frames fs + program_frames segs \<le> card (boot_frames es)"
    and "map_of (names fs) video_bad = Some (video_file w h frames)" and "video_findable hh a fs st"
    and "w < 2 ^ 16" and "h < 2 ^ 16" and "w * h \<le> 8 * MAX_FRAME_BYTES"
    and "\<forall>px\<in>set frames. List.length px = w * h" and "List.length frames < 2 ^ 32"
    and "clk_live clk" and "List.length (frame_buffer pl) = MAX_FRAME_BYTES"
  shows "\<exists>t pl' ds I. kernel_start sy bi fl st = Some (User_mode (switch_to_user_mode entry_point fl) t) \<and>
    player_start passes (ld8 t) clk pl = Some (Running pl') \<and>
    drawn_frames pl' = drawn_frames pl @ ds \<and>
    list_all2 (shows_frame (of_nat w) (of_nat h)) ds
      (concat (replicate passes (map (map is_bright) frames))) \<and>
    booted sy es (boot_cell (st\<lparr>hhdm_offset := hh\<rparr>) es) segs I st t \<and> video_at hh a fs t \<and>
    hhdm_offset t = hh \<and> (\<forall>x. file_cell bi a fs x \<longrightarrow> mem t x = mem st x)"
proof -
  obtain t I where t: "kernel_start sy bi fl st = Some (User_mode (switch_to_user_mode entry_point fl) t)"
      "video_at hh a fs t" "hhdm_offset t = hh" "\<forall>x. file_cell bi a fs x \<longrightarrow> mem t x = mem st x"
      "booted sy es (boot_cell (st\<lparr>hhdm_offset := hh\<rparr>) es) segs I st t"
    using kernel_start_ok [OF assms(1-3), of sy fl] by blast
  have same: "\<And>x. within x a (archive_size fs) \<Longrightarrow> mem t x = mem st x" using t(4) by (simp add: file_cell_def)
  have b: "khalf hh" "unat hh \<le> unat a" "unat a + archive_size fs \<le> unat heap_start" "archive (mem st) a fs"
    using assms(1) by (simp_all add: boot_ok_def boot_memory_ok_def boot_files_ok_def)
  note vm = video_in_mapping [OF t(2) assms(4) length_video_file t(3) b same assms(5)]
  have "data_offset fs video_bad mod 4096 < 4096" by simp
  then obtain pl' ds where "player_start passes (ld8 t) clk pl = Some (Running pl')"
      "drawn_frames pl' = drawn_frames pl @ ds"
      "list_all2 (shows_frame (of_nat w) (of_nat h)) ds (concat (replicate passes (map (map is_bright) frames)))"
    using start_plays [OF assms(6-10) vm(1) _ vm(2) assms(11,12), of passes] by blast
  then show ?thesis using t by blast
qed

text \<open>
  C1. From the encoder to the pixels: a machine that the boot loader has set up, with a ramdisk
  that holds a linked program with loadable segments (as for \<open>boot_runs_init\<close>) and the file that
  the encoder of index.js made of a video, boots into the program; the player of init.c, reading
  that machine's memory, decodes frame after frame, and when it stores them into a buffer in one
  of its segments and makes system call 4 on the stack that the task state segment gives, then
  after call number \<open>k\<close> the centred rectangle on the screen shows frame \<open>k\<close> of the video, every
  pixel white where the original is bright and black where it is dark, in every pass, and the
  video is still there for the player to read. This holds for videos whose width is a multiple
  of 8, which are no larger than the screen and whose frames of \<open>w * h\<close> pixels fit the
  player's buffer of 65536 bytes; a frame of another width is drawn skewed and one wider than
  the screen is not clipped. The ramdisk begins at a page boundary of physical memory, no magic
  stands before the file in its first page, and screen, heap, interrupt stack and archive are
  apart; the screen has 32-bit pixels and its back buffer fits the heap of 16 MiB.
\<close>

theorem boot_shows_video:
  fixes frames :: "(u8 \<times> u8 \<times> u8) list list" and st :: "'a boot_scheme"
  defines "C \<equiv> \<lambda>hh bi es a fs x. boot_cell (st\<lparr>hhdm_offset := hh\<rparr>) es x \<and> \<not> file_cell bi a fs x"
  assumes "boot_ok bi es hh a fs st" and "boot_program eh SHA256 elf entry_point segs fs"
    and "16385 + video_frames fs + program_frames segs \<le> card (boot_frames es)"
    and "map_of (names fs) video_bad = Some (video_file w h frames)" and "video_findable hh a fs st"
    and "w < 2 ^ 16" and "h < 2 ^ 16" and "w * h \<le> 8 * MAX_FRAME_BYTES"
    and "\<forall>px\<in>set frames. List.length px = w * h" and "List.length frames < 2 ^ 32"
    and "clk_live clk" and "List.length (frame_buffer pl) = MAX_FRAME_BYTES"
    and "fb_response st = Some (fb # fbs)" and "backbuffer st = 0" and "size_ok fb w h"
    and "boot_screen_ok (C hh bi es a fs) fb (tss_kernel_stack_sym sy + 4096)"
    and "in_segment segs p MAX_FRAME_BYTES"
  shows "\<exists>st' pl' ds. kernel_start sy bi fl st = Some (User_mode (switch_to_user_mode entry_point fl) st') \<and>
    player_start passes (ld8 st') clk pl = Some (Running pl') \<and> drawn_frames pl' = drawn_frames pl @ ds \<and>
    (\<forall>k<passes * List.length frames. \<exists>st''.
       show_draws irq r (rsp0 (tss_entry st')) p (take (Suc k) ds) st' = Some st'' \<and>
       file_at (ld8 st'') (0x80000000 + of_nat (data_offset fs video_bad mod 4096)) (video_file w h frames) \<and>
       (\<forall>y<h. \<forall>x<w. screen_pixel st'' fb w h x y =
          (if is_bright (concat (replicate passes frames) ! k ! (y * w + x))
           then 0xFFFFFFFF else 0xFF000000)))"
proof -
  let ?s = "st\<lparr>hhdm_offset := hh\<rparr>" and ?sp = "tss_kernel_stack_sym sy + 4096"
  obtain t pl' ds I where t: "kernel_start sy bi fl st = Some (User_mode (switch_to_user_mode entry_point fl) t)"
      "player_start passes (ld8 t) clk pl = Some (Running pl')" "drawn_frames pl' = drawn_frames pl @ ds"
      "list_all2 (shows_frame (of_nat w) (of_nat h)) ds (concat (replicate passes (map (map is_bright) frames)))"
      "booted sy es (boot_cell ?s es) segs I st t" "video_at hh a fs t" "hhdm_offset t = hh"
      "\<forall>x. file_cell bi a fs x \<longrightarrow> mem t x = mem st x"
    using boot_plays [OF assms(2-13), of sy fl passes] by blast
  have o: "khalf hh" "unat hh \<le> unat a" "unat a + archive_size fs \<le> unat heap_start" "archive (mem st) a fs"
      "unat hh + top_of es \<le> unat heap_start" "region_in (boot_cell ?s es) a (archive_size fs)"
    using assms(2) by (simp_all add: boot_ok_def boot_memory_ok_def boot_files_ok_def)
  have b: "booted sy es (C hh bi es a fs) segs I st t" by (rule booted_mono [OF t(5)]) (simp add: C_def)
  obtain q where q: "session_ok t fb 0x1000000 ?sp p q" "session_apart I es t fb ?sp q"
    using booted_session [OF b assms(17,14,15) _ _ _ assms(18), of ?s] t(7) o(5) by (auto simp: C_def)
  have fl: "free_list t = heap_start" and sp: "rsp0 (tss_entry t) = ?sp" using b by (simp_all add: booted_def)
  have cells: "pg hh x \<notin> boot_frames es \<and> \<not> call_cell t fb 0x1000000 ?sp x" if x: "within x a (archive_size fs)" for x
  proof -
    have "boot_cell ?s es x" "file_cell bi a fs x" using o(6) x by (simp_all add: region_in_def file_cell_def)
    then show ?thesis using assms(17) fl
      by (auto simp: boot_screen_ok_def region_in_def C_def boot_cell_def boot_frames_def call_cell_def screen_cell_def)
  qed
  have "\<exists>u. show_draws irq r (rsp0 (tss_entry t)) p (take (Suc k) ds) t = Some u \<and>
      file_at (ld8 u) (0x80000000 + of_nat (data_offset fs video_bad mod 4096)) (video_file w h frames) \<and>
      (\<forall>y<h. \<forall>x<w. screen_pixel u fb w h x y =
         (if is_bright (concat (replicate passes frames) ! k ! (y * w + x)) then 0xFFFFFFFF else 0xFF000000))"
    if k: "k < passes * List.length frames" for k
  proof -
    obtain u where u: "show_draws irq r ?sp p (take (Suc k) ds) t = Some u" "session_step t fb 0x1000000 ?sp q u"
        "\<forall>y<h. \<forall>x<w. screen_pixel u fb w h x y =
           colour (is_bright (concat (replicate passes frames) ! k ! (y * w + x)))"
      using session_shows [OF q(1) assms(16,9,10) t(4) k] by blast
    have "archive_size fs \<le> 2 ^ 64" using o(3) by simp
    note v = session_video [OF b q(2) u(2) t(6,7) cells o(4) this]
    have "mem u x = mem st x" if "within x a (archive_size fs)" for x
      using v(2) [of x] t(8) that by (simp add: file_cell_def)
    moreover have "hhdm_offset u = hh" using u(2) t(7) by (simp add: session_step_def)
    ultimately have "file_at (ld8 u) (0x80000000 + of_nat (data_offset fs video_bad mod 4096)) (video_file w h frames)"
      using video_in_mapping(1) [OF v(1) assms(5) length_video_file _ o(1-4) _ assms(6)] by blast
    then show ?thesis using u(1,3) sp by (simp add: colour_def)
  qed
  then show ?thesis using t(1-3) by blast
qed

lemma demo_screen_ok:
  "boot_screen_ok (\<lambda>x. boot_cell demo_boot demo_ram_map x \<and>
     \<not> file_cell demo_loader 0xFFFF800030000000 demo_disk x) demo_screen
     (tss_kernel_stack_sym demo_symbols + 4096)"
proof -
  have cells: "region_in (\<lambda>x. boot_cell demo_boot demo_ram_map x \<and>
      \<not> file_cell demo_loader 0xFFFF800030000000 demo_disk x) p n"
    if p: "0xFFFF800038000000 \<le> unat p" "unat p + n \<le> 2 ^ 64"
      "unat p + n \<le> 0xFFFF900000000000 \<or> 0xFFFF900001000000 \<le> unat p" for p n
  proof -
    have "region_in (boot_cell demo_boot demo_ram_map) p n" using p by (intro demo_region) auto
    moreover have "\<not> file_cell demo_loader 0xFFFF800030000000 demo_disk x" if "within x p n" for x
      using within_unat [OF that] p within_unat [of x "0xFFFF800030000000" 6145]
        within_unat [of x "0xFFFF800020000078" 10] within_unat [of x "0xFFFF800020000082" 9]
      by (auto simp: file_cell_def demo_loader_def demo_disk_ok(3))
    ultimately show ?thesis by (simp add: region_in_def)
  qed
  have size: "screen_bytes demo_screen = 256" by (simp add: screen_bytes_def demo_screen_def)
  have sp: "tss_kernel_stack_sym demo_symbols + 4096 - 160 = 0xFFFFFFFF80011F60"
    by (simp add: demo_symbols_def)
  have "\<not> within x (address demo_screen) 256" if "within x 0xFFFFFFFF80011F60 160" for x
    using within_unat [OF that] within_unat [of x "0xFFFF800038000000" 256] by (auto simp: demo_screen_def)
  then show ?thesis
    using cells [of "0xFFFF800038000000" 256] cells [of "0xFFFFFFFF80011F60" 160]
    unfolding boot_screen_ok_def size sp by (auto simp: demo_screen_def region_in_def)
qed

theorem boot_shows_video_witness:
  "\<exists>st' pl' ds st''. kernel_start demo_symbols demo_loader 0 demo_boot =
       Some (User_mode (switch_to_user_mode 0x400000 0) st') \<and>
     player_start 1 (ld8 st') of_nat demo_player = Some (Running pl') \<and> drawn_frames pl' = ds \<and>
     show_draws Some demo_regs (rsp0 (tss_entry st')) 0x401000 (take 1 ds) st' = Some st'' \<and>
     screen_pixel st'' demo_screen 8 1 0 0 = 0xFFFFFFFF \<and>
     screen_pixel st'' demo_screen 8 1 1 0 = 0xFF000000"
proof -
  have v: "map_of (names demo_disk) video_bad = Some (video_file 8 1 demo_video)"
    by (simp add: demo_disk_ok(2))
  have px: "\<forall>px\<in>set demo_video. List.length px = 8 * 1" "List.length demo_video < 2 ^ 32"
    by (simp_all add: demo_video_def)
  have pl: "List.length (frame_buffer demo_player) = MAX_FRAME_BYTES" "drawn_frames demo_player = []"
    by (simp_all add: demo_player_def)
  have "demo_boot\<lparr>hhdm_offset := hhdm_offset demo_boot\<rparr> = demo_boot" by simp
  then have same: "demo_boot\<lparr>hhdm_offset := 0xFFFF800000000000\<rparr> = demo_boot"
    by (simp only: demo_boot_simps(3))
  have scr: "boot_screen_ok (\<lambda>x. boot_cell (demo_boot\<lparr>hhdm_offset := 0xFFFF800000000000\<rparr>) demo_ram_map x \<and>
      \<not> file_cell demo_loader 0xFFFF800030000000 demo_disk x) demo_screen
      (tss_kernel_stack_sym demo_symbols + 4096)"
    unfolding same by (rule demo_screen_ok)
  have small: "8 < (2 :: nat) ^ 16" "1 < (2 :: nat) ^ 16" "8 * 1 \<le> 8 * MAX_FRAME_BYTES" by simp_all
  have size: "size_ok demo_screen 8 1" by (simp add: size_ok_def demo_screen_def)
  have seg: "in_segment [play_seg] 0x401000 MAX_FRAME_BYTES"
    by (simp add: in_segment_def play_seg_def demo_seg_of_def)
  have frame: "concat (replicate 1 demo_video) ! 0 = (255, 255, 255) # replicate 7 (0, 0, 9)"
    by (simp add: demo_video_def)
  obtain st' pl' ds where st': "kernel_start demo_symbols demo_loader 0 demo_boot =
        Some (User_mode (switch_to_user_mode 0x400000 0) st')"
      "player_start 1 (ld8 st') of_nat demo_player = Some (Running pl')"
      "drawn_frames pl' = drawn_frames demo_player @ ds"
      "\<forall>k<1 * List.length demo_video. \<exists>st''.
         show_draws Some demo_regs (rsp0 (tss_entry st')) 0x401000 (take (Suc k) ds) st' = Some st'' \<and>
         file_at (ld8 st'') (0x80000000 + of_nat (data_offset demo_disk video_bad mod 4096)) (video_file 8 1 demo_video) \<and>
         (\<forall>y<1. \<forall>x<8. screen_pixel st'' demo_screen 8 1 x y =
            (if is_bright (concat (replicate 1 demo_video) ! k ! (y * 8 + x)) then 0xFFFFFFFF else 0xFF000000))"
    using boot_shows_video [OF demo_boot_ok demo_program demo_boot_frames v demo_findable small px
      clk_live_counter pl(1) demo_boot_simps(7,8) size scr seg, of 0 1 Some demo_regs] by blast
  from st'(4) [rule_format, of 0] obtain st'' where
    "show_draws Some demo_regs (rsp0 (tss_entry st')) 0x401000 (take 1 ds) st' = Some st''"
    "\<forall>y<1. \<forall>x<8. screen_pixel st'' demo_screen 8 1 x y =
       (if is_bright (((255, 255, 255) # replicate 7 (0, 0, 9)) ! (y * 8 + x)) then 0xFFFFFFFF else 0xFF000000)"
    unfolding frame by (auto simp: demo_video_def)
  moreover from this(2) have "screen_pixel st'' demo_screen 8 1 0 0 = 0xFFFFFFFF"
      "screen_pixel st'' demo_screen 8 1 1 0 = 0xFF000000"
    by (simp_all add: is_bright_def)
  ultimately show ?thesis using st'(1-3) pl(2) by (intro exI conjI) (assumption | simp)+
qed

end
