(* ===== verification/Spec2Isabelle.thy ===== *)
theory Spec2Isabelle
  imports Prelude Machine Interfaces LibString Serial Printf Pmm Vmm Kheap Tty Process Segments
    Interrupts Stubs Fs Syscall Video Screen KexFormat Kex KexLd Kernel Boot
begin

text \<open>
  BadOS is a small x86-64 operating system with one purpose: playing a black-and-white video.
  The boot loader enters \<open>_start\<close> (kernel/kernel/kernel.c), which sets up segments, interrupts,
  the serial console, the physical and the virtual memory manager, the kernel heap and the
  process list, finds a video and a program in the ramdisk, maps the video, and loads the
  program. The program (userland/init/init.c) decodes the video and shows its frames by system
  calls; the timer interrupt switches between processes, and the keyboard interrupt fills a
  ring buffer that \<open>gets\<close> reads. Outside the machine, kex-ld/kex-ld.cpp turns the program's ELF
  file into the KEX format of the loader, and misc/index.js encodes the video.

  \<^bold>\<open>The machine.\<close> \<open>Machine\<close> has memory as a function from 64-bit addresses to bytes, the page
  walk of the processor, and ports whose answers are an arbitrary function of the number of
  reads. Addresses of the upper half are the kernel's direct map and image and are accessed as
  they are; addresses of the lower half go through the page tables in that same memory, so a
  wrong page table makes a load fail. The heap window is in the upper half; that its pages are
  mapped, to frames nobody else owns, is a theorem about \<open>_start\<close>. A C function is a definition in the
  option monad over the state; each component adds its static variables to the state record of
  the component it builds on. \<open>None\<close> is a page fault or a call that never returns, and a loop
  that may run for ever is a \<open>partial_function (option)\<close>, so a theorem that says \<open>Some\<close> also
  says that the code ends. Machine integers are words of their C width.

  \<^bold>\<open>Theories, in the order of the imports.\<close>
  \<^item> \<open>Prelude\<close>, \<open>Machine\<close>: ranges of addresses, little-endian words in memory, io.h.
  \<^item> \<open>Interfaces\<close>: the contracts between components as locales: \<open>block_allocator\<close> (frames handed
    out are distinct and were free), \<open>heap_allocator\<close> (blocks are apart and keep their bytes)
    and \<open>bounded_queue\<close> (what is taken is what was pushed, in order). \<open>Pmm\<close>, \<open>Kheap\<close> and \<open>Tty\<close>
    interpret them on the code's operations.
  \<^item> \<open>LibString\<close> (libc/string), \<open>Serial\<close> (serial.c and the output half of tty.c), \<open>Printf\<close>
    (libc/stdio): results and memory effects, the text \<open>printf\<close> sends refined to a rendering
    function, and the number conversion read back.
  \<^item> \<open>Pmm\<close> (pmm.c): the bitmap in memory is abstracted to the set \<open>free_blocks\<close>; allocation is
    first fit, regions are freed and reserved as the code says.
  \<^item> \<open>Vmm\<close> (vmm.c): the invariant \<open>vm_wf\<close> says that the tables below the root indices in its
    argument form a tree of distinct frames no manager hands out. A call of \<open>vmm_map_page\<close>
    makes the walk deliver the frame and changes no other translation.
  \<^item> \<open>Kheap\<close> (kheap.c): the block list in memory is refined to a list of sizes and flags.
  \<^item> \<open>Tty\<close> (the input half of tty.c, the keyboard interrupt of idt.c, gets.c): the ring buffer
    is a queue; a waiting reader is woken by interrupts, given as a schedule.
  \<^item> \<open>Process\<close> (process.c and the stub \<open>isr32\<close> of idt_flush.S): a circular list of control blocks in the
    heap, refined to a list that each timer interrupt rotates, with the registers on the stacks.
  \<^item> \<open>Segments\<close> (gdt.c, tss.c), \<open>Interrupts\<close> (idt.c, pic.c): the packed descriptors, and how the
    processor reads them: interrupts reach the handlers, with the intended privilege.
  \<^item> \<open>Stubs\<close> (the other stubs of idt_flush.S): keyboard interrupts type characters and give every
    program its registers back; exceptions stop the machine on the kernel's interrupt stack.
  \<^item> \<open>Fs\<close> (fs.c): a USTAR archive read in place, described by the predicate \<open>archive\<close>.
  \<^item> \<open>Syscall\<close> (syscall.c, the stub \<open>isr128\<close>): frames of one bit a pixel drawn through the back buffer.
  \<^item> \<open>Video\<close> (init.c, index.js): run-length encoder, file writer and player, and that the player
    shows the frames that were encoded.
  \<^item> \<open>Screen\<close>: player and kernel together. \<open>display\<close> is the invariant of the drawing state of
    syscall.c; a sequence of calls of \<open>draw_frame\<close> (init.c) keeps it and shows one frame after
    the other, from the first call, which takes the back buffer from the heap, on.
  \<^item> \<open>KexFormat\<close>, \<open>Kex\<close> (kex.h, kex.c, process.S), \<open>KexLd\<close> (kex-ld.cpp): the program format, its
    loader and its linker, and that the loader unpacks what the linker writes.
  \<^item> \<open>Kernel\<close> (kernel.c): the parts of \<open>_start\<close> and their composition \<open>kernel_start\<close>.
  \<^item> \<open>Boot\<close>: the whole of \<open>kernel_start\<close> on a machine that the boot loader has set up, with a
    ramdisk that holds a linked program and an encoded video. The invariant \<open>kept\<close> leads through
    the steps of \<open>_start\<close>: the tables are well-formed and the memory in use is as it was;
    \<open>booted\<close> says what \<open>_start\<close> leaves behind. The machine ends at the entry of the program, with
    its image in place; a player that reads the memory of that machine and makes its calls there
    shows the pixels of the frames that were encoded. Both theorems are applied to a machine with
    128 MiB of memory.

  \<^bold>\<open>Bounds and fuel.\<close> A counted C loop whose bound does not change is a recursion over the
  number of rounds that are left: the 4096 pages of the heap, the blocks of a region, the bytes
  of a copy. The player repeats its video for ever; \<open>play_passes\<close> takes the number of passes.
  Waiting loops end by hypotheses on the devices: \<open>tx_live\<close> says that the transmitter gets ready
  again and again. A page needs at most four frames (three tables and itself), which is the
  bound on free frames in the theorems on mapping, loading and the heap. For the whole boot that
  is 16385 frames for the root table and the 4096 pages of the heap, three for each page of the
  video (\<open>video_frames\<close>, whose pages are there already) and four for each page of the program and its stack (\<open>program_frames\<close>).

  \<^bold>\<open>Assumed of code outside the repository.\<close> The addresses the linker script assigns (records
  \<open>symbols\<close> and \<open>boot_info\<close>), what the boot loader reports, the decoders and constants of elf.h
  and the hash function in \<open>KexLd\<close> are parameters. Where C leaves the overflow of an \<open>int\<close> undefined
  (the negation in \<open>printf\<close>, the product of the player's sizes) the models wrap, as the processor
  does, and every loop that waits for an interrupt reads its variables again after it.

  \<^bold>\<open>Where the code does not do it.\<close> The theorems state the conditions under which the code is
  right, because without them it is not: system call 4 needs a width that is a multiple of 8 and
  a frame no larger than the screen (\<open>size_ok\<close>), the loader needs segments that begin at page
  boundaries, share no page and fit their memory (\<open>loadable\<close>), and the bitmap fits the region it
  is put in only up to 32 GiB of memory.

  \<^bold>\<open>Not modelled.\<close> Build files and linker scripts; limine.h apart from the structures the kernel
  reads; multiboot.h and vga.h, which no file includes; reading the source video through ffmpeg
  in index.js; console output and output failures of the linker; caches and the TLB (an entry is
  flushed after each change), so that a store to a page table is seen by the next walk;
  interrupts that arrive in the middle of a C function, except the waiting loops, whose
  schedules are explicit; and the kernel stack, whose frames are written only where the
  interrupt stubs use them.
\<close>

end
